(* ===== verification/Ipc_Prelude.thy ===== *)
theory Ipc_Prelude
  imports Main "HOL-Library.Word" "HOL-Library.Multiset" "HOL-Library.AList"
begin

text \<open>
  Shared vocabulary of the development.

  The machine types of the C++ code, the result type of operations that can leave the defined
  behaviour of C++ (\<open>fault\<close>), the two standard containers whose iteration order the code
  observes (\<open>std::set\<close> as a strictly ascending list, \<open>std::unordered_map\<close> as an
  association list in bucket order), reading a C array through a pointer, and the notion of
  reachable state with its invariant rule. Every component theory imports this one.
\<close>

section \<open>Machine types and collections of rewrite rules\<close>

type_synonym u8 = "8 word"
type_synonym u32 = "32 word"
type_synonym u64 = "64 word"

named_theorems res_simps "rewriting of results that may be a fault"
named_theorems container_simps "laws of the container models"

section \<open>Results that may be a fault\<close>

text \<open>
  A fault is a point at which the C++ program has undefined behaviour, so nothing after it can be
  predicted: an array read past its end, a copy past the end of its destination, a call through a
  null pointer. An operation that returns normally returns \<open>Inr\<close>, error codes included.
\<close>

datatype fault = Array_Bounds | Buffer_Overflow | Null_Pointer

type_synonym 'a res = "fault + 'a"

definition res_bind :: "'a res \<Rightarrow> ('a \<Rightarrow> 'b res) \<Rightarrow> 'b res" where
  "res_bind m f = (case m of Inl e \<Rightarrow> Inl e | Inr a \<Rightarrow> f a)"

lemma res_bind_simps [simp, res_simps]:
  "res_bind (Inl e) f = Inl e"
  "res_bind (Inr a) f = f a"
  by (simp_all add: res_bind_def)

lemma res_bind_Inr_iff [res_simps]:
  "res_bind m f = Inr b \<longleftrightarrow> (\<exists>a. m = Inr a \<and> f a = Inr b)"
  by (cases m) auto

lemma res_bind_Inl_iff:
  "res_bind m f = Inl e \<longleftrightarrow> m = Inl e \<or> (\<exists>a. m = Inr a \<and> f a = Inl e)"
  by (cases m) auto

lemma res_bind_cong [fundef_cong]:
  "m = m' \<Longrightarrow> (\<And>a. m' = Inr a \<Longrightarrow> f a = g a) \<Longrightarrow> res_bind m f = res_bind m' g"
  by (cases m') auto

definition isOK :: "'a res \<Rightarrow> bool" where
  "isOK m = (case m of Inl _ \<Rightarrow> False | Inr _ \<Rightarrow> True)"

lemma isOK_simps [simp]: "\<not> isOK (Inl e)" "isOK (Inr a)"
  by (simp_all add: isOK_def)

lemma isOK_iff: "isOK m \<longleftrightarrow> (\<exists>a. m = Inr a)"
  by (cases m) auto

section \<open>Reading a C array and filling a zeroed buffer\<close>

text \<open>
  \<open>read_prefix xs n\<close> is what a loop reads through \<open>p[0], ..., p[n - 1]\<close> when \<open>p\<close> points to an
  array that holds exactly \<open>xs\<close>.
\<close>

definition read_prefix :: "'a list \<Rightarrow> nat \<Rightarrow> 'a list res" where
  "read_prefix xs n = (if n \<le> length xs then Inr (take n xs) else Inl Array_Bounds)"

lemma read_prefix_Inr_iff [res_simps]:
  "read_prefix xs n = Inr ys \<longleftrightarrow> n \<le> length xs \<and> ys = take n xs"
  by (auto simp: read_prefix_def)

lemma read_prefix_ok [simp]: "n \<le> length xs \<Longrightarrow> read_prefix xs n = Inr (take n xs)"
  by (simp add: read_prefix_def)

lemma read_prefix_past_end [simp]: "length xs < n \<Longrightarrow> read_prefix xs n = Inl Array_Bounds"
  by (simp add: read_prefix_def)

text \<open>\<open>pad_to n xs\<close> is a zeroed buffer of \<open>n\<close> elements with \<open>xs\<close> written at its start.\<close>

definition pad_to :: "nat \<Rightarrow> 'a::zero list \<Rightarrow> 'a list" where
  "pad_to n xs = take n xs @ replicate (n - length xs) 0"

lemma length_pad_to [simp]: "length (pad_to n xs) = n"
  by (simp add: pad_to_def)

lemma pad_to_full [simp]: "length xs = n \<Longrightarrow> pad_to n xs = xs"
  by (simp add: pad_to_def)

lemma take_pad_to: "length xs \<le> n \<Longrightarrow> take (length xs) (pad_to n xs) = xs"
  by (simp add: pad_to_def)

text \<open>
  \<open>memcpy dst src n\<close>: the destination after the copy. Writing past its end is an overflow, reading
  past the end of the source is a bounds fault.
\<close>

definition memcpy :: "'a list \<Rightarrow> 'a list \<Rightarrow> nat \<Rightarrow> 'a list res" where
  "memcpy dst src n =
     (if length dst < n then Inl Buffer_Overflow
      else if length src < n then Inl Array_Bounds
      else Inr (take n src @ drop n dst))"

lemma memcpy_ok [simp]:
  "n \<le> length dst \<Longrightarrow> n \<le> length src \<Longrightarrow> memcpy dst src n = Inr (take n src @ drop n dst)"
  by (simp add: memcpy_def)

lemma memcpy_Inr_iff [res_simps]:
  "memcpy dst src n = Inr xs \<longleftrightarrow>
     n \<le> length dst \<and> n \<le> length src \<and> xs = take n src @ drop n dst"
  by (auto simp: memcpy_def)

section \<open>The ordered set\<close>

text \<open>
  \<open>std::set\<close> keeps its elements in ascending order and iterates over them in that order, which
  decides the order in which the service writes to its clients. The model is the ascending list
  itself.
\<close>

definition oset_insert :: "'a::linorder \<Rightarrow> 'a list \<Rightarrow> 'a list" where
  "oset_insert x xs = insort_insert x xs"

definition oset_erase :: "'a::linorder \<Rightarrow> 'a list \<Rightarrow> 'a list" where
  "oset_erase x xs = remove1 x xs"

definition oset :: "'a::linorder list \<Rightarrow> bool" where
  "oset xs \<longleftrightarrow> sorted xs \<and> distinct xs"

locale ordered_set =
  fixes ins :: "'a \<Rightarrow> 's \<Rightarrow> 's"
    and del :: "'a \<Rightarrow> 's \<Rightarrow> 's"
    and elems :: "'s \<Rightarrow> 'a set"
    and wf :: "'s \<Rightarrow> bool"
  assumes elems_ins: "wf s \<Longrightarrow> elems (ins x s) = insert x (elems s)"
    and elems_del: "wf s \<Longrightarrow> elems (del x s) = elems s - {x}"
    and wf_ins: "wf s \<Longrightarrow> wf (ins x s)"
    and wf_del: "wf s \<Longrightarrow> wf (del x s)"
begin

lemma fold_ins: "wf s \<Longrightarrow> wf (fold ins xs s) \<and> elems (fold ins xs s) = elems s \<union> set xs"
  by (induction xs arbitrary: s) (auto simp: elems_ins wf_ins)

lemma fold_del: "wf s \<Longrightarrow> wf (fold del xs s) \<and> elems (fold del xs s) = elems s - set xs"
  by (induction xs arbitrary: s) (auto simp: elems_del wf_del)

lemma ins_del_cancel: "wf s \<Longrightarrow> x \<notin> elems s \<Longrightarrow> elems (del x (ins x s)) = elems s"
  by (simp add: elems_ins elems_del wf_ins)

end

interpretation os: ordered_set oset_insert oset_erase set oset
  by unfold_locales
    (auto simp: oset_insert_def oset_erase_def oset_def set_insort_insert
       intro: sorted_insort_insert distinct_insort_insert sorted_remove1)

lemma oset_Nil [simp]: "oset []"
  by (simp add: oset_def)

lemma oset_unique: "oset xs \<Longrightarrow> oset ys \<Longrightarrow> set xs = set ys \<Longrightarrow> xs = ys"
  by (simp add: oset_def sorted_distinct_set_unique)

lemmas oset_laws [container_simps] = os.elems_ins os.elems_del os.wf_ins os.wf_del

section \<open>The hash map\<close>

text \<open>
  The hash map of the client manager is iterated over, in an order the standard leaves open. The
  model is the association list in the order of iteration, so that a lemma about every such list
  covers every order.
\<close>

definition umap_erase :: "'k \<Rightarrow> ('k \<times> 'v) list \<Rightarrow> ('k \<times> 'v) list" where
  "umap_erase k m = AList.delete k m"

definition umap_put :: "'k \<Rightarrow> 'v \<Rightarrow> ('k \<times> 'v) list \<Rightarrow> ('k \<times> 'v) list" where
  "umap_put k v m = AList.update k v m"

text \<open>\<open>m[k]\<close> of the source reads the default (empty) element when the key is missing.\<close>

definition umap_at :: "('k \<times> 'v list) list \<Rightarrow> 'k \<Rightarrow> 'v list" where
  "umap_at m k = (case map_of m k of Some v \<Rightarrow> v | None \<Rightarrow> [])"

locale finite_map =
  fixes find :: "'m \<Rightarrow> 'k \<Rightarrow> 'v option"
    and put :: "'k \<Rightarrow> 'v \<Rightarrow> 'm \<Rightarrow> 'm"
    and erase :: "'k \<Rightarrow> 'm \<Rightarrow> 'm"
  assumes find_put: "find (put k v m) j = (if j = k then Some v else find m j)"
    and find_erase: "find (erase k m) j = (if j = k then None else find m j)"
begin

lemma find_put_same: "find (put k v m) k = Some v"
  by (simp add: find_put)

lemma find_erase_put: "find (erase k (put k v m)) = find (erase k m)"
  by (rule ext) (simp add: find_put find_erase)

lemma find_put_put: "find (put k v (put k u m)) = find (put k v m)"
  by (rule ext) (simp add: find_put)

end

interpretation um: finite_map map_of umap_put umap_erase
  by unfold_locales
    (auto simp: umap_put_def umap_erase_def update_conv' delete_conv' fun_upd_def)

lemmas umap_laws [container_simps] = um.find_put um.find_erase

lemma distinct_umap_put: "distinct (map fst m) \<Longrightarrow> distinct (map fst (umap_put k v m))"
  by (simp add: umap_put_def distinct_update)

lemma distinct_umap_erase: "distinct (map fst m) \<Longrightarrow> distinct (map fst (umap_erase k m))"
  by (simp add: umap_erase_def distinct_delete)

section \<open>Reachable states and invariants\<close>

inductive reach :: "('s \<Rightarrow> bool) \<Rightarrow> ('s \<Rightarrow> 's \<Rightarrow> bool) \<Rightarrow> 's \<Rightarrow> bool"
  for init :: "'s \<Rightarrow> bool" and step :: "'s \<Rightarrow> 's \<Rightarrow> bool" where
  reach_init: "init s \<Longrightarrow> reach init step s"
| reach_step: "reach init step s \<Longrightarrow> step s t \<Longrightarrow> reach init step t"

text \<open>
  An invariant of a transition system, to be discharged for the step relation of each component:
  what holds initially and is kept by every step holds in every reachable state.
\<close>

locale invariant_system =
  fixes init :: "'s \<Rightarrow> bool"
    and step :: "'s \<Rightarrow> 's \<Rightarrow> bool"
    and inv :: "'s \<Rightarrow> bool"
  assumes inv_init: "init s \<Longrightarrow> inv s"
    and inv_step: "inv s \<Longrightarrow> step s t \<Longrightarrow> inv t"
begin

lemma reach_inv: "reach init step s \<Longrightarrow> inv s"
  by (induction rule: reach.induct) (auto intro: inv_init inv_step)

lemma steps_inv: "step\<^sup>*\<^sup>* s t \<Longrightarrow> inv s \<Longrightarrow> inv t"
  by (induction rule: rtranclp_induct) (auto intro: inv_step)

end

lemma reach_rtranclp: "reach init step s \<Longrightarrow> step\<^sup>*\<^sup>* s t \<Longrightarrow> reach init step t"
  by (rotate_tac, induction rule: rtranclp_induct) (auto intro: reach_step)

lemma reach_mono:
  "reach init step s \<Longrightarrow> (\<And>s t. step s t \<Longrightarrow> step' s t) \<Longrightarrow> reach init step' s"
  by (induction rule: reach.induct) (auto intro: reach_init reach_step)

text \<open>A relation without an infinite run has a last state.\<close>

lemma last_state:
  assumes "\<forall>f. f 0 = s \<longrightarrow> (\<exists>i. \<not> R (f i) (f (Suc i)))"
  shows "\<exists>t. R\<^sup>*\<^sup>* s t \<and> (\<forall>u. \<not> R t u)"
proof (rule ccontr)
  assume *: "\<not> ?thesis"
  define f where "f = rec_nat s (\<lambda>_ t. SOME u. R t u)"
  have f: "f 0 = s" "f (Suc i) = (SOME u. R (f i) u)" for i by (simp_all add: f_def)
  have "R\<^sup>*\<^sup>* s (f i) \<and> R (f i) (f (Suc i))" for i
  proof (induction i)
    case 0
    have "\<exists>u. R s u" using * by blast
    then show ?case by (simp add: f someI_ex)
  next
    case (Suc i)
    then have reach: "R\<^sup>*\<^sup>* s (f (Suc i))" by auto
    then have "\<exists>u. R (f (Suc i)) u" using * by blast
    with reach show ?case by (simp add: f(2) [of "Suc i"] someI_ex)
  qed
  with assms f(1) show False by blast
qed

text \<open>
  A system that refines another one: under its invariant, each of its steps is a step of the other
  on the states they are mapped to, or leaves that state alone.
\<close>

locale simulation = invariant_system init step inv
  for init :: "'s \<Rightarrow> bool" and step :: "'s \<Rightarrow> 's \<Rightarrow> bool" and inv :: "'s \<Rightarrow> bool" +
  fixes abs_init :: "'a \<Rightarrow> bool"
    and abs_step :: "'a \<Rightarrow> 'a \<Rightarrow> bool"
    and absf :: "'s \<Rightarrow> 'a"
  assumes sim_init: "init s \<Longrightarrow> abs_init (absf s)"
    and sim_step: "inv s \<Longrightarrow> step s t \<Longrightarrow> abs_step (absf s) (absf t) \<or> absf t = absf s"
begin

lemma reach_abs: "reach init step s \<Longrightarrow> reach abs_init abs_step (absf s)"
proof (induction rule: reach.induct)
  case (reach_init s)
  then show ?case by (intro reach.reach_init sim_init)
next
  case (reach_step s t)
  from sim_step [OF reach_inv [OF reach_step(1)] reach_step(2)] reach_step(3) show ?case
    by (auto intro: reach.reach_step)
qed

text \<open>An invariant of the abstract system holds of what the concrete one reaches.\<close>

lemma abs_inv:
  assumes "invariant_system abs_init abs_step ainv" and "reach init step s"
  shows "ainv (absf s)"
  using invariant_system.reach_inv [OF assms(1) reach_abs [OF assms(2)]] .

end

lemma rtranclp_step: "R s t \<Longrightarrow> R\<^sup>*\<^sup>* t u \<Longrightarrow> R\<^sup>*\<^sup>* s u"
  by (rule converse_rtranclp_into_rtranclp)

end
