(* ===== verification/Work_Queue.thy ===== *)
theory Work_Queue
  imports Ipc_Prelude
begin

text \<open>
  \<^verbatim>\<open>src/utils/work_queue.cpp\<close>: the bounded queue of callbacks between the thread that
  receives CAN frames and the thread that runs the callbacks.

  First the operations one at a time, each a function on the state of the queue; then the same
  operations interleaved, because \<open>enqueue\<close> reads the size and inserts the element in two
  separate critical sections and \<open>dequeue_blocking\<close> waits.
\<close>

section \<open>The operations\<close>

record 'a WORK_QUEUE =
  work_queue :: "'a list"
  stopped :: bool

definition MAX_WORK_QUEUE_TASKS :: nat where
  "MAX_WORK_QUEUE_TASKS = 10000"

definition new_WORK_QUEUE :: "'a WORK_QUEUE" where
  "new_WORK_QUEUE = \<lparr>work_queue = [], stopped = False\<rparr>"

definition wq_size :: "'a WORK_QUEUE \<Rightarrow> nat" where
  "wq_size q = length (work_queue q)"

definition is_queue_empty :: "'a WORK_QUEUE \<Rightarrow> bool" where
  "is_queue_empty q \<longleftrightarrow> work_queue q = []"

text \<open>The second critical section of \<open>enqueue\<close>.\<close>

definition enqueue_locked :: "'a \<Rightarrow> 'a WORK_QUEUE \<Rightarrow> bool \<times> 'a WORK_QUEUE" where
  "enqueue_locked func q =
     (if stopped q then (False, q)
      else (True, q\<lparr>work_queue := work_queue q @ [func]\<rparr>))"

definition enqueue :: "'a \<Rightarrow> 'a WORK_QUEUE \<Rightarrow> bool \<times> 'a WORK_QUEUE" where
  "enqueue func q =
     (if wq_size q \<ge> MAX_WORK_QUEUE_TASKS then (False, q) else enqueue_locked func q)"

text \<open>
  What a call of a dequeue operation comes to: it waits, it returns the empty function, or it
  returns a task.
\<close>

datatype 'a deq_result = Deq_Waits | Deq_Null | Deq_Task 'a

definition dequeue_blocking :: "'a WORK_QUEUE \<Rightarrow> 'a deq_result \<times> 'a WORK_QUEUE" where
  "dequeue_blocking q =
     (case work_queue q of
        [] \<Rightarrow> (Deq_Waits, q)
      | func # rest \<Rightarrow>
          (if stopped q then (Deq_Null, q) else (Deq_Task func, q\<lparr>work_queue := rest\<rparr>)))"

definition dequeue_nonblocking :: "'a WORK_QUEUE \<Rightarrow> 'a deq_result \<times> 'a WORK_QUEUE" where
  "dequeue_nonblocking q =
     (if stopped q then (Deq_Null, q)
      else (case work_queue q of
              [] \<Rightarrow> (Deq_Null, q)
            | func # rest \<Rightarrow> (Deq_Task func, q\<lparr>work_queue := rest\<rparr>)))"

function clear_queue :: "'a WORK_QUEUE \<Rightarrow> 'a WORK_QUEUE" where
  "clear_queue q =
     (if work_queue q \<noteq> [] then clear_queue (q\<lparr>work_queue := tl (work_queue q)\<rparr>) else q)"
  by pat_completeness auto
termination
  by (relation "measure (\<lambda>q. length (work_queue q))") auto

declare clear_queue.simps [simp del]

definition wq_stop :: "'a WORK_QUEUE \<Rightarrow> 'a WORK_QUEUE" where
  "wq_stop q = q\<lparr>stopped := True\<rparr>"

lemmas queue_ops = enqueue_def enqueue_locked_def wq_size_def dequeue_blocking_def
  dequeue_nonblocking_def is_queue_empty_def wq_stop_def new_WORK_QUEUE_def

section \<open>The queue as a sequence\<close>

text \<open>
  The contract the receiver relies on: a queue is a sequence with a capacity, elements are added at
  the end while there is room and taken from the front. A client sees only these laws.
\<close>

locale task_queue =
  fixes enq :: "'a \<Rightarrow> 'q \<Rightarrow> bool \<times> 'q"
    and deq :: "'q \<Rightarrow> 'a deq_result \<times> 'q"
    and contents :: "'q \<Rightarrow> 'a list"
    and live :: "'q \<Rightarrow> bool"
    and cap :: nat
  assumes enq_room: "live q \<Longrightarrow> length (contents q) < cap \<Longrightarrow>
      fst (enq x q) \<and> live (snd (enq x q)) \<and> contents (snd (enq x q)) = contents q @ [x]"
    and enq_full: "live q \<Longrightarrow> cap \<le> length (contents q) \<Longrightarrow> enq x q = (False, q)"
    and deq_front: "live q \<Longrightarrow> contents q = y # ys \<Longrightarrow>
      fst (deq q) = Deq_Task y \<and> live (snd (deq q)) \<and> contents (snd (deq q)) = ys"
begin

lemma enq_contents:
  assumes "live q"
  shows "contents (snd (enq x q)) =
      (if length (contents q) < cap then contents q @ [x] else contents q)"
    and "live (snd (enq x q))"
    and "fst (enq x q) \<longleftrightarrow> length (contents q) < cap"
  using assms enq_room [of q x] enq_full [of q x]
  by (cases "length (contents q) < cap"; simp)+

lemma fold_enq:
  assumes "live q" and "length (contents q) \<le> cap"
  shows "live (fold (\<lambda>x q. snd (enq x q)) xs q) \<and>
    contents (fold (\<lambda>x q. snd (enq x q)) xs q) = take cap (contents q @ xs)"
  using assms
proof (induction xs arbitrary: q)
  case Nil
  then show ?case by simp
next
  case (Cons x xs)
  show ?case
  proof (cases "length (contents q) < cap")
    case True
    with Cons.IH [of "snd (enq x q)"] Cons.prems show ?thesis
      by (simp add: enq_contents)
  next
    case False
    with Cons.IH [of "snd (enq x q)"] Cons.prems show ?thesis
      by (simp add: enq_contents)
  qed
qed

lemma drain:
  assumes "live q" and "n \<le> length (contents q)"
  shows "live (((\<lambda>q. snd (deq q)) ^^ n) q) \<and>
    contents (((\<lambda>q. snd (deq q)) ^^ n) q) = drop n (contents q)"
  using assms(2)
proof (induction n)
  case 0
  with assms(1) show ?case by simp
next
  case (Suc n)
  let ?q = "((\<lambda>q. snd (deq q)) ^^ n) q"
  from Suc have l: "live ?q" and c: "contents ?q = drop n (contents q)" by simp_all
  from Suc.prems have e: "contents ?q = contents q ! n # drop (Suc n) (contents q)"
    by (simp add: c Cons_nth_drop_Suc)
  show ?case using deq_front [OF l e] by simp
qed

end

interpretation wq: task_queue enqueue dequeue_blocking work_queue "\<lambda>q. \<not> stopped q"
    MAX_WORK_QUEUE_TASKS
  by unfold_locales (auto simp: queue_ops)

lemma clear_queue_eq: "clear_queue q = q\<lparr>work_queue := []\<rparr>"
proof (induction q rule: clear_queue.induct)
  case (1 q)
  then show ?case
    by (cases "work_queue q = []") (simp_all add: clear_queue.simps [of q])
qed

text \<open>
  The queue is first in, first out and bounded: adding tasks one after the other to a running
  queue leaves the first 10000 of the old and new tasks in their order, and the later ones are
  dropped.
\<close>

theorem enqueue_all_contents:
  assumes "\<not> stopped q" and "wq_size q \<le> MAX_WORK_QUEUE_TASKS"
  shows "work_queue (fold (\<lambda>x q. snd (enqueue x q)) xs q) =
    take MAX_WORK_QUEUE_TASKS (work_queue q @ xs)"
  using wq.fold_enq [of q xs] assms by (simp add: wq_size_def)

theorem enqueue_all_contents_witness:
  "work_queue (fold (\<lambda>x q. snd (enqueue x q)) [1, 2, 3 :: nat] new_WORK_QUEUE) =
     take MAX_WORK_QUEUE_TASKS [1, 2, 3]"
  using enqueue_all_contents [of "new_WORK_QUEUE :: nat WORK_QUEUE" "[1, 2, 3]"]
  by (simp add: queue_ops)

text \<open>
  Taking tasks from a running queue yields them in the order they were added: the task returned
  after \<open>n\<close> earlier calls is the element at position \<open>n\<close>.
\<close>

theorem dequeue_in_order:
  assumes "\<not> stopped q" and "n < wq_size q"
  shows "fst (dequeue_blocking (((\<lambda>q. snd (dequeue_blocking q)) ^^ n) q)) =
    Deq_Task (work_queue q ! n)"
proof -
  let ?q = "((\<lambda>q. snd (dequeue_blocking q)) ^^ n) q"
  have "\<not> stopped ?q" and "work_queue ?q = drop n (work_queue q)"
    using wq.drain [of q n] assms by (simp_all add: wq_size_def)
  moreover have "drop n (work_queue q) = work_queue q ! n # drop (Suc n) (work_queue q)"
    using assms by (simp add: Cons_nth_drop_Suc wq_size_def)
  ultimately show ?thesis using wq.deq_front [of ?q] by simp
qed

theorem dequeue_in_order_witness:
  "fst (dequeue_blocking (((\<lambda>q. snd (dequeue_blocking q)) ^^ 1)
     \<lparr>work_queue = [7, 8 :: nat], stopped = False\<rparr>)) = Deq_Task 8"
  using dequeue_in_order [of "\<lparr>work_queue = [7, 8 :: nat], stopped = False\<rparr>" 1]
  by (simp add: wq_size_def)

end
