(* ===== verification/Work_Queue_Threads.thy ===== *)
theory Work_Queue_Threads
  imports Work_Queue
begin

text \<open>
  The operations of \<^verbatim>\<open>work_queue.cpp\<close> interleaved: \<open>n\<close> producer threads, the consumer
  thread and a thread that stops or clears the queue. One step is one critical section or one
  notification of the condition variable, the granularity at which the lock serialises them.
\<close>

section \<open>Threads and steps\<close>

text \<open>
  A producer inside \<open>enqueue\<close> has passed the size check and not yet entered the second critical
  section, or has inserted its element and not yet notified. The consumer sleeps on the condition
  variable or has been woken and is about to look at the queue again.
\<close>

datatype 'a producer_pc = P_Idle | P_Checked 'a | P_Notify

datatype consumer_pc = C_Out | C_Sleep | C_Woken

record 'a wq_sys =
  sys_queue :: "'a WORK_QUEUE"
  producers :: "nat \<Rightarrow> 'a producer_pc"
  consumer :: consumer_pc

definition wake :: "consumer_pc \<Rightarrow> consumer_pc" where
  "wake c = (if c = C_Sleep then C_Woken else c)"

text \<open>The body of \<open>dequeue_blocking\<close> from the test of the predicate on.\<close>

definition consumer_try :: "'a wq_sys \<Rightarrow> 'a wq_sys" where
  "consumer_try s =
     (case dequeue_blocking (sys_queue s) of
        (Deq_Waits, q) \<Rightarrow> s\<lparr>sys_queue := q, consumer := C_Sleep\<rparr>
      | (_, q) \<Rightarrow> s\<lparr>sys_queue := q, consumer := C_Out\<rparr>)"

inductive wq_step :: "nat \<Rightarrow> 'a wq_sys \<Rightarrow> 'a wq_sys \<Rightarrow> bool" for n :: nat where
  enq_check: "i < n \<Longrightarrow> producers s i = P_Idle \<Longrightarrow>
     wq_size (sys_queue s) < MAX_WORK_QUEUE_TASKS \<Longrightarrow>
     wq_step n s (s\<lparr>producers := (producers s)(i := P_Checked func)\<rparr>)"
| enq_full: "i < n \<Longrightarrow> producers s i = P_Idle \<Longrightarrow>
     wq_size (sys_queue s) \<ge> MAX_WORK_QUEUE_TASKS \<Longrightarrow> wq_step n s s"
| enq_push: "i < n \<Longrightarrow> producers s i = P_Checked func \<Longrightarrow>
     enqueue_locked func (sys_queue s) = (True, q) \<Longrightarrow>
     wq_step n s (s\<lparr>sys_queue := q, producers := (producers s)(i := P_Notify)\<rparr>)"
| enq_stopped: "i < n \<Longrightarrow> producers s i = P_Checked func \<Longrightarrow>
     enqueue_locked func (sys_queue s) = (False, q) \<Longrightarrow>
     wq_step n s (s\<lparr>sys_queue := q, producers := (producers s)(i := P_Idle)\<rparr>)"
| enq_notify: "i < n \<Longrightarrow> producers s i = P_Notify \<Longrightarrow>
     wq_step n s (s\<lparr>producers := (producers s)(i := P_Idle), consumer := wake (consumer s)\<rparr>)"
| deq_call: "consumer s = C_Out \<Longrightarrow> wq_step n s (consumer_try s)"
| deq_recheck: "consumer s = C_Woken \<Longrightarrow> wq_step n s (consumer_try s)"
| spurious: "consumer s = C_Sleep \<Longrightarrow> wq_step n s (s\<lparr>consumer := C_Woken\<rparr>)"
| clear: "wq_step n s (s\<lparr>sys_queue := clear_queue (sys_queue s)\<rparr>)"
| stop_set: "wq_step n s (s\<lparr>sys_queue := wq_stop (sys_queue s)\<rparr>)"
| stop_notify: "stopped (sys_queue s) \<Longrightarrow> wq_step n s (s\<lparr>consumer := wake (consumer s)\<rparr>)"

definition wq_start :: "'a wq_sys" where
  "wq_start = \<lparr>sys_queue = new_WORK_QUEUE, producers = (\<lambda>_. P_Idle), consumer = C_Out\<rparr>"

definition wq_init :: "'a wq_sys \<Rightarrow> bool" where
  "wq_init s \<longleftrightarrow> s = wq_start"

inductive_cases wq_stepE: "wq_step n s t"

lemma consumer_try_simps:
  "work_queue (sys_queue s) = [] \<Longrightarrow> consumer_try s = s\<lparr>consumer := C_Sleep\<rparr>"
  "work_queue (sys_queue s) = x # xs \<Longrightarrow> stopped (sys_queue s) \<Longrightarrow>
     consumer_try s = s\<lparr>consumer := C_Out\<rparr>"
  "work_queue (sys_queue s) = x # xs \<Longrightarrow> \<not> stopped (sys_queue s) \<Longrightarrow>
     consumer_try s =
       s\<lparr>sys_queue := (sys_queue s)\<lparr>work_queue := xs\<rparr>, consumer := C_Out\<rparr>"
  by (simp_all add: consumer_try_def dequeue_blocking_def)

lemma consumer_try_producers [simp]: "producers (consumer_try s) = producers s"
  by (simp add: consumer_try_def split: deq_result.splits prod.splits)

lemma consumer_try_shrinks:
  "length (work_queue (sys_queue (consumer_try s))) \<le> length (work_queue (sys_queue s))"
  by (cases "work_queue (sys_queue s)"; cases "stopped (sys_queue s)")
    (simp_all add: consumer_try_simps)

section \<open>The capacity under concurrent producers\<close>

definition checked :: "nat \<Rightarrow> 'a wq_sys \<Rightarrow> nat set" where
  "checked n s = {i. i < n \<and> (\<exists>func. producers s i = P_Checked func)}"

definition wq_capacity :: "nat \<Rightarrow> 'a wq_sys \<Rightarrow> bool" where
  "wq_capacity n s \<longleftrightarrow>
     length (work_queue (sys_queue s)) + card (checked n s) < MAX_WORK_QUEUE_TASKS + n"

lemma finite_checked [simp]: "finite (checked n s)"
  by (simp add: checked_def)

lemma checked_update:
  "i < n \<Longrightarrow> checked n (s\<lparr>producers := (producers s)(i := pc)\<rparr>) =
     (if \<exists>func. pc = P_Checked func then insert i (checked n s) else checked n s - {i})"
  by (auto simp: checked_def)

lemma checked_cong: "producers s = producers t \<Longrightarrow> checked n s = checked n t"
  by (simp add: checked_def)

lemma checked_le: "card (checked n s) \<le> n"
proof -
  have "checked n s \<subseteq> {..<n}" by (auto simp: checked_def)
  from card_mono [OF _ this] show ?thesis by simp
qed

lemma wq_capacity_start: "wq_init s \<Longrightarrow> wq_capacity n s"
  by (simp add: wq_init_def wq_start_def wq_capacity_def checked_def new_WORK_QUEUE_def
      MAX_WORK_QUEUE_TASKS_def)

lemma wq_capacity_mono:
  assumes "wq_capacity n s" and "producers t = producers s"
    and "length (work_queue (sys_queue t)) \<le> length (work_queue (sys_queue s))"
  shows "wq_capacity n t"
  using assms checked_cong [of t s n] by (simp add: wq_capacity_def)

lemma wq_capacity_step:
  assumes "wq_capacity n s" and "wq_step n s t"
  shows "wq_capacity n t"
  using assms(2)
proof cases
  case (enq_check i func)
  have "card (checked n t) \<le> n" by (rule checked_le)
  with enq_check(4) show ?thesis unfolding enq_check(1) by (simp add: wq_capacity_def wq_size_def)
next
  case (enq_push i func q)
  have "i \<in> checked n s" using enq_push by (auto simp: checked_def)
  then have "card (checked n s) > 0" by (auto simp: card_gt_0_iff)
  moreover have "checked n t = checked n s - {i}"
    using enq_push checked_update [of i n "s\<lparr>sys_queue := q\<rparr>" P_Notify]
      checked_cong [of "s\<lparr>sys_queue := q\<rparr>" s n] by simp
  ultimately have "Suc (card (checked n t)) = card (checked n s)"
    using \<open>i \<in> checked n s\<close> by simp
  moreover have "length (work_queue (sys_queue t)) = Suc (length (work_queue (sys_queue s)))"
    using enq_push(1,4) by (auto simp: enqueue_locked_def split: if_splits)
  ultimately show ?thesis using assms(1) by (simp add: wq_capacity_def)
next
  case (enq_stopped i func q)
  have "checked n t = checked n s - {i}"
    using enq_stopped checked_update [of i n "s\<lparr>sys_queue := q\<rparr>" P_Idle]
      checked_cong [of "s\<lparr>sys_queue := q\<rparr>" s n] by simp
  then have "card (checked n t) \<le> card (checked n s)" by (simp add: card_Diff1_le)
  moreover have "sys_queue t = sys_queue s"
    using enq_stopped(1,4) by (auto simp: enqueue_locked_def split: if_splits)
  ultimately show ?thesis using assms(1) by (simp add: wq_capacity_def)
next
  case (enq_notify i)
  have "checked n t \<subseteq> checked n s" using enq_notify by (auto simp: checked_def)
  then have "card (checked n t) \<le> card (checked n s)" by (simp add: card_mono)
  with assms(1) enq_notify show ?thesis by (simp add: wq_capacity_def)
qed (use assms(1) in \<open>auto intro: wq_capacity_mono consumer_try_shrinks
  simp: clear_queue_eq wq_stop_def\<close>)

interpretation capacity: invariant_system wq_init "wq_step n" "wq_capacity n" for n
  by unfold_locales (auto intro: wq_capacity_start wq_capacity_step)

text \<open>
  C34. The limit of 10000 tasks under concurrency: because \<open>enqueue\<close> tests the size in one critical
  section and inserts in another, \<open>n\<close> producers can exceed the limit, but by at most \<open>n - 1\<close>
  elements; with the single producer of the service the limit is exact.
\<close>

theorem queue_bound:
  assumes "reach wq_init (wq_step n) s"
  shows "wq_size (sys_queue s) < MAX_WORK_QUEUE_TASKS + n"
  using capacity.reach_inv [OF assms] by (simp add: wq_capacity_def wq_size_def)

theorem queue_bound_witness:
  "reach wq_init (wq_step 1) (wq_start :: nat wq_sys) \<and>
   wq_size (sys_queue (wq_start :: nat wq_sys)) < MAX_WORK_QUEUE_TASKS + 1"
  using queue_bound [of 1 "wq_start :: nat wq_sys"] reach_init [of wq_init "wq_start :: nat wq_sys" "wq_step 1"]
  by (simp add: wq_init_def)

section \<open>The bound is reached\<close>

text \<open>
  The run: producer 0 fills the queue up to one element below the limit, then every producer passes
  the size check, then every producer inserts.
\<close>

definition filled :: "nat \<Rightarrow> 'a \<Rightarrow> (nat \<Rightarrow> 'a producer_pc) \<Rightarrow> 'a wq_sys" where
  "filled k x ps =
     \<lparr>sys_queue = \<lparr>work_queue = replicate k x, stopped = False\<rparr>, producers = ps, consumer = C_Out\<rparr>"

lemma filled_check:
  "wq_step n (filled k x ps) (filled k x (ps(i := P_Checked x)))"
  if "i < n" "ps i = P_Idle" "k < MAX_WORK_QUEUE_TASKS"
  using enq_check [of i n "filled k x ps" x] that by (simp add: filled_def wq_size_def)

lemma filled_push:
  "wq_step n (filled k x ps) (filled (Suc k) x (ps(i := P_Notify)))"
  if "i < n" "ps i = P_Checked x"
  using enq_push [of i n "filled k x ps" x "\<lparr>work_queue = replicate (Suc k) x, stopped = False\<rparr>"]
    that by (simp add: filled_def enqueue_locked_def replicate_append_same)

lemma filled_notify:
  "wq_step n (filled k x ps) (filled k x (ps(i := P_Idle)))"
  if "i < n" "ps i = P_Notify"
  using enq_notify [of i n "filled k x ps"] that by (simp add: filled_def wake_def)

lemma idle_again: "(\<lambda>_. P_Idle)(i := P_Idle) = (\<lambda>_. P_Idle)"
  by (rule ext) simp

lemma reach_filled:
  assumes "0 < n"
  shows "k \<le> MAX_WORK_QUEUE_TASKS \<Longrightarrow> reach wq_init (wq_step n) (filled k x (\<lambda>_. P_Idle))"
proof (induction k)
  case 0
  show ?case
    by (rule reach_init)
      (simp add: wq_init_def wq_start_def filled_def new_WORK_QUEUE_def)
next
  case (Suc k)
  let ?c = "filled k x ((\<lambda>_. P_Idle)(0 := P_Checked x))"
  let ?p = "filled (Suc k) x ((\<lambda>_. P_Idle)(0 := P_Notify))"
  have "reach wq_init (wq_step n) ?c"
    using Suc filled_check [of 0 n "\<lambda>_. P_Idle" k x] assms by (auto intro: reach_step)
  then have "reach wq_init (wq_step n) ?p"
    using filled_push [of 0 n "(\<lambda>_. P_Idle)(0 := P_Checked x)" x k] assms
    by (auto intro: reach_step)
  moreover have "wq_step n ?p (filled (Suc k) x (\<lambda>_. P_Idle))"
    using filled_notify [of 0 n "(\<lambda>_. P_Idle)(0 := P_Notify)" "Suc k" x, OF assms]
    by (simp add: idle_again)
  ultimately show ?case by (rule reach_step)
qed

definition racing :: "nat \<Rightarrow> nat \<Rightarrow> 'a \<Rightarrow> nat \<Rightarrow> 'a producer_pc" where
  "racing a b x i = (if i < a then P_Notify else if i < b then P_Checked x else P_Idle)"

lemma reach_all_checked:
  assumes "0 < n"
  shows "m \<le> n \<Longrightarrow>
    reach wq_init (wq_step n) (filled (MAX_WORK_QUEUE_TASKS - 1) x (racing 0 m x))"
proof (induction m)
  case 0
  have "racing 0 0 x = (\<lambda>_. P_Idle)" by (auto simp: racing_def)
  with reach_filled [OF assms, of "MAX_WORK_QUEUE_TASKS - 1" x] show ?case by simp
next
  case (Suc m)
  have upd: "racing 0 (Suc m) x = (racing 0 m x)(m := P_Checked x)"
    by (auto simp: racing_def less_Suc_eq)
  from Suc have "reach wq_init (wq_step n) (filled (MAX_WORK_QUEUE_TASKS - 1) x (racing 0 m x))"
    by simp
  moreover have "wq_step n (filled (MAX_WORK_QUEUE_TASKS - 1) x (racing 0 m x))
      (filled (MAX_WORK_QUEUE_TASKS - 1) x ((racing 0 m x)(m := P_Checked x)))"
    using Suc.prems by (intro filled_check) (simp_all add: racing_def MAX_WORK_QUEUE_TASKS_def)
  ultimately show ?case unfolding upd by (rule reach_step)
qed

lemma reach_all_pushed:
  assumes "0 < n"
  shows "m \<le> n \<Longrightarrow>
    reach wq_init (wq_step n) (filled (MAX_WORK_QUEUE_TASKS - 1 + m) x (racing m n x))"
proof (induction m)
  case 0
  with reach_all_checked [OF assms, of n x] show ?case by simp
next
  case (Suc m)
  have upd: "racing (Suc m) n x = (racing m n x)(m := P_Notify)"
    by (auto simp: racing_def less_Suc_eq)
  from Suc have "reach wq_init (wq_step n)
      (filled (MAX_WORK_QUEUE_TASKS - 1 + m) x (racing m n x))"
    by simp
  moreover have "wq_step n (filled (MAX_WORK_QUEUE_TASKS - 1 + m) x (racing m n x))
      (filled (Suc (MAX_WORK_QUEUE_TASKS - 1 + m)) x ((racing m n x)(m := P_Notify)))"
    using Suc.prems by (intro filled_push) (simp_all add: racing_def)
  ultimately show ?case unfolding upd add_Suc_right by (rule reach_step)
qed

text \<open>
  The excess of \<open>n - 1\<close> elements over the limit is possible: when all \<open>n\<close> producers pass the
  size check before one of them inserts, the queue ends up with \<open>10000 + n - 1\<close> tasks.
\<close>

theorem queue_bound_attained:
  assumes "0 < n"
  shows "\<exists>s :: 'a wq_sys. reach wq_init (wq_step n) s \<and>
    wq_size (sys_queue s) = MAX_WORK_QUEUE_TASKS + n - 1"
proof -
  fix x :: 'a
  let ?s = "filled (MAX_WORK_QUEUE_TASKS - 1 + n) x (racing n n x)"
  have "wq_size (sys_queue ?s) = MAX_WORK_QUEUE_TASKS + n - 1"
    by (simp add: filled_def wq_size_def MAX_WORK_QUEUE_TASKS_def)
  with reach_all_pushed [OF assms, of n x] show ?thesis by blast
qed

theorem queue_bound_attained_witness:
  "\<exists>s :: nat wq_sys. reach wq_init (wq_step 2) s \<and>
    wq_size (sys_queue s) = MAX_WORK_QUEUE_TASKS + 2 - 1"
  using queue_bound_attained [of 2] by simp

section \<open>Waking the consumer\<close>

definition no_lost_wakeup :: "nat \<Rightarrow> 'a wq_sys \<Rightarrow> bool" where
  "no_lost_wakeup n s \<longleftrightarrow>
     (consumer s = C_Sleep \<and> work_queue (sys_queue s) \<noteq> [] \<longrightarrow>
        (\<exists>i < n. producers s i = P_Notify))"

lemma no_lost_wakeup_try: "no_lost_wakeup n (consumer_try s)"
  by (cases "work_queue (sys_queue s)"; cases "stopped (sys_queue s)")
    (simp_all add: consumer_try_simps no_lost_wakeup_def)

lemma no_lost_wakeup_start: "wq_init s \<Longrightarrow> no_lost_wakeup n s"
  by (simp add: no_lost_wakeup_def wq_init_def wq_start_def)

lemma notifier_kept:
  assumes "\<exists>i < n. producers s i = P_Notify" and "producers s j \<noteq> P_Notify"
  shows "\<exists>i < n. ((producers s)(j := pc)) i = P_Notify"
  using assms by auto

lemma no_lost_wakeup_step:
  assumes "no_lost_wakeup n s" and "wq_step n s t"
  shows "no_lost_wakeup n t"
  using assms(2)
proof cases
  case (enq_check i func)
  with assms(1) notifier_kept [of n s i] show ?thesis
    by (simp add: no_lost_wakeup_def del: fun_upd_apply)
next
  case (enq_stopped i func q)
  with assms(1) notifier_kept [of n s i] show ?thesis
    by (simp add: no_lost_wakeup_def enqueue_locked_def del: fun_upd_apply split: if_splits)
qed (use assms(1) no_lost_wakeup_try in
  \<open>auto simp: no_lost_wakeup_def wake_def clear_queue_eq wq_stop_def\<close>)

interpretation wakeup: invariant_system wq_init "wq_step n" "no_lost_wakeup n" for n
  by unfold_locales (auto intro: no_lost_wakeup_start no_lost_wakeup_step)

text \<open>
  No task is forgotten: whenever the consumer sleeps although the queue holds a task, a
  producer that has inserted is about to notify it.
\<close>

theorem consumer_is_notified:
  assumes "reach wq_init (wq_step n) s" and "consumer s = C_Sleep"
    and "work_queue (sys_queue s) \<noteq> []"
  shows "\<exists>i < n. producers s i = P_Notify"
  using wakeup.reach_inv [OF assms(1)] assms(2,3) by (simp add: no_lost_wakeup_def)

text \<open>The sleeping consumer with a task in the queue, reached by one producer.\<close>

lemma reach_sleep_with_task:
  "\<exists>s :: nat wq_sys. reach wq_init (wq_step 1) s \<and> consumer s = C_Sleep \<and>
     work_queue (sys_queue s) = [5]"
proof -
  let ?a = "wq_start\<lparr>consumer := C_Sleep\<rparr> :: nat wq_sys"
  let ?b = "?a\<lparr>producers := (\<lambda>_. P_Idle)(0 := P_Checked 5)\<rparr>"
  let ?c = "?b\<lparr>sys_queue := \<lparr>work_queue = [5], stopped = False\<rparr>,
    producers := (\<lambda>_. P_Idle)(0 := P_Notify)\<rparr>"
  have "wq_step 1 wq_start ?a"
    using deq_call [of wq_start 1]
    by (simp add: wq_start_def consumer_try_simps new_WORK_QUEUE_def)
  moreover have "wq_step 1 ?a ?b"
    using enq_check [of 0 1 ?a 5]
    by (simp add: wq_start_def wq_size_def new_WORK_QUEUE_def MAX_WORK_QUEUE_TASKS_def)
  moreover have "wq_step 1 ?b ?c"
    using enq_push [of 0 1 ?b 5 "\<lparr>work_queue = [5], stopped = False\<rparr>"]
    by (simp add: wq_start_def enqueue_locked_def new_WORK_QUEUE_def)
  moreover have "reach wq_init (wq_step 1) wq_start"
    by (rule reach_init) (simp add: wq_init_def)
  ultimately have "reach wq_init (wq_step 1) ?c" by (blast intro: reach_step)
  then show ?thesis by (intro exI [of _ ?c]) simp
qed

theorem consumer_is_notified_witness:
  "\<exists>s :: nat wq_sys. consumer s = C_Sleep \<and> work_queue (sys_queue s) = [5] \<and>
     (\<exists>i < 1. producers s i = P_Notify)"
  using reach_sleep_with_task consumer_is_notified [of 1] by fastforce

section \<open>Stopping does not release a waiting consumer\<close>

definition stuck :: "'a wq_sys \<Rightarrow> bool" where
  "stuck s \<longleftrightarrow> stopped (sys_queue s) \<and> work_queue (sys_queue s) = [] \<and> consumer s \<noteq> C_Out"

lemma stuck_step: "stuck s \<Longrightarrow> wq_step n s t \<Longrightarrow> stuck t"
  by (erule wq_stepE)
    (auto simp: stuck_def wake_def consumer_try_simps clear_queue_eq wq_stop_def
      enqueue_locked_def)

interpretation stk: invariant_system stuck "wq_step n" stuck for n
  by unfold_locales (auto intro: stuck_step)

text \<open>
  \<open>stop\<close> does not end a waiting \<open>dequeue_blocking\<close>: a consumer that waits on an empty queue
  when the queue is stopped never returns, whatever the threads do afterwards, because the wait
  predicate looks at the queue only and a stopped queue accepts no task.
\<close>

theorem stop_leaves_consumer_waiting:
  assumes "consumer s \<noteq> C_Out" and "work_queue (sys_queue s) = []"
    and "(wq_step n)\<^sup>*\<^sup>* (s\<lparr>sys_queue := wq_stop (sys_queue s)\<rparr>) t"
  shows "consumer t \<noteq> C_Out"
  using stk.steps_inv [OF assms(3)] assms(1,2) by (simp add: stuck_def wq_stop_def)

theorem stop_leaves_consumer_waiting_witness:
  "consumer (wq_start\<lparr>consumer := C_Woken, sys_queue := wq_stop new_WORK_QUEUE\<rparr> :: nat wq_sys)
     \<noteq> C_Out"
proof (rule stop_leaves_consumer_waiting [of "wq_start\<lparr>consumer := C_Sleep\<rparr>" 1])
  show "(wq_step 1)\<^sup>*\<^sup>*
     ((wq_start\<lparr>consumer := C_Sleep\<rparr>)
        \<lparr>sys_queue := wq_stop (sys_queue (wq_start\<lparr>consumer := C_Sleep\<rparr>))\<rparr>)
     (wq_start\<lparr>consumer := C_Woken, sys_queue := wq_stop new_WORK_QUEUE\<rparr> :: nat wq_sys)"
    using stop_notify [of "wq_start\<lparr>consumer := C_Sleep, sys_queue := wq_stop new_WORK_QUEUE\<rparr>" 1]
    by (intro r_into_rtranclp) (simp add: wq_start_def wake_def wq_stop_def)
qed (simp_all add: wq_start_def new_WORK_QUEUE_def)

end
