(* ===== verification/Can_Types.thy ===== *)
theory Can_Types
  imports Ipc_Prelude
begin

unbundle bit_operations_syntax

text \<open>
  The data of \<^verbatim>\<open>include/can_ipc_layer/can_struct_define.h\<close>,
  \<^verbatim>\<open>include/can_ipc_layer/ret_code_def.h\<close> and
  \<^verbatim>\<open>src/core/can_struct_internal_define.hpp\<close>: enumerations, structures, return codes and
  the conversion between data length codes and byte counts.

  An object of a scoped enumeration type holds any value of its underlying \<open>int\<close>, and the
  packages of the clients are copied into such objects unchecked. Each enumeration therefore has
  one more constructor, for the values outside the list of enumerators; the \<open>default\<close> branches
  of the source are reached through it.
\<close>

section \<open>Return codes\<close>

definition RET_CODE_SUCCESS :: int where "RET_CODE_SUCCESS = 0"
definition RET_CODE_ERROR :: int where "RET_CODE_ERROR = 1"
definition RET_CODE_NOT_INITED :: int where "RET_CODE_NOT_INITED = 2"
definition RET_CODE_TIMEOUT :: int where "RET_CODE_TIMEOUT = 3"
definition RET_CODE_INVALID_ARG :: int where "RET_CODE_INVALID_ARG = 4"

lemmas ret_codes [simp] = RET_CODE_SUCCESS_def RET_CODE_ERROR_def RET_CODE_NOT_INITED_def
  RET_CODE_TIMEOUT_def RET_CODE_INVALID_ARG_def

section \<open>Enumerations\<close>

definition SOCKET_MAGIC_CODE :: u32 where
  "SOCKET_MAGIC_CODE = 0xDEADC0DE"

datatype SOCKET_ORDER_E =
    SOCKET_ORDER_AS_SEND
  | SOCKET_ORDER_AS_RECEIVE
  | SOCKET_ORDER_AS_ADD_FILTER
  | SOCKET_ORDER_AS_REMOVE_FILTER
  | SOCKET_ORDER_AS_ACK
  | SOCKET_ORDER_OTHER u32

datatype CAN_PORT_E =
    CAN_PORT_5
  | CAN_PORT_6
  | CAN_PORT_7
  | CAN_PORT_8
  | CAN_PORT_9
  | CAN_PORT_OTHER u32

datatype SOCKET_RETURN_ACK =
    ACK_OKAY
  | ACK_ERROR
  | ACK_UNKNOW
  | ACK_OTHER u32

datatype CAN_DEV_PORT_E =
    CAN_DEV_PORT_5
  | CAN_DEV_PORT_6
  | CAN_DEV_PORT_7
  | CAN_DEV_PORT_8
  | CAN_DEV_PORT_9
  | CAN_DEV_PORT_OTHER int

text \<open>The integer values of the enumerators, and the casts from an integer.\<close>

fun order_raw :: "SOCKET_ORDER_E \<Rightarrow> u32" where
  "order_raw SOCKET_ORDER_AS_SEND = 0"
| "order_raw SOCKET_ORDER_AS_RECEIVE = 1"
| "order_raw SOCKET_ORDER_AS_ADD_FILTER = 2"
| "order_raw SOCKET_ORDER_AS_REMOVE_FILTER = 3"
| "order_raw SOCKET_ORDER_AS_ACK = 4"
| "order_raw (SOCKET_ORDER_OTHER r) = r"

definition order_of_raw :: "u32 \<Rightarrow> SOCKET_ORDER_E" where
  "order_of_raw r =
     (if r = 0 then SOCKET_ORDER_AS_SEND
      else if r = 1 then SOCKET_ORDER_AS_RECEIVE
      else if r = 2 then SOCKET_ORDER_AS_ADD_FILTER
      else if r = 3 then SOCKET_ORDER_AS_REMOVE_FILTER
      else if r = 4 then SOCKET_ORDER_AS_ACK
      else SOCKET_ORDER_OTHER r)"

fun can_port_raw :: "CAN_PORT_E \<Rightarrow> u32" where
  "can_port_raw CAN_PORT_5 = 0"
| "can_port_raw CAN_PORT_6 = 1"
| "can_port_raw CAN_PORT_7 = 2"
| "can_port_raw CAN_PORT_8 = 3"
| "can_port_raw CAN_PORT_9 = 4"
| "can_port_raw (CAN_PORT_OTHER r) = r"

definition can_port_of_raw :: "u32 \<Rightarrow> CAN_PORT_E" where
  "can_port_of_raw r =
     (if r = 0 then CAN_PORT_5
      else if r = 1 then CAN_PORT_6
      else if r = 2 then CAN_PORT_7
      else if r = 3 then CAN_PORT_8
      else if r = 4 then CAN_PORT_9
      else CAN_PORT_OTHER r)"

fun ack_raw :: "SOCKET_RETURN_ACK \<Rightarrow> u32" where
  "ack_raw ACK_OKAY = 0"
| "ack_raw ACK_ERROR = 1"
| "ack_raw ACK_UNKNOW = 2"
| "ack_raw (ACK_OTHER r) = r"

definition ack_of_raw :: "u32 \<Rightarrow> SOCKET_RETURN_ACK" where
  "ack_of_raw r =
     (if r = 0 then ACK_OKAY else if r = 1 then ACK_ERROR
      else if r = 2 then ACK_UNKNOW else ACK_OTHER r)"

fun dev_port_raw :: "CAN_DEV_PORT_E \<Rightarrow> int" where
  "dev_port_raw CAN_DEV_PORT_5 = 5"
| "dev_port_raw CAN_DEV_PORT_6 = 6"
| "dev_port_raw CAN_DEV_PORT_7 = 7"
| "dev_port_raw CAN_DEV_PORT_8 = 8"
| "dev_port_raw CAN_DEV_PORT_9 = 9"
| "dev_port_raw (CAN_DEV_PORT_OTHER r) = r"

definition dev_port_of_raw :: "int \<Rightarrow> CAN_DEV_PORT_E" where
  "dev_port_of_raw r =
     (if r = 5 then CAN_DEV_PORT_5
      else if r = 6 then CAN_DEV_PORT_6
      else if r = 7 then CAN_DEV_PORT_7
      else if r = 8 then CAN_DEV_PORT_8
      else if r = 9 then CAN_DEV_PORT_9
      else CAN_DEV_PORT_OTHER r)"

text \<open>\<open>static_cast<uint8_t>\<close> of a device port.\<close>

definition dev_port_u8 :: "CAN_DEV_PORT_E \<Rightarrow> u8" where
  "dev_port_u8 p = word_of_int (dev_port_raw p)"

text \<open>A value is canonical when it is what the cast from its own integer gives.\<close>

definition canonical_order :: "SOCKET_ORDER_E \<Rightarrow> bool" where
  "canonical_order x \<longleftrightarrow> order_of_raw (order_raw x) = x"

definition canonical_port :: "CAN_PORT_E \<Rightarrow> bool" where
  "canonical_port x \<longleftrightarrow> can_port_of_raw (can_port_raw x) = x"

definition canonical_ack :: "SOCKET_RETURN_ACK \<Rightarrow> bool" where
  "canonical_ack x \<longleftrightarrow> ack_of_raw (ack_raw x) = x"

lemma raw_of_raw [simp]:
  "order_raw (order_of_raw r) = r"
  "can_port_raw (can_port_of_raw r) = r"
  "ack_raw (ack_of_raw r) = r"
  "dev_port_raw (dev_port_of_raw i) = i"
  by (simp_all add: order_of_raw_def can_port_of_raw_def ack_of_raw_def dev_port_of_raw_def)

lemma canonical_of_raw [simp]:
  "canonical_order (order_of_raw r)"
  "canonical_port (can_port_of_raw r)"
  "canonical_ack (ack_of_raw r)"
  by (simp_all add: canonical_order_def canonical_port_def canonical_ack_def)

lemma dev_port_u8_roundtrip:
  "p \<in> {CAN_DEV_PORT_5, CAN_DEV_PORT_6, CAN_DEV_PORT_7, CAN_DEV_PORT_8, CAN_DEV_PORT_9} \<Longrightarrow>
   dev_port_of_raw (uint (dev_port_u8 p)) = p"
  by (auto simp: dev_port_u8_def dev_port_of_raw_def)

section \<open>Data length codes\<close>

definition CANFD_MAX_DLEN :: nat where
  "CANFD_MAX_DLEN = 64"

definition dlc_table :: "u8 list" where
  "dlc_table = [0, 1, 2, 3, 4, 5, 6, 7, 8, 12, 16, 20, 24, 32, 48, 64]"

definition can_dlc_to_bytes :: "u8 \<Rightarrow> u8" where
  "can_dlc_to_bytes dlc = dlc_table ! (min (unat dlc) (length dlc_table - 1))"

definition can_bytes_to_dlc :: "u8 \<Rightarrow> u8" where
  "can_bytes_to_dlc num_bytes =
     (if num_bytes \<le> 8 then num_bytes
      else if num_bytes \<le> 12 then 9
      else if num_bytes \<le> 16 then 10
      else if num_bytes \<le> 20 then 11
      else if num_bytes \<le> 24 then 12
      else if num_bytes \<le> 32 then 13
      else if num_bytes \<le> 48 then 14
      else 15)"

text \<open>
  Both functions on a byte, by its value: the sixteen codes, and every count. The case split is
  shared by the properties of the two conversions.
\<close>

lemma u8_less_16_cases:
  fixes d :: u8
  assumes "unat d < 16"
  obtains "d = 0" | "d = 1" | "d = 2" | "d = 3" | "d = 4" | "d = 5" | "d = 6" | "d = 7"
    | "d = 8" | "d = 9" | "d = 10" | "d = 11" | "d = 12" | "d = 13" | "d = 14" | "d = 15"
proof -
  have d: "d = of_nat (unat d)" by simp
  from assms have "unat d \<in> {0, 1, 2, 3, 4, 5, 6, 7, 8, 9, 10, 11, 12, 13, 14, 15}"
    unfolding insert_iff empty_iff by presburger
  then show thesis
    using that d by (elim insertE emptyE) (simp_all)
qed

lemma can_dlc_to_bytes_table:
  "unat d < 16 \<Longrightarrow> can_dlc_to_bytes d = dlc_table ! unat d"
  by (simp add: can_dlc_to_bytes_def dlc_table_def min_def)

lemma can_dlc_to_bytes_large:
  "15 \<le> unat d \<Longrightarrow> can_dlc_to_bytes d = 64"
  by (simp add: can_dlc_to_bytes_def dlc_table_def min_def)

lemma can_dlc_to_bytes_le_64:
  "unat (can_dlc_to_bytes d) \<le> 64"
proof (cases "unat d < 16")
  case True
  then show ?thesis
    by (rule u8_less_16_cases) (simp_all add: can_dlc_to_bytes_def dlc_table_def)
next
  case False
  then show ?thesis by (simp add: can_dlc_to_bytes_large)
qed

lemma can_bytes_to_dlc_le_15: "can_bytes_to_dlc n \<le> 15"
  by (auto simp: can_bytes_to_dlc_def word_le_nat_alt)

lemma can_bytes_to_dlc_large: "64 < unat n \<Longrightarrow> can_bytes_to_dlc n = 15"
  by (simp add: can_bytes_to_dlc_def word_le_nat_alt)

lemma can_dlc_galois:
  fixes n d :: u8
  assumes "n \<le> 64"
  shows "can_bytes_to_dlc n \<le> d \<longleftrightarrow> n \<le> can_dlc_to_bytes d"
proof (cases "unat d < 16")
  case True
  then show ?thesis
    by (rule u8_less_16_cases)
      (use assms in \<open>auto simp: can_bytes_to_dlc_def can_dlc_to_bytes_def dlc_table_def
         word_le_nat_alt split: if_splits\<close>)
next
  case False
  then have "15 \<le> d" by (simp add: word_le_nat_alt)
  with can_bytes_to_dlc_le_15 [of n] have "can_bytes_to_dlc n \<le> d" by (rule order_trans)
  with False assms show ?thesis by (simp add: can_dlc_to_bytes_large)
qed

text \<open>
  The two length conversions form a Galois connection on the payload sizes of CAN FD: the code
  chosen for a byte count of at most 64 is the least data length code whose frame holds that many
  bytes.
\<close>

theorem can_bytes_to_dlc_least:
  fixes n d :: u8
  assumes "n \<le> 64"
  shows "can_bytes_to_dlc n \<le> d \<longleftrightarrow> n \<le> can_dlc_to_bytes d"
  using assms by (rule can_dlc_galois)

theorem can_bytes_to_dlc_least_witness:
  "(33::u8) \<le> 64 \<and> (can_bytes_to_dlc 33 \<le> 14 \<longleftrightarrow> 33 \<le> can_dlc_to_bytes 14)"
  using can_bytes_to_dlc_least [of 33 14] by simp

lemma can_dlc_roundtrip: "can_bytes_to_dlc (can_dlc_to_bytes d) = min d 15"
proof (cases "unat d < 16")
  case True
  then show ?thesis
    by (rule u8_less_16_cases)
      (simp_all add: can_bytes_to_dlc_def can_dlc_to_bytes_def dlc_table_def min_def)
next
  case False
  then have "15 \<le> d" by (simp add: word_le_nat_alt)
  with False show ?thesis
    by (simp add: can_dlc_to_bytes_large can_bytes_to_dlc_def min_absorb2)
qed

section \<open>Structures\<close>

text \<open>\<open>can_frame_t\<close>; the payload union is its byte view, an array of 64 bytes.\<close>

record can_frame_t =
  frame_id :: u32
  frame_dlc :: u8
  frame_flags :: u8
  frame_data :: "u8 list"

text \<open>
  \<open>can_filter_t\<close>. A pointer to an array of identifiers is \<open>None\<close> when null and otherwise the
  array it points to.
\<close>

record can_filter_t =
  flt_can_port :: CAN_PORT_E
  flt_id :: "u32 list option"
  flt_id_cnt :: u32

record SOCKET_PACKAGE_T =
  socket_magic_code :: u32
  socket_order :: SOCKET_ORDER_E
  pkg_can_port :: CAN_PORT_E
  pkg_can_frame :: can_frame_t
  can_filter_id :: "u32 list"
  can_filter_cnt :: u32
  socket_ack :: SOCKET_RETURN_ACK
  socket_ack_for_order :: SOCKET_ORDER_E

definition wf_frame :: "can_frame_t \<Rightarrow> bool" where
  "wf_frame f \<longleftrightarrow> length (frame_data f) = CANFD_MAX_DLEN"

definition wf_package :: "SOCKET_PACKAGE_T \<Rightarrow> bool" where
  "wf_package p \<longleftrightarrow> wf_frame (pkg_can_frame p) \<and> length (can_filter_id p) = 32 \<and>
     canonical_order (socket_order p) \<and> canonical_port (pkg_can_port p) \<and>
     canonical_ack (socket_ack p) \<and> canonical_order (socket_ack_for_order p)"

text \<open>The value initialised structures \<open>can_frame_t x = {}\<close> and \<open>SOCKET_PACKAGE_T x = {}\<close>.\<close>

definition zero_frame :: can_frame_t where
  "zero_frame =
     \<lparr>frame_id = 0, frame_dlc = 0, frame_flags = 0, frame_data = replicate CANFD_MAX_DLEN 0\<rparr>"

definition zero_package :: SOCKET_PACKAGE_T where
  "zero_package =
     \<lparr>socket_magic_code = 0, socket_order = SOCKET_ORDER_AS_SEND, pkg_can_port = CAN_PORT_5,
      pkg_can_frame = zero_frame, can_filter_id = replicate 32 0, can_filter_cnt = 0,
      socket_ack = ACK_OKAY, socket_ack_for_order = SOCKET_ORDER_AS_SEND\<rparr>"

lemma wf_zero [simp]: "wf_frame zero_frame" "wf_package zero_package"
  by (simp_all add: wf_frame_def zero_frame_def wf_package_def zero_package_def
      canonical_order_def canonical_port_def canonical_ack_def order_of_raw_def
      can_port_of_raw_def ack_of_raw_def)

text \<open>\<open>CAN_IPC_CONFIG_T\<close> with its default constructor, and \<open>can_port_target_t\<close>.\<close>

definition CAN_IPC_INS0_CAN5_CHAN4 :: string where "CAN_IPC_INS0_CAN5_CHAN4 = ''can5_ins0ch4''"
definition CAN_IPC_INS0_CAN6_CHAN6 :: string where "CAN_IPC_INS0_CAN6_CHAN6 = ''can6_ins0ch6''"
definition CAN_IPC_INS0_CAN7_CHAN7 :: string where "CAN_IPC_INS0_CAN7_CHAN7 = ''can7_ins0ch7''"
definition CAN_IPC_INS0_CAN8_CHAN2 :: string where "CAN_IPC_INS0_CAN8_CHAN2 = ''can8_ins0ch2''"
definition CAN_IPC_INS0_CAN9_CHAN3 :: string where "CAN_IPC_INS0_CAN9_CHAN3 = ''can9_ins0ch3''"

lemmas channel_names = CAN_IPC_INS0_CAN5_CHAN4_def CAN_IPC_INS0_CAN6_CHAN6_def
  CAN_IPC_INS0_CAN7_CHAN7_def CAN_IPC_INS0_CAN8_CHAN2_def CAN_IPC_INS0_CAN9_CHAN3_def

record CAN_IPC_CONFIG_T =
  can_port_instance :: string
  can_dev_port :: CAN_DEV_PORT_E

definition default_CAN_IPC_CONFIG_T :: CAN_IPC_CONFIG_T where
  "default_CAN_IPC_CONFIG_T =
     \<lparr>can_port_instance = CAN_IPC_INS0_CAN5_CHAN4, can_dev_port = CAN_DEV_PORT_5\<rparr>"

record can_port_target_t =
  target_instance :: string
  can_port_index :: int

text \<open>
  The instance name is copied with \<open>strcpy\<close> into an array of 16 characters, the terminator
  included.
\<close>

definition make_target :: "CAN_IPC_CONFIG_T \<Rightarrow> can_port_target_t res" where
  "make_target c =
     (if length (can_port_instance c) < 16
      then Inr \<lparr>target_instance = can_port_instance c,
                can_port_index = uint (dev_port_u8 (can_dev_port c))\<rparr>
      else Inl Buffer_Overflow)"

end
