(* ===== verification/Wire.thy ===== *)
theory Wire
  imports Can_Types
begin

unbundle bit_operations_syntax

text \<open>
  The package on the socket. A client and the service exchange the memory image of
  \<open>SOCKET_PACKAGE_T\<close>: 224 bytes, little endian, laid out by the structure declarations of
  \<^verbatim>\<open>can_struct_define.h\<close> under the ABI of the target (an \<open>int\<close> of four bytes aligned to
  four; the payload union of \<open>can_frame_t\<close> aligned to four, so two bytes of padding precede it).

  Also here: \<open>IPC_SOCKET_CONTROLLER::read_full\<close>, which collects the bytes of one package from
  the results of successive \<open>read\<close> calls.
\<close>

section \<open>Little endian words\<close>

definition le32 :: "u32 \<Rightarrow> u8 list" where
  "le32 w = [ucast w, ucast (drop_bit 8 w), ucast (drop_bit 16 w), ucast (drop_bit 24 w)]"

fun of_le32 :: "u8 list \<Rightarrow> u32" where
  "of_le32 [a, b, c, d] =
     ucast a OR push_bit 8 (ucast b) OR push_bit 16 (ucast c) OR push_bit 24 (ucast d)"
| "of_le32 _ = 0"

lemma length_le32 [simp]: "length (le32 w) = 4"
  by (simp add: le32_def)

lemma of_le32_le32 [simp]: "of_le32 (le32 w) = w"
proof (rule bit_word_eqI)
  fix n
  assume "n < LENGTH(32)"
  then consider "n < 8" | "8 \<le> n" "n < 16" | "16 \<le> n" "n < 24" | "24 \<le> n" "n < 32"
    by fastforce
  then show "bit (of_le32 (le32 w)) n = bit w n"
    by cases (auto simp: le32_def bit_simps)
qed

lemma le32_zero [simp]: "le32 0 = [0, 0, 0, 0]"
  by (simp add: le32_def)

definition field32 :: "nat \<Rightarrow> u8 list \<Rightarrow> u32" where
  "field32 off bs = of_le32 (take 4 (drop off bs))"

section \<open>Encoding and decoding a package\<close>

definition sizeof_package :: nat where
  "sizeof_package = 224"

definition encode_frame :: "can_frame_t \<Rightarrow> u8 list" where
  "encode_frame f =
     le32 (frame_id f) @ [frame_dlc f, frame_flags f, 0, 0] @ frame_data f"

definition encode_package :: "SOCKET_PACKAGE_T \<Rightarrow> u8 list" where
  "encode_package p =
     le32 (socket_magic_code p) @ le32 (order_raw (socket_order p)) @
     le32 (can_port_raw (pkg_can_port p)) @ encode_frame (pkg_can_frame p) @
     concat (map le32 (can_filter_id p)) @ le32 (can_filter_cnt p) @
     le32 (ack_raw (socket_ack p)) @ le32 (order_raw (socket_ack_for_order p))"

definition decode_frame :: "u8 list \<Rightarrow> can_frame_t" where
  "decode_frame bs =
     \<lparr>frame_id = field32 0 bs, frame_dlc = bs ! 4, frame_flags = bs ! 5,
      frame_data = take 64 (drop 8 bs)\<rparr>"

definition decode_package :: "u8 list \<Rightarrow> SOCKET_PACKAGE_T" where
  "decode_package bs =
     \<lparr>socket_magic_code = field32 0 bs,
      socket_order = order_of_raw (field32 4 bs),
      pkg_can_port = can_port_of_raw (field32 8 bs),
      pkg_can_frame = decode_frame (drop 12 bs),
      can_filter_id = map (\<lambda>i. field32 (84 + 4 * i) bs) [0..<32],
      can_filter_cnt = field32 212 bs,
      socket_ack = ack_of_raw (field32 216 bs),
      socket_ack_for_order = order_of_raw (field32 220 bs)\<rparr>"

lemma field32_head: "field32 0 (le32 w @ ys) = w"
  by (simp add: field32_def)

lemma field32_skip: "length xs \<le> off \<Longrightarrow> field32 off (xs @ ys) = field32 (off - length xs) ys"
  by (simp add: field32_def)

lemma field32_array:
  "i < length ws \<Longrightarrow> field32 (4 * i) (concat (map le32 ws) @ ys) = ws ! i"
proof (induction ws arbitrary: i)
  case Nil
  then show ?case by simp
next
  case (Cons w ws)
  then show ?case
    by (cases i) (simp_all add: field32_head field32_skip)
qed

lemma length_concat_le32 [simp]: "length (concat (map le32 ws)) = 4 * length ws"
  by (induction ws) simp_all

lemma length_encode_frame: "wf_frame f \<Longrightarrow> length (encode_frame f) = 72"
  by (simp add: encode_frame_def wf_frame_def CANFD_MAX_DLEN_def)

lemma length_encode_package:
  "wf_package p \<Longrightarrow> length (encode_package p) = sizeof_package"
  by (simp add: encode_package_def wf_package_def length_encode_frame sizeof_package_def)

lemma decode_encode_frame:
  "wf_frame f \<Longrightarrow> decode_frame (encode_frame f @ ys) = f"
  by (simp add: decode_frame_def encode_frame_def field32_head nth_append wf_frame_def
      CANFD_MAX_DLEN_def)

lemma decode_encode:
  assumes wf: "wf_package p"
  shows "decode_package (encode_package p) = p"
proof -
  let ?f = "encode_frame (pkg_can_frame p)" and ?ids = "concat (map le32 (can_filter_id p))"
  have len: "length ?f = 72" "length ?ids = 128" "length (can_filter_id p) = 32"
    using wf by (simp_all add: wf_package_def length_encode_frame)
  have ids: "map (\<lambda>i. field32 (84 + 4 * i) (encode_package p)) [0..<32] = can_filter_id p"
    using len
    by (intro nth_equalityI)
      (simp_all add: encode_package_def field32_skip field32_array)
  have frame: "decode_frame (drop 12 (encode_package p)) = pkg_can_frame p"
    using wf by (simp add: encode_package_def wf_package_def decode_encode_frame)
  show ?thesis
    unfolding decode_package_def ids frame using wf len
    by (simp add: encode_package_def field32_skip field32_head wf_package_def
        canonical_order_def canonical_port_def canonical_ack_def)
       (simp add: field32_def)
qed

text \<open>
  C33. Every package of a client is understood as it was meant: decoding the 224 bytes of an encoded
  package gives the package, field for field.
\<close>

theorem decode_encode_package:
  assumes wf: "wf_package p"
  shows "decode_package (encode_package p) = p"
  using wf by (rule decode_encode)

theorem decode_encode_package_witness:
  "wf_package zero_package \<and> decode_package (encode_package zero_package) = zero_package"
  using decode_encode_package [of zero_package] by simp

section \<open>Collecting a package from the socket\<close>

text \<open>
  What one call of \<open>read\<close> on the client socket gives: the bytes of a message (no bytes: the peer
  has closed the connection or sent an empty message), an interruption by a signal, or another
  error. The kernel hands over at most as many bytes as asked for and drops the rest of the message.
\<close>

datatype read_event = Read_Bytes "u8 list" | Read_Interrupted | Read_Failed

text \<open>
  The outcome of \<open>read_full\<close>: its return value, the bytes written to the buffer and the events
  not consumed; or that it still waits in \<open>read\<close> when all events are consumed.
\<close>

datatype read_outcome = Read_Done int "u8 list" "read_event list" | Read_Waiting

fun read_full_loop :: "nat \<Rightarrow> u8 list \<Rightarrow> read_event list \<Rightarrow> read_outcome" where
  "read_full_loop n buf [] =
     (if length buf < n then Read_Waiting else Read_Done (int (length buf)) buf [])"
| "read_full_loop n buf (e # es) =
     (if length buf < n then
        (case e of
           Read_Interrupted \<Rightarrow> read_full_loop n buf es
         | Read_Failed \<Rightarrow> Read_Done (- 1) buf es
         | Read_Bytes bs \<Rightarrow>
             (let got = take (n - length buf) bs in
              if got = [] then Read_Done (int (length buf)) buf es
              else read_full_loop n (buf @ got) es))
      else Read_Done (int (length buf)) buf (e # es))"

definition read_full :: "nat \<Rightarrow> read_event list \<Rightarrow> read_outcome" where
  "read_full n es = read_full_loop n [] es"

text \<open>The bytes that a list of events carries.\<close>

fun event_bytes :: "read_event list \<Rightarrow> u8 list" where
  "event_bytes [] = []"
| "event_bytes (Read_Bytes bs # es) = bs @ event_bytes es"
| "event_bytes (_ # es) = event_bytes es"

definition ends_with_data :: "read_event list \<Rightarrow> bool" where
  "ends_with_data es \<longleftrightarrow> es \<noteq> [] \<and> (case last es of Read_Bytes _ \<Rightarrow> True | _ \<Rightarrow> False)"

lemma read_full_loop_collects:
  assumes "Read_Failed \<notin> set es" and "Read_Bytes [] \<notin> set es"
    and "length buf + length (event_bytes es) = n" and "es = [] \<or> ends_with_data es"
  shows "read_full_loop n buf (es @ rest) = Read_Done (int n) (buf @ event_bytes es) rest"
  using assms
proof (induction es arbitrary: buf)
  case Nil
  then show ?case by (cases rest) simp_all
next
  case (Cons e es)
  have tail: "es = [] \<or> ends_with_data es"
    using Cons.prems(4) by (auto simp: ends_with_data_def)
  show ?case
  proof (cases e)
    case (Read_Bytes bs)
    then have "bs \<noteq> []" and "length buf < n"
      using Cons.prems(2,3) by (cases bs; force)+
    with Read_Bytes Cons.prems tail Cons.IH [of "buf @ bs"] show ?thesis by simp
  next
    case Read_Interrupted
    have "ends_with_data es"
      using Cons.prems(4) Read_Interrupted tail
      by (auto simp: ends_with_data_def split: if_splits)
    then have "event_bytes es \<noteq> []"
      using Cons.prems(2)
      by (induction es rule: event_bytes.induct)
        (auto simp: ends_with_data_def split: if_splits)
    with Read_Interrupted Cons.prems tail Cons.IH [of buf] show ?thesis
      by (cases "event_bytes es") auto
  next
    case Read_Failed
    with Cons.prems(1) show ?thesis by simp
  qed
qed

text \<open>
  \<open>read_full\<close> reassembles a package: whatever the sizes of the (non-empty) messages it arrives
  in and wherever signals interrupt the calls, it returns the number of bytes asked for, with
  exactly the bytes sent in the buffer, and leaves what follows unread.
\<close>

theorem read_full_reassembles:
  assumes "Read_Failed \<notin> set es" and "Read_Bytes [] \<notin> set es"
    and "length (event_bytes es) = n" and "ends_with_data es"
  shows "read_full n (es @ rest) = Read_Done (int n) (event_bytes es) rest"
  using read_full_loop_collects [of es "[]" n rest] assms by (simp add: read_full_def)

theorem read_full_reassembles_witness:
  "read_full 3 ([Read_Bytes [1], Read_Interrupted, Read_Bytes [2, 3]] @ [Read_Failed]) =
     Read_Done 3 [1, 2, 3] [Read_Failed]"
  using read_full_reassembles
    [of "[Read_Bytes [1], Read_Interrupted, Read_Bytes [2, 3]]" 3 "[Read_Failed]"]
  by (simp add: ends_with_data_def)

lemma read_full_loop_result:
  assumes "read_full_loop n buf es = Read_Done r bs rest" and "length buf \<le> n"
  shows "(r = - 1 \<or> r = int (length bs)) \<and> length bs \<le> n \<and> length rest \<le> length es"
  using assms
proof (induction es arbitrary: buf)
  case Nil
  then show ?case by (simp split: if_splits)
next
  case (Cons e es)
  then show ?case
    by (fastforce simp: Let_def split: if_splits read_event.splits)
qed

lemma read_full_loop_partial:
  assumes "Read_Failed \<notin> set es" and "Read_Bytes [] \<notin> set es"
    and "length buf + length (event_bytes es) < n"
  shows "read_full_loop n buf (es @ Read_Bytes [] # rest) =
    Read_Done (int (length buf + length (event_bytes es))) (buf @ event_bytes es) rest"
  using assms
proof (induction es arbitrary: buf)
  case Nil
  then show ?case by simp
next
  case (Cons e es)
  then show ?case by (cases e) auto
qed

text \<open>
  A connection that is closed in the middle of a package is reported by \<open>read_full\<close> with the
  number of bytes received so far, not as an error: the caller has to compare it with the size
  asked for.
\<close>

theorem read_full_partial:
  assumes "Read_Failed \<notin> set es" and "Read_Bytes [] \<notin> set es"
    and "length (event_bytes es) < n"
  shows "read_full n (es @ Read_Bytes [] # rest) =
    Read_Done (int (length (event_bytes es))) (event_bytes es) rest"
  using read_full_loop_partial [of es "[]" n rest] assms by (simp add: read_full_def)

theorem read_full_partial_witness:
  "read_full 224 ([Read_Bytes [1, 2]] @ Read_Bytes [] # []) = Read_Done 2 [1, 2] []"
  using read_full_partial [of "[Read_Bytes [1, 2]]" 224 "[]"] by simp

end
