(* ===== verification/Client_Manager.thy ===== *)
theory Client_Manager
  imports Can_Types
begin

text \<open>
  The client manager of \<^verbatim>\<open>src/core/ipc_socket_controller.cpp\<close>: which client (a socket
  descriptor) has subscribed to which identifiers, and the reverse index from identifiers to
  clients that the receive callback looks up.

  The abstract view is the subscription relation; the operations refine set operations on it. The
  reverse index is rebuilt by iterating over a hash map, in an order the standard leaves open, so its
  contents are shown not to depend on that order.
\<close>

section \<open>The two indices\<close>

record CAN_IPC_SOCKET_CLIENT_MANAGER_T =
  socket_client_index :: "(int \<times> u32 list) list"
  socket_client_reverse_index :: "(u32 \<times> int list) list"

definition init_socket_client_manager ::
  "CAN_IPC_SOCKET_CLIENT_MANAGER_T \<Rightarrow> CAN_IPC_SOCKET_CLIENT_MANAGER_T" where
  "init_socket_client_manager m =
     m\<lparr>socket_client_index := [], socket_client_reverse_index := []\<rparr>"

text \<open>The nested loops of \<open>update_socket_client_reserve_index\<close>.\<close>

fun add_can_ids :: "int \<Rightarrow> u32 list \<Rightarrow> (u32 \<times> int list) list \<Rightarrow> (u32 \<times> int list) list" where
  "add_can_ids client [] rev_index = rev_index"
| "add_can_ids client (i # is) rev_index =
     add_can_ids client is (umap_put i (oset_insert client (umap_at rev_index i)) rev_index)"

fun add_clients ::
  "(int \<times> u32 list) list \<Rightarrow> (u32 \<times> int list) list \<Rightarrow> (u32 \<times> int list) list" where
  "add_clients [] rev_index = rev_index"
| "add_clients ((client, can_ids) # entries) rev_index =
     add_clients entries (add_can_ids client can_ids rev_index)"

definition update_socket_client_reserve_index ::
  "CAN_IPC_SOCKET_CLIENT_MANAGER_T \<Rightarrow> CAN_IPC_SOCKET_CLIENT_MANAGER_T" where
  "update_socket_client_reserve_index m =
     m\<lparr>socket_client_reverse_index := add_clients (socket_client_index m) []\<rparr>"

definition clean_socket_client_index ::
  "int \<Rightarrow> CAN_IPC_SOCKET_CLIENT_MANAGER_T \<Rightarrow> CAN_IPC_SOCKET_CLIENT_MANAGER_T" where
  "clean_socket_client_index client_index m =
     m\<lparr>socket_client_index := umap_erase client_index (socket_client_index m)\<rparr>"

text \<open>Reading the identifiers of a filter through its pointer.\<close>

definition filter_ids :: "can_filter_t \<Rightarrow> u32 list res" where
  "filter_ids can_filter =
     (case flt_id can_filter of
        None \<Rightarrow> (if flt_id_cnt can_filter = 0 then Inr [] else Inl Null_Pointer)
      | Some ids \<Rightarrow> read_prefix ids (unat (flt_id_cnt can_filter)))"

text \<open>
  The two operations behind the reading of the identifiers. The check for a null manager in the
  source never fires, because the manager is a static object.
\<close>

definition manager_add ::
  "int \<Rightarrow> u32 list \<Rightarrow> CAN_IPC_SOCKET_CLIENT_MANAGER_T \<Rightarrow> CAN_IPC_SOCKET_CLIENT_MANAGER_T" where
  "manager_add client_index ids m =
     update_socket_client_reserve_index
       (m\<lparr>socket_client_index :=
            umap_put client_index
              (fold oset_insert ids (umap_at (socket_client_index m) client_index))
              (socket_client_index m)\<rparr>)"

definition client_manager_register ::
  "can_filter_t \<Rightarrow> int \<Rightarrow> CAN_IPC_SOCKET_CLIENT_MANAGER_T \<Rightarrow>
     CAN_IPC_SOCKET_CLIENT_MANAGER_T res" where
  "client_manager_register can_filter client_index m =
     res_bind (filter_ids can_filter) (\<lambda>ids. Inr (manager_add client_index ids m))"

definition manager_remove ::
  "int \<Rightarrow> u32 list \<Rightarrow> CAN_IPC_SOCKET_CLIENT_MANAGER_T \<Rightarrow> CAN_IPC_SOCKET_CLIENT_MANAGER_T" where
  "manager_remove client_index ids m =
     (let can_id_set = fold oset_erase ids (umap_at (socket_client_index m) client_index);
          m1 = m\<lparr>socket_client_index :=
                   umap_put client_index can_id_set (socket_client_index m)\<rparr>;
          m2 = (if can_id_set = [] then clean_socket_client_index client_index m1 else m1)
      in update_socket_client_reserve_index m2)"

definition client_manager_deregister ::
  "can_filter_t \<Rightarrow> int \<Rightarrow> CAN_IPC_SOCKET_CLIENT_MANAGER_T \<Rightarrow>
     CAN_IPC_SOCKET_CLIENT_MANAGER_T res" where
  "client_manager_deregister can_filter client_index m =
     (if map_of (socket_client_index m) client_index = None then Inr m
      else res_bind (filter_ids can_filter) (\<lambda>ids. Inr (manager_remove client_index ids m)))"

section \<open>The subscription relation\<close>

definition subscribed :: "CAN_IPC_SOCKET_CLIENT_MANAGER_T \<Rightarrow> (int \<times> u32) set" where
  "subscribed m = {(c, i). i \<in> set (umap_at (socket_client_index m) c)}"

text \<open>The clients to which the receive callback writes a frame with this identifier.\<close>

definition receivers :: "CAN_IPC_SOCKET_CLIENT_MANAGER_T \<Rightarrow> u32 \<Rightarrow> int list" where
  "receivers m i = umap_at (socket_client_reverse_index m) i"

definition wf_index :: "(int \<times> u32 list) list \<Rightarrow> bool" where
  "wf_index idx \<longleftrightarrow> distinct (map fst idx) \<and> (\<forall>(c, ids) \<in> set idx. oset ids)"

definition reverse_ok :: "CAN_IPC_SOCKET_CLIENT_MANAGER_T \<Rightarrow> bool" where
  "reverse_ok m \<longleftrightarrow>
     (\<forall>i. oset (receivers m i) \<and> set (receivers m i) = {c. (c, i) \<in> subscribed m})"

lemma umap_at_laws [container_simps, simp]:
  "umap_at (umap_put k v m) j = (if j = k then v else umap_at m j)"
  "umap_at (umap_erase k m) j = (if j = k then [] else umap_at m j)"
  "umap_at [] j = []"
  by (auto simp: umap_at_def umap_laws)

lemma wf_index_at: "wf_index idx \<Longrightarrow> oset (umap_at idx c)"
  by (auto simp: wf_index_def umap_at_def dest: map_of_SomeD split: option.split)

lemma wf_index_entry:
  "wf_index idx \<Longrightarrow> (\<exists>ids. (c, ids) \<in> set idx \<and> i \<in> set ids) \<longleftrightarrow> i \<in> set (umap_at idx c)"
  by (auto simp: wf_index_def umap_at_def map_of_eq_None_iff dest: map_of_SomeD split: option.splits)

lemma set_umap_put: "set (umap_put k v m) \<subseteq> insert (k, v) (set m)"
  unfolding umap_put_def by (induction m) auto

lemma wf_index_put: "wf_index idx \<Longrightarrow> oset ids \<Longrightarrow> wf_index (umap_put c ids idx)"
  using set_umap_put [of c ids idx] by (auto simp: wf_index_def distinct_umap_put)

lemma wf_index_erase: "wf_index idx \<Longrightarrow> wf_index (umap_erase c idx)"
  by (auto simp: wf_index_def distinct_umap_erase) (auto simp: umap_erase_def AList.delete_eq)

lemma wf_index_Nil [simp]: "wf_index []"
  by (simp add: wf_index_def)

section \<open>The reverse index\<close>

lemma add_can_ids_at:
  "\<forall>i. oset (umap_at rv i) \<Longrightarrow>
     oset (umap_at (add_can_ids c is rv) i) \<and>
     set (umap_at (add_can_ids c is rv) i) = set (umap_at rv i) \<union> {c' . c' = c \<and> i \<in> set is}"
proof (induction "is" arbitrary: rv)
  case Nil
  then show ?case by simp
next
  case (Cons j js)
  then have "\<forall>i. oset (umap_at (umap_put j (oset_insert c (umap_at rv j)) rv) i)"
    by (simp add: oset_laws)
  from Cons.IH [OF this] Cons.prems show ?case by (auto simp: oset_laws)
qed

lemma add_clients_at:
  "\<forall>i. oset (umap_at rv i) \<Longrightarrow>
     oset (umap_at (add_clients idx rv) i) \<and>
     set (umap_at (add_clients idx rv) i) =
       set (umap_at rv i) \<union> {c. \<exists>ids. (c, ids) \<in> set idx \<and> i \<in> set ids}"
proof (induction idx arbitrary: rv)
  case Nil
  then show ?case by simp
next
  case (Cons e idx)
  obtain c ids where e: "e = (c, ids)" by (cases e)
  have "\<forall>i. oset (umap_at (add_can_ids c ids rv) i)"
    using add_can_ids_at [OF Cons.prems] by blast
  from Cons.IH [OF this] add_can_ids_at [OF Cons.prems] show ?case by (auto simp: e)
qed

lemma receivers_update:
  "oset (receivers (update_socket_client_reserve_index m) i)"
  "set (receivers (update_socket_client_reserve_index m) i) =
     {c. \<exists>ids. (c, ids) \<in> set (socket_client_index m) \<and> i \<in> set ids}"
  using add_clients_at [of "[]" "socket_client_index m"]
  by (simp_all add: receivers_def update_socket_client_reserve_index_def)

lemma index_update [simp]:
  "socket_client_index (update_socket_client_reserve_index m) = socket_client_index m"
  "subscribed (update_socket_client_reserve_index m) = subscribed m"
  by (simp_all add: update_socket_client_reserve_index_def subscribed_def)

lemma reverse_ok_update:
  "wf_index (socket_client_index m) \<Longrightarrow> reverse_ok (update_socket_client_reserve_index m)"
  unfolding reverse_ok_def by (simp add: receivers_update subscribed_def wf_index_entry)

section \<open>The operations on the subscription relation\<close>

text \<open>
  What the handler of a client expects of the manager: adding, removing and dropping change the
  subscriptions of that client only, and as sets.
\<close>

locale subscription_manager =
  fixes wf :: "'m \<Rightarrow> bool"
    and add :: "'c \<Rightarrow> 'i list \<Rightarrow> 'm \<Rightarrow> 'm"
    and rm :: "'c \<Rightarrow> 'i list \<Rightarrow> 'm \<Rightarrow> 'm"
    and hangup :: "'c \<Rightarrow> 'm \<Rightarrow> 'm"
    and subs :: "'m \<Rightarrow> ('c \<times> 'i) set"
  assumes wf_add: "wf m \<Longrightarrow> wf (add c ids m)"
    and wf_rm: "wf m \<Longrightarrow> wf (rm c ids m)"
    and wf_hangup: "wf m \<Longrightarrow> wf (hangup c m)"
    and subs_add: "wf m \<Longrightarrow> subs (add c ids m) = subs m \<union> {c} \<times> set ids"
    and subs_rm: "wf m \<Longrightarrow> subs (rm c ids m) = subs m - {c} \<times> set ids"
    and subs_hangup: "wf m \<Longrightarrow> subs (hangup c m) = subs m - {c} \<times> UNIV"
begin

lemma rm_undoes_add:
  "wf m \<Longrightarrow> subs m \<inter> {c} \<times> set ids = {} \<Longrightarrow> subs (rm c ids (add c ids m)) = subs m"
  by (simp add: subs_rm subs_add wf_add) blast

lemma other_client_unchanged:
  assumes "wf m" and "c' \<noteq> c"
  shows "(c', i) \<in> subs (add c ids m) \<longleftrightarrow> (c', i) \<in> subs m"
    and "(c', i) \<in> subs (rm c ids m) \<longleftrightarrow> (c', i) \<in> subs m"
    and "(c', i) \<in> subs (hangup c m) \<longleftrightarrow> (c', i) \<in> subs m"
  using assms by (simp_all add: subs_add subs_rm subs_hangup)

end

lemma in_subscribed: "(c, i) \<in> subscribed m \<longleftrightarrow> i \<in> set (umap_at (socket_client_index m) c)"
  by (simp add: subscribed_def)

lemma subscribed_put:
  "subscribed (m\<lparr>socket_client_index := umap_put c ids (socket_client_index m)\<rparr>) =
     {p \<in> subscribed m. fst p \<noteq> c} \<union> {c} \<times> set ids"
  by (auto simp: in_subscribed split: if_splits)

lemma subscribed_clean:
  "subscribed (clean_socket_client_index c m) = subscribed m - {c} \<times> UNIV"
  by (auto simp: in_subscribed clean_socket_client_index_def split: if_splits)

lemma subscribed_manager_add:
  assumes "wf_index (socket_client_index m)"
  shows "wf_index (socket_client_index (manager_add c ids m)) \<and>
    subscribed (manager_add c ids m) = subscribed m \<union> {c} \<times> set ids"
proof -
  let ?ids = "fold oset_insert ids (umap_at (socket_client_index m) c)"
  have ids: "oset ?ids" "set ?ids = set (umap_at (socket_client_index m) c) \<union> set ids"
    using os.fold_ins [OF wf_index_at [OF assms], of ids c] by simp_all
  have "{p \<in> subscribed m. fst p \<noteq> c} \<union> {c} \<times> set ?ids = subscribed m \<union> {c} \<times> set ids"
    unfolding ids(2) by (auto simp: in_subscribed)
  with ids(1) assms show ?thesis by (simp add: manager_add_def subscribed_put wf_index_put)
qed

lemma subscribed_manager_remove:
  assumes "wf_index (socket_client_index m)"
  shows "wf_index (socket_client_index (manager_remove c ids m)) \<and>
    subscribed (manager_remove c ids m) = subscribed m - {c} \<times> set ids"
proof -
  let ?ids = "fold oset_erase ids (umap_at (socket_client_index m) c)"
  let ?m = "m\<lparr>socket_client_index := umap_put c ?ids (socket_client_index m)\<rparr>"
  note fd = os.fold_del [OF wf_index_at [OF assms], of ids c]
  have ids: "oset ?ids" "set ?ids = set (umap_at (socket_client_index m) c) - set ids"
    by (rule conjunct1 [OF fd], rule conjunct2 [OF fd])
  have "{p \<in> subscribed m. fst p \<noteq> c} \<union> {c} \<times> set ?ids = subscribed m - {c} \<times> set ids"
    unfolding ids(2) by (auto simp: in_subscribed)
  then have sub: "subscribed ?m = subscribed m - {c} \<times> set ids"
    by (simp add: subscribed_put)
  have wf: "wf_index (socket_client_index ?m)"
    using ids(1) assms by (simp add: wf_index_put)
  then have wf': "wf_index (socket_client_index (clean_socket_client_index c ?m))"
    by (simp add: clean_socket_client_index_def wf_index_erase)
  have "(c, i) \<notin> subscribed ?m" if "?ids = []" for i
    using that by (simp add: in_subscribed)
  then have "?ids = [] \<Longrightarrow> subscribed (clean_socket_client_index c ?m) = subscribed ?m"
    by (auto simp: subscribed_clean)
  with wf wf' sub show ?thesis unfolding manager_remove_def Let_def by auto
qed

interpretation cm: subscription_manager "\<lambda>m. wf_index (socket_client_index m)"
  manager_add manager_remove clean_socket_client_index subscribed
proof unfold_locales
  show "wf_index (socket_client_index (clean_socket_client_index c m))"
    if "wf_index (socket_client_index m)" for c m
    using that by (simp add: clean_socket_client_index_def wf_index_erase)
qed (use subscribed_manager_add subscribed_manager_remove subscribed_clean in blast)+

lemma reverse_ok_operations:
  assumes "wf_index (socket_client_index m)"
  shows "reverse_ok (manager_add c ids m)" and "reverse_ok (manager_remove c ids m)"
  using cm.wf_add [OF assms] cm.wf_rm [OF assms] unfolding manager_add_def manager_remove_def
  by (simp_all add: Let_def reverse_ok_update)

lemma set_receivers: "reverse_ok m \<Longrightarrow> set (receivers m i) = {c. (c, i) \<in> subscribed m}"
  by (simp add: reverse_ok_def)

section \<open>Properties\<close>



text \<open>
  The reverse index does not depend on the order in which the hash map is iterated over: two
  orders of the same entries give every identifier the same clients in the same order.
\<close>

theorem rebuild_order_independent:
  assumes "mset idx = mset idx'"
  shows "umap_at (add_clients idx []) i = umap_at (add_clients idx' []) i"
proof (rule oset_unique)
  show "set (umap_at (add_clients idx []) i) = set (umap_at (add_clients idx' []) i)"
    using add_clients_at [of "[]"] mset_eq_setD [OF assms] by simp
qed (use add_clients_at [of "[]"] in simp_all)

theorem rebuild_order_independent_witness:
  "umap_at (add_clients [(7, [1, 2]), (4, [2])] []) 2 =
   umap_at (add_clients [(4, [2]), (7, [1, 2])] []) 2"
  by (rule rebuild_order_independent) simp

text \<open>The three ways in which a client changes its subscriptions, as a sequence of operations.\<close>

datatype manager_op = Add_Ids int "u32 list" | Remove_Ids int "u32 list" | Hang_Up int

fun run_manager_op ::
  "manager_op \<Rightarrow> CAN_IPC_SOCKET_CLIENT_MANAGER_T \<Rightarrow> CAN_IPC_SOCKET_CLIENT_MANAGER_T" where
  "run_manager_op (Add_Ids c ids) m = manager_add c ids m"
| "run_manager_op (Remove_Ids c ids) m = manager_remove c ids m"
| "run_manager_op (Hang_Up c) m = clean_socket_client_index c m"

fun ends_subscription :: "int \<Rightarrow> u32 \<Rightarrow> manager_op \<Rightarrow> bool" where
  "ends_subscription c i (Add_Ids _ _) \<longleftrightarrow> False"
| "ends_subscription c i (Remove_Ids d ids) \<longleftrightarrow> d = c \<and> i \<in> set ids"
| "ends_subscription c i (Hang_Up d) \<longleftrightarrow> d = c"

fun adds_subscription :: "int \<Rightarrow> u32 \<Rightarrow> manager_op \<Rightarrow> bool" where
  "adds_subscription c i (Add_Ids d ids) \<longleftrightarrow> d = c \<and> i \<in> set ids"
| "adds_subscription c i _ \<longleftrightarrow> False"

lemma run_manager_op_step:
  assumes "wf_index (socket_client_index m)"
  shows "wf_index (socket_client_index (run_manager_op x m)) \<and>
    ((c, i) \<in> subscribed (run_manager_op x m) \<longleftrightarrow>
      adds_subscription c i x \<or> (c, i) \<in> subscribed m \<and> \<not> ends_subscription c i x)"
  using assms
  by (cases x) (auto simp: cm.subs_add cm.subs_rm cm.subs_hangup cm.wf_add cm.wf_rm cm.wf_hangup)

lemma run_manager_ops:
  assumes "wf_index (socket_client_index m)"
  shows "wf_index (socket_client_index (fold run_manager_op ops m)) \<and>
    ((c, i) \<in> subscribed (fold run_manager_op ops m) \<longleftrightarrow>
      (c, i) \<in> subscribed m \<and> (\<forall>x \<in> set ops. \<not> ends_subscription c i x) \<or>
      (\<exists>us x vs. ops = us @ x # vs \<and> adds_subscription c i x \<and>
        (\<forall>y \<in> set vs. \<not> ends_subscription c i y)))"
    (is "_ \<and> (_ \<longleftrightarrow> _ \<or> ?added ops)")
  using assms
proof (induction ops arbitrary: m)
  case Nil
  then show ?case by simp
next
  case (Cons x ops)
  note step = run_manager_op_step [OF Cons.prems, of x c i]
  have "?added (x # ops) \<longleftrightarrow>
      adds_subscription c i x \<and> (\<forall>y \<in> set ops. \<not> ends_subscription c i y) \<or> ?added ops"
    by (simp add: Cons_eq_append_conv) blast
  with step Cons.IH [of "run_manager_op x m"] show ?case by auto
qed

text \<open>
  Whatever the history of all clients, a client is subscribed to an identifier exactly when
  some operation of its own added it and neither a later removal by the same client nor its
  disconnection ended it. Other clients have no influence.
\<close>

theorem subscribed_history:
  "(c, i) \<in> subscribed (fold run_manager_op ops (init_socket_client_manager m)) \<longleftrightarrow>
     (\<exists>us x vs. ops = us @ x # vs \<and> adds_subscription c i x \<and>
        list_all (\<lambda>y. \<not> ends_subscription c i y) vs)"
  using run_manager_ops [of "init_socket_client_manager m" ops c i]
  by (simp add: init_socket_client_manager_def subscribed_def list_all_iff)

text \<open>
  The disconnection of a client ends its subscriptions but does not rebuild the reverse index:
  until the next change of a filter it remains among the receivers of its identifiers (under a
  descriptor that the system may give to the next client), and the next change removes it.
\<close>

theorem disconnect_leaves_receiver:
  assumes "wf_index (socket_client_index m)" and "reverse_ok m"
    and "(c, i) \<in> subscribed m" and "d \<noteq> c"
  shows "(c, i) \<notin> subscribed (clean_socket_client_index c m) \<and>
    c \<in> set (receivers (clean_socket_client_index c m) i) \<and>
    c \<notin> set (receivers (manager_add d ids (clean_socket_client_index c m)) i)"
proof -
  let ?m = "clean_socket_client_index c m"
  have wf: "wf_index (socket_client_index ?m)" by (rule cm.wf_hangup [OF assms(1)])
  have "receivers ?m i = receivers m i"
    by (simp add: receivers_def clean_socket_client_index_def)
  then show ?thesis
    using assms set_receivers [OF reverse_ok_operations(1) [OF wf, of d ids], of i]
    by (simp add: set_receivers cm.subs_add [OF wf] subscribed_clean)
qed

theorem disconnect_leaves_receiver_witness:
  "7 \<in> set (receivers (clean_socket_client_index 7
     \<lparr>socket_client_index = [(7, [2])], socket_client_reverse_index = [(2, [7])]\<rparr>) 2)"
proof -
  let ?m = "\<lparr>socket_client_index = [(7, [2])], socket_client_reverse_index = [(2, [7])]\<rparr>"
  have "wf_index (socket_client_index ?m)" by (simp add: wf_index_def oset_def)
  moreover have "reverse_ok ?m"
    by (auto simp: reverse_ok_def subscribed_def receivers_def umap_at_def oset_def)
  moreover have "(7, 2) \<in> subscribed ?m" by (simp add: subscribed_def umap_at_def)
  ultimately show ?thesis using disconnect_leaves_receiver [of ?m 7 2 4 "[]"] by simp
qed

end
