(* ===== verification/Sender.thy ===== *)
theory Sender
  imports Wire
begin

unbundle bit_operations_syntax

text \<open>
  \<^verbatim>\<open>src/core/can_ipc_sender.cpp\<close>: sending a frame through the CAN hardware abstraction layer
  (HAL), and the interface of that layer, which is vendor code outside the repository.

  The interface is a record of functions on an arbitrary world \<open>'w\<close>; nothing is assumed of it
  here. Properties that need a documented behaviour of the HAL state it as a hypothesis.
\<close>

section \<open>The hardware abstraction layer\<close>

text \<open>
  \<open>struct canframe\<close> and \<open>struct pack_info\<close> with the fields the code names. Counts and lengths whose
  width the code does not reveal are natural numbers; \<open>canid\<close> and \<open>can_type\<close> initialise a
  \<open>uint32_t\<close> and a \<open>uint8_t\<close> inside braces, which excludes wider types.
\<close>

record canframe =
  time_stamp :: u64
  canid :: u32
  cf_count :: nat
  can_type :: u8
  can_channel :: u8
  cf_len :: nat
  cf_data :: "u8 list"

record pack_info =
  soc_ts :: u64
  data_num :: nat
  mcu_ts :: u64
  pk_length :: nat
  unused :: nat
  unused_1 :: nat

text \<open>
  The HAL functions, the sizes of its structures (\<open>sizeof(struct canframe)\<close> and of the \<open>data\<close>
  member), and the clocks and the allocator of the platform. \<open>canRecvMsgFrame\<close> fills the buffer and
  the package description it is given; its return value is not used by the code.
\<close>

record 'w hal =
  canInit :: "'w \<Rightarrow> int \<times> 'w"
  canDeInit :: "'w \<Rightarrow> 'w"
  canSendMsgFrame :: "string \<Rightarrow> canframe \<Rightarrow> pack_info \<Rightarrow> 'w \<Rightarrow> int \<times> 'w"
  canRecvMsgFrame ::
    "string \<Rightarrow> canframe list \<Rightarrow> pack_info \<Rightarrow> 'w \<Rightarrow> canframe list \<times> pack_info \<times> 'w"
  sizeof_canframe :: nat
  sizeof_data :: nat
  system_clock_ms :: "'w \<Rightarrow> u64 \<times> 'w"
  steady_clock_ms :: "'w \<Rightarrow> u64 \<times> 'w"
  malloc_succeeds :: "'w \<Rightarrow> bool"

definition zero_canframe :: "'w hal \<Rightarrow> canframe" where
  "zero_canframe h =
     \<lparr>time_stamp = 0, canid = 0, cf_count = 0, can_type = 0, can_channel = 0, cf_len = 0,
      cf_data = replicate (sizeof_data h) 0\<rparr>"

section \<open>Byte order\<close>

definition BSWAP_32 :: "u32 \<Rightarrow> u32" where
  "BSWAP_32 x =
     drop_bit 24 (x AND 0xff000000) OR drop_bit 8 (x AND 0x00ff0000) OR
     push_bit 8 (x AND 0x0000ff00) OR push_bit 24 (x AND 0x000000ff)"

lemma bit_mask_byte:
  "bit (0xff000000 :: u32) n \<longleftrightarrow> 24 \<le> n \<and> n < 32"
  "bit (0x00ff0000 :: u32) n \<longleftrightarrow> 16 \<le> n \<and> n < 24"
  "bit (0x0000ff00 :: u32) n \<longleftrightarrow> 8 \<le> n \<and> n < 16"
  "bit (0x000000ff :: u32) n \<longleftrightarrow> n < 8"
proof -
  have m: "(0xff000000 :: u32) = push_bit 24 (mask 8)" "(0x00ff0000 :: u32) = push_bit 16 (mask 8)"
    "(0x0000ff00 :: u32) = push_bit 8 (mask 8)" "(0x000000ff :: u32) = mask 8"
    by (simp_all add: mask_eq_exp_minus_1 push_bit_eq_mult)
  show "bit (0xff000000 :: u32) n \<longleftrightarrow> 24 \<le> n \<and> n < 32"
    "bit (0x00ff0000 :: u32) n \<longleftrightarrow> 16 \<le> n \<and> n < 24"
    "bit (0x0000ff00 :: u32) n \<longleftrightarrow> 8 \<le> n \<and> n < 16"
    "bit (0x000000ff :: u32) n \<longleftrightarrow> n < 8"
    unfolding m by (auto simp: bit_push_bit_iff bit_mask_iff)
qed

lemma bit_BSWAP_32:
  "bit (BSWAP_32 x) n \<longleftrightarrow>
     (n < 8 \<and> bit x (24 + n)) \<or> (8 \<le> n \<and> n < 16 \<and> bit x (8 + n)) \<or>
     (16 \<le> n \<and> n < 24 \<and> bit x (n - 8)) \<or> (24 \<le> n \<and> n < 32 \<and> bit x (n - 24))"
proof -
  have lt: "bit x k \<Longrightarrow> k < 32" for k
    using bit_imp_le_length [of x k] by simp
  show ?thesis
    unfolding BSWAP_32_def bit_or_iff bit_and_iff bit_push_bit_iff bit_drop_bit_eq o_def
      bit_mask_byte possible_bit_word
    using lt [of "24 + n"] lt [of "8 + n"] lt [of "n - 8"] lt [of "n - 24"] by auto
qed

text \<open>
  The macro \<open>BSWAP_32\<close> reverses the byte order: the memory image of the result is the memory
  image of the argument backwards.
\<close>

theorem BSWAP_32_reverses_bytes: "le32 (BSWAP_32 x) = rev (le32 x)"
proof -
  have "ucast (BSWAP_32 x) = (ucast (drop_bit 24 x) :: u8)"
    "ucast (drop_bit 8 (BSWAP_32 x)) = (ucast (drop_bit 16 x) :: u8)"
    "ucast (drop_bit 16 (BSWAP_32 x)) = (ucast (drop_bit 8 x) :: u8)"
    "ucast (drop_bit 24 (BSWAP_32 x)) = (ucast x :: u8)"
    by (rule bit_word_eqI; auto simp: bit_simps bit_BSWAP_32)+
  then show ?thesis by (simp add: le32_def)
qed

lemma BSWAP_32_involution [simp]: "BSWAP_32 (BSWAP_32 x) = x"
proof -
  have "le32 (BSWAP_32 (BSWAP_32 x)) = le32 x"
    unfolding le32_def
    by (intro list.inject [THEN iffD2] conjI refl;
      rule bit_word_eqI; auto simp: bit_simps bit_BSWAP_32)
  then show ?thesis by (metis of_le32_le32)
qed

section \<open>Sending\<close>

definition send_can_data ::
  "'w hal \<Rightarrow> CAN_IPC_CONFIG_T \<Rightarrow> can_frame_t \<Rightarrow> 'w \<Rightarrow> (int \<times> 'w) res" where
  "send_can_data h can_ipc_config frame w =
     res_bind (make_target can_ipc_config) (\<lambda>can_port_target.
       let pack = \<lparr>soc_ts = 0, data_num = 1, mcu_ts = 0, pk_length = 1, unused = 0, unused_1 = 0\<rparr>;
           (now, w) = system_clock_ms h w;
           tx_frame = \<lparr>time_stamp = now,
             canid = BSWAP_32 (frame_id frame),
             cf_count = 1,
             can_type = frame_flags frame,
             can_channel = dev_port_u8 (can_dev_port can_ipc_config),
             cf_len = unat (can_dlc_to_bytes (frame_dlc frame)),
             cf_data = replicate (sizeof_data h) 0\<rparr>
       in res_bind
            (memcpy (cf_data tx_frame) (frame_data frame)
               (unat (can_dlc_to_bytes (frame_dlc frame)))) (\<lambda>data.
            Inr (canSendMsgFrame h (target_instance can_port_target)
                   (tx_frame\<lparr>cf_data := data\<rparr>) pack w)))"

definition test_send_can_frame :: "'w hal \<Rightarrow> 'w \<Rightarrow> 'w res" where
  "test_send_can_frame h w =
     (let (now, w) = steady_clock_ms h w;
          bytes = [0x12, 0x34, 0x56, 0x78, 0x9A, 0xBC, 0xDE, 0xFF] @ replicate 56 0;
          frame = \<lparr>time_stamp = now, canid = BSWAP_32 0x82, cf_count = 100, can_type = 1,
                   can_channel = 5, cf_len = 8, cf_data = replicate (sizeof_data h) 0\<rparr>;
          pack = \<lparr>soc_ts = 0, data_num = 1, mcu_ts = 0, pk_length = 1, unused = 0, unused_1 = 0\<rparr>
      in res_bind (memcpy (cf_data frame) bytes (cf_len frame)) (\<lambda>data.
           Inr (snd (canSendMsgFrame h ''can5_ins0ch4'' (frame\<lparr>cf_data := data\<rparr>) pack w))))"

text \<open>The frame the HAL receives when \<open>frame\<close> is sent at time \<open>now\<close> on device port \<open>port\<close>.\<close>

definition tx_canframe :: "'w hal \<Rightarrow> u64 \<Rightarrow> CAN_DEV_PORT_E \<Rightarrow> can_frame_t \<Rightarrow> canframe" where
  "tx_canframe h now port frame =
     (let n = unat (can_dlc_to_bytes (frame_dlc frame)) in
      \<lparr>time_stamp = now, canid = BSWAP_32 (frame_id frame), cf_count = 1,
       can_type = frame_flags frame, can_channel = dev_port_u8 port, cf_len = n,
       cf_data = take n (frame_data frame) @ replicate (sizeof_data h - n) 0\<rparr>)"

text \<open>
  What sending does when the copy fits: exactly one call of the HAL, with one CAN frame. Whatever
  the length code, the copy is within bounds when the HAL's payload field holds the 64 bytes of a
  CAN FD frame.
\<close>

definition single_pack :: pack_info where
  "single_pack =
     \<lparr>soc_ts = 0, data_num = 1, mcu_ts = 0, pk_length = 1, unused = 0, unused_1 = 0\<rparr>"

lemma send_can_data_frame:
  assumes "length (can_port_instance c) < 16" and "wf_frame f" and "64 \<le> sizeof_data h"
  shows "send_can_data h c f w =
    Inr (canSendMsgFrame h (can_port_instance c)
          (tx_canframe h (fst (system_clock_ms h w)) (can_dev_port c) f) single_pack
          (snd (system_clock_ms h w)))"
proof -
  let ?n = "unat (can_dlc_to_bytes (frame_dlc f))"
  have "?n \<le> 64" by (rule can_dlc_to_bytes_le_64)
  with assms(3) have "?n \<le> sizeof_data h" by linarith
  with \<open>?n \<le> 64\<close> assms show ?thesis
    by (simp add: send_can_data_def make_target_def tx_canframe_def Let_def wf_frame_def
        CANFD_MAX_DLEN_def case_prod_unfold single_pack_def)
qed

text \<open>A HAL that records what is sent, for the witnesses.\<close>

definition recording_hal :: "(string \<times> canframe) list hal" where
  "recording_hal =
     \<lparr>canInit = (\<lambda>w. (0, w)), canDeInit = (\<lambda>w. w),
      canSendMsgFrame = (\<lambda>target f p w. (1, w @ [(target, f)])),
      canRecvMsgFrame = (\<lambda>target buf p w. (buf, p, w)),
      sizeof_canframe = 80, sizeof_data = 64,
      system_clock_ms = (\<lambda>w. (1000, w)), steady_clock_ms = (\<lambda>w. (1000, w)),
      malloc_succeeds = (\<lambda>w. True)\<rparr>"

text \<open>The same, with a bus on which the given frames have arrived.\<close>

definition replay_hal :: "canframe list \<Rightarrow> (string \<times> canframe) list hal" where
  "replay_hal fs = recording_hal\<lparr>canRecvMsgFrame := (\<lambda>target buf p w.
     (take (length buf) fs @ drop (length fs) buf,
      p\<lparr>data_num := min (length fs) (length buf)\<rparr>, w))\<rparr>"

end
