(* ===== verification/Filter_Table.thy ===== *)
theory Filter_Table
  imports Can_Types
begin

text \<open>
  The two hash tables that \<^verbatim>\<open>src/core/can_ipc_receiver.cpp\<close> keeps for each CAN port: how often
  every identifier is registered, and which filter (with its callback) is called for it. The loops
  of \<open>register_can_filter\<close> and \<open>deregister_can_filter\<close> over the identifiers of a filter, and the
  abstract view of a table: the multiset of the registered identifiers.
\<close>

section \<open>Filters and tables\<close>

text \<open>
  \<open>CAN_IPC_FILTER_T\<close>. The callback is a function pointer, \<open>None\<close> when null. The type \<open>'cb\<close> stands
  for the functions of the program that have the callback's signature.
\<close>

record 'cb CAN_IPC_FILTER_T =
  ipcf_filter_id :: "u32 list option"
  ipcf_filter_id_cnt :: u32
  ipcf_can_port :: CAN_DEV_PORT_E
  ipcf_callback :: "'cb option"

record 'cb CAN_IPC_RECEIVER_FILTER_T =
  rf_can_port :: CAN_DEV_PORT_E
  can_ipc_filter_id_map :: "u32 \<rightharpoonup> int"
  can_ipc_filter_map :: "u32 \<rightharpoonup> 'cb CAN_IPC_FILTER_T"

definition clear_hash_table :: "'cb CAN_IPC_RECEIVER_FILTER_T \<Rightarrow> 'cb CAN_IPC_RECEIVER_FILTER_T" where
  "clear_hash_table t =
     t\<lparr>can_ipc_filter_id_map := Map.empty, can_ipc_filter_map := Map.empty\<rparr>"

text \<open>\<open>emplace\<close> inserts when the key is missing and otherwise leaves the map as it is.\<close>

definition emplace :: "'k \<Rightarrow> 'v \<Rightarrow> ('k \<rightharpoonup> 'v) \<Rightarrow> bool \<times> ('k \<rightharpoonup> 'v)" where
  "emplace k v m = (case m k of None \<Rightarrow> (True, m(k \<mapsto> v)) | Some _ \<Rightarrow> (False, m))"

text \<open>The two loops of \<open>register_can_filter\<close>.\<close>

fun emplace_filters ::
  "'f \<Rightarrow> u32 list \<Rightarrow> (u32 \<rightharpoonup> 'f) \<Rightarrow> (u32 \<rightharpoonup> 'f)" where
  "emplace_filters f [] m = m"
| "emplace_filters f (i # is) m = emplace_filters f is (snd (emplace i f m))"

fun emplace_counts :: "u32 list \<Rightarrow> (u32 \<rightharpoonup> int) \<Rightarrow> (u32 \<rightharpoonup> int)" where
  "emplace_counts [] m = m"
| "emplace_counts (i # is) m =
     (case emplace i 1 m of
        (True, m') \<Rightarrow> emplace_counts is m'
      | (False, m') \<Rightarrow> emplace_counts is (m'(i \<mapsto> the (m' i) + 1)))"

definition table_register ::
  "'cb CAN_IPC_FILTER_T \<Rightarrow> u32 list \<Rightarrow> 'cb CAN_IPC_RECEIVER_FILTER_T \<Rightarrow>
     'cb CAN_IPC_RECEIVER_FILTER_T" where
  "table_register f ids t =
     t\<lparr>can_ipc_filter_map := emplace_filters f ids (can_ipc_filter_map t),
       can_ipc_filter_id_map := emplace_counts ids (can_ipc_filter_id_map t)\<rparr>"

text \<open>The body of the loop of \<open>deregister_can_filter\<close>, for one identifier, and the loop.\<close>

definition deregister_id ::
  "u32 \<Rightarrow> 'cb CAN_IPC_RECEIVER_FILTER_T \<Rightarrow> 'cb CAN_IPC_RECEIVER_FILTER_T" where
  "deregister_id i t =
     (let counts =
            (case can_ipc_filter_id_map t i of
               Some c \<Rightarrow> if c \<noteq> 0 then (can_ipc_filter_id_map t)(i \<mapsto> c - 1)
                         else can_ipc_filter_id_map t
             | None \<Rightarrow> can_ipc_filter_id_map t)
      in if counts i = Some 0
         then (case can_ipc_filter_map t i of
                 Some _ \<Rightarrow> t\<lparr>can_ipc_filter_map := (can_ipc_filter_map t)(i := None),
                            can_ipc_filter_id_map := counts(i := None)\<rparr>
               | None \<Rightarrow> t\<lparr>can_ipc_filter_id_map := counts\<rparr>)
         else t\<lparr>can_ipc_filter_id_map := counts\<rparr>)"

fun table_deregister ::
  "u32 list \<Rightarrow> 'cb CAN_IPC_RECEIVER_FILTER_T \<Rightarrow> 'cb CAN_IPC_RECEIVER_FILTER_T" where
  "table_deregister [] t = t"
| "table_deregister (i # is) t = table_deregister is (deregister_id i t)"

section \<open>Well-formed tables and the multiset they stand for\<close>

text \<open>
  Both tables hold the same identifiers, and a count that is held is positive. All identifiers are
  32 bit words, so the multiset of the registered identifiers is the counting function itself.
\<close>

definition wf_table :: "'cb CAN_IPC_RECEIVER_FILTER_T \<Rightarrow> bool" where
  "wf_table t \<longleftrightarrow>
     (\<forall>i. case can_ipc_filter_id_map t i of
            None \<Rightarrow> can_ipc_filter_map t i = None
          | Some c \<Rightarrow> 1 \<le> c \<and> can_ipc_filter_map t i \<noteq> None)"

definition id_count :: "'cb CAN_IPC_RECEIVER_FILTER_T \<Rightarrow> u32 \<Rightarrow> nat" where
  "id_count t i = (case can_ipc_filter_id_map t i of None \<Rightarrow> 0 | Some c \<Rightarrow> nat c)"

definition registered :: "'cb CAN_IPC_RECEIVER_FILTER_T \<Rightarrow> u32 multiset" where
  "registered t = Abs_multiset (id_count t)"

lemma count_registered [simp]: "count (registered t) i = id_count t i"
  unfolding registered_def by (subst Abs_multiset_inverse) auto

definition wf_entry :: "'cb CAN_IPC_RECEIVER_FILTER_T \<Rightarrow> u32 \<Rightarrow> bool" where
  "wf_entry t i \<longleftrightarrow>
     (case can_ipc_filter_id_map t i of
        None \<Rightarrow> can_ipc_filter_map t i = None
      | Some c \<Rightarrow> 1 \<le> c \<and> can_ipc_filter_map t i \<noteq> None)"

lemma wf_tableI: "(\<And>i. wf_entry t i) \<Longrightarrow> wf_table t"
  and wf_tableD: "wf_table t \<Longrightarrow> wf_entry t i"
  by (simp_all add: wf_table_def wf_entry_def)

lemma wf_table_cases:
  assumes "wf_table t"
  obtains "can_ipc_filter_id_map t i = None" "can_ipc_filter_map t i = None" "id_count t i = 0"
  | c f where "can_ipc_filter_id_map t i = Some c" "can_ipc_filter_map t i = Some f" "1 \<le> c"
      "id_count t i = nat c"
proof (cases "can_ipc_filter_id_map t i")
  case None
  with wf_tableD [OF assms, of i] that(1) show thesis by (simp add: wf_entry_def id_count_def)
next
  case (Some c)
  moreover from Some wf_tableD [OF assms, of i] obtain f
    where "can_ipc_filter_map t i = Some f" "1 \<le> c"
    by (auto simp: wf_entry_def)
  ultimately show thesis by (intro that(2)) (auto simp: id_count_def)
qed

lemma registered_iff:
  "wf_table t \<Longrightarrow> i \<in># registered t \<longleftrightarrow> can_ipc_filter_map t i \<noteq> None"
  by (erule wf_table_cases [of t i]) (auto simp: count_greater_zero_iff [symmetric]
      simp del: count_greater_zero_iff)

lemma wf_table_clear [simp]: "wf_table (clear_hash_table t)"
  by (simp add: wf_table_def clear_hash_table_def)

lemma registered_clear [simp]: "registered (clear_hash_table t) = {#}"
  by (rule multiset_eqI) (simp add: id_count_def clear_hash_table_def)

section \<open>Registering\<close>

lemma emplace_filters_apply:
  "emplace_filters f ids m i =
     (case m i of Some g \<Rightarrow> Some g | None \<Rightarrow> if i \<in> set ids then Some f else None)"
  by (induction ids arbitrary: m) (auto simp: emplace_def split: option.splits)

lemma emplace_counts_apply:
  "emplace_counts ids m i =
     (if i \<in> set ids
      then Some ((case m i of None \<Rightarrow> 0 | Some c \<Rightarrow> c) + int (count (mset ids) i))
      else m i)"
  by (induction ids arbitrary: m) (auto simp: emplace_def split: option.splits)

lemma table_register_apply [simp]:
  "can_ipc_filter_map (table_register f ids t) i =
     (case can_ipc_filter_map t i of
        Some g \<Rightarrow> Some g | None \<Rightarrow> if i \<in> set ids then Some f else None)"
  "can_ipc_filter_id_map (table_register f ids t) i =
     (if i \<in> set ids
      then Some ((case can_ipc_filter_id_map t i of None \<Rightarrow> 0 | Some c \<Rightarrow> c) +
        int (count (mset ids) i))
      else can_ipc_filter_id_map t i)"
  "rf_can_port (table_register f ids t) = rf_can_port t"
  by (simp_all add: table_register_def emplace_filters_apply emplace_counts_apply)

lemma wf_table_register:
  assumes "wf_table t"
  shows "wf_table (table_register f ids t)"
proof (rule wf_tableI)
  fix i
  have "i \<in> set ids \<Longrightarrow> 1 \<le> int (count (mset ids) i)"
    by (simp add: count_greater_eq_one_iff)
  then show "wf_entry (table_register f ids t) i"
    by (cases rule: wf_table_cases [OF assms, of i]) (auto simp: wf_entry_def)
qed

lemma registered_table_register:
  assumes "wf_table t"
  shows "registered (table_register f ids t) = registered t + mset ids"
proof (rule multiset_eqI)
  fix i
  from assms show "count (registered (table_register f ids t)) i = count (registered t + mset ids) i"
    by (cases rule: wf_table_cases [of t i])
      (auto simp: id_count_def nat_add_distrib count_mset_0_iff)
qed

section \<open>Deregistering\<close>

lemma deregister_id_absent:
  "can_ipc_filter_id_map t i = None \<Longrightarrow> deregister_id i t = t"
  by (simp add: deregister_id_def)

lemma deregister_id_last:
  "wf_table t \<Longrightarrow> can_ipc_filter_id_map t i = Some 1 \<Longrightarrow>
   deregister_id i t = t\<lparr>can_ipc_filter_map := (can_ipc_filter_map t)(i := None),
     can_ipc_filter_id_map := (can_ipc_filter_id_map t)(i := None)\<rparr>"
  by (erule wf_table_cases [of t i]) (simp_all add: deregister_id_def)

lemma deregister_id_more:
  "can_ipc_filter_id_map t i = Some c \<Longrightarrow> 1 < c \<Longrightarrow>
   deregister_id i t =
     t\<lparr>can_ipc_filter_id_map := (can_ipc_filter_id_map t)(i \<mapsto> c - 1)\<rparr>"
  by (simp add: deregister_id_def)

lemma deregister_id_cases:
  assumes "wf_table t"
  obtains "can_ipc_filter_id_map t i = None" "deregister_id i t = t"
  | "can_ipc_filter_id_map t i = Some 1"
      "deregister_id i t = t\<lparr>can_ipc_filter_map := (can_ipc_filter_map t)(i := None),
         can_ipc_filter_id_map := (can_ipc_filter_id_map t)(i := None)\<rparr>"
  | c where "can_ipc_filter_id_map t i = Some c" "1 < c"
      "deregister_id i t =
         t\<lparr>can_ipc_filter_id_map := (can_ipc_filter_id_map t)(i \<mapsto> c - 1)\<rparr>"
proof (cases rule: wf_table_cases [OF assms, of i])
  case 1
  with that(1) show thesis by (simp add: deregister_id_absent)
next
  case (2 c f)
  show thesis
  proof (cases "c = 1")
    case True
    with 2 that(2) assms show thesis by (simp add: deregister_id_last)
  next
    case False
    with 2 that(3) show thesis by (simp add: deregister_id_more)
  qed
qed

lemma wf_deregister_id:
  assumes "wf_table t"
  shows "wf_table (deregister_id i t)"
proof (rule wf_tableI)
  fix j
  from assms have "wf_entry t j" by (rule wf_tableD)
  then show "wf_entry (deregister_id i t) j"
    by (cases rule: deregister_id_cases [OF assms, of i])
      (auto simp: wf_entry_def split: option.splits)
qed

lemma registered_deregister_id:
  assumes "wf_table t"
  shows "registered (deregister_id i t) = registered t - {#i#}"
  by (cases rule: deregister_id_cases [OF assms, of i])
    (auto intro!: multiset_eqI simp: id_count_def nat_diff_distrib)

lemma deregister_id_filter_map:
  assumes "wf_table t"
  shows "can_ipc_filter_map (deregister_id i t) j =
     (if j \<in># registered (deregister_id i t) then can_ipc_filter_map t j else None)"
  using registered_iff [OF wf_deregister_id [OF assms, of i], of j]
  by (cases rule: deregister_id_cases [OF assms, of i]) (auto split: if_splits)

lemma deregister_id_port [simp]: "rf_can_port (deregister_id i t) = rf_can_port t"
  by (auto simp: deregister_id_def Let_def split: option.splits)

lemma wf_table_deregister: "wf_table t \<Longrightarrow> wf_table (table_deregister ids t)"
  by (induction ids arbitrary: t) (auto intro: wf_deregister_id)

lemma registered_table_deregister:
  "wf_table t \<Longrightarrow> registered (table_deregister ids t) = registered t - mset ids"
  by (induction ids arbitrary: t)
    (simp_all add: wf_deregister_id registered_deregister_id)

lemma table_deregister_port [simp]: "rf_can_port (table_deregister ids t) = rf_can_port t"
  by (induction ids arbitrary: t) simp_all

lemma table_deregister_filter_map:
  "wf_table t \<Longrightarrow> can_ipc_filter_map (table_deregister ids t) j =
     (if j \<in># registered (table_deregister ids t) then can_ipc_filter_map t j else None)"
proof (induction ids arbitrary: t)
  case Nil
  with registered_iff [of t j] show ?case by auto
next
  case (Cons i ids)
  have "j \<in># registered (table_deregister (i # ids) t) \<Longrightarrow> j \<in># registered (deregister_id i t)"
    using Cons.prems
    by (auto simp: registered_table_deregister wf_deregister_id dest: in_diffD)
  with Cons.IH [of "deregister_id i t"] Cons.prems show ?case
    by (simp add: wf_deregister_id deregister_id_filter_map)
qed

text \<open>A well-formed table is determined by its port, its multiset and its filters.\<close>

lemma wf_table_eqI:
  assumes "wf_table s" and "wf_table t" and "registered s = registered t"
    and "can_ipc_filter_map s = can_ipc_filter_map t" and "rf_can_port s = rf_can_port t"
  shows "s = (t :: 'cb CAN_IPC_RECEIVER_FILTER_T)"
proof -
  have "can_ipc_filter_id_map s i = can_ipc_filter_id_map t i" for i
  proof -
    have "id_count s i = id_count t i"
      using assms(3) by (metis count_registered)
    with assms(1) show ?thesis
      by (cases rule: wf_table_cases [OF assms(2), of i])
        (auto elim!: wf_table_cases [of s i])
  qed
  then have "can_ipc_filter_id_map s = can_ipc_filter_id_map t" by (rule ext)
  with assms show ?thesis by simp
qed

section \<open>The contract of a filter registry\<close>

text \<open>
  What the layers above the receiver rely on: registering adds the identifiers to a multiset,
  deregistering takes them out.
\<close>

locale filter_registry =
  fixes reg :: "'f \<Rightarrow> u32 list \<Rightarrow> 't \<Rightarrow> 't"
    and dereg :: "u32 list \<Rightarrow> 't \<Rightarrow> 't"
    and subs :: "'t \<Rightarrow> u32 multiset"
    and ok :: "'t \<Rightarrow> bool"
  assumes subs_reg: "ok t \<Longrightarrow> subs (reg f ids t) = subs t + mset ids"
    and ok_reg: "ok t \<Longrightarrow> ok (reg f ids t)"
    and subs_dereg: "ok t \<Longrightarrow> subs (dereg ids t) = subs t - mset ids"
    and ok_dereg: "ok t \<Longrightarrow> ok (dereg ids t)"
begin

lemma reg_dereg: "ok t \<Longrightarrow> subs (dereg ids (reg f ids t)) = subs t"
  by (simp add: subs_reg subs_dereg ok_reg)

lemma reg_commute: "ok t \<Longrightarrow> subs (reg f xs (reg g ys t)) = subs (reg g ys (reg f xs t))"
  by (simp add: subs_reg ok_reg)

lemma still_registered:
  "ok t \<Longrightarrow> count (mset ids) i < count (subs t) i \<Longrightarrow> i \<in># subs (dereg ids t)"
  by (simp add: subs_dereg count_greater_zero_iff [symmetric] del: count_greater_zero_iff)

lemma deregistered:
  "ok t \<Longrightarrow> count (subs t) i \<le> count (mset ids) i \<Longrightarrow> i \<notin># subs (dereg ids t)"
  by (simp add: subs_dereg not_in_iff)

end

interpretation ft: filter_registry table_register table_deregister registered wf_table
  by unfold_locales
    (simp_all add: registered_table_register wf_table_register registered_table_deregister
      wf_table_deregister)

text \<open>
  Deregistering undoes registering: after a filter is registered and deregistered with the same
  identifiers (repetitions included), both tables of the port are exactly as before.
\<close>

theorem register_deregister_restores:
  fixes t :: "'cb CAN_IPC_RECEIVER_FILTER_T"
  assumes "wf_table t"
  shows "table_deregister ids (table_register f ids t) = t"
proof (rule wf_table_eqI)
  let ?t = "table_register f ids t"
  show "wf_table (table_deregister ids ?t)" "wf_table t"
    using assms by (simp_all add: ft.ok_dereg ft.ok_reg)
  show reg: "registered (table_deregister ids ?t) = registered t"
    using assms by (rule ft.reg_dereg)
  show "can_ipc_filter_map (table_deregister ids ?t) = can_ipc_filter_map t"
    using assms registered_iff [OF assms] reg
    by (intro ext) (auto simp: table_deregister_filter_map ft.ok_reg split: option.splits)
  show "rf_can_port (table_deregister ids ?t) = rf_can_port t" by simp
qed

definition sample_entry :: "nat CAN_IPC_FILTER_T" where
  "sample_entry = \<lparr>ipcf_filter_id = Some [7, 7, 9], ipcf_filter_id_cnt = 3,
     ipcf_can_port = CAN_DEV_PORT_5, ipcf_callback = Some 1\<rparr>"

definition sample_table :: "nat CAN_IPC_RECEIVER_FILTER_T" where
  "sample_table =
     \<lparr>rf_can_port = CAN_DEV_PORT_5, can_ipc_filter_id_map = Map.empty,
      can_ipc_filter_map = Map.empty\<rparr>"

lemma wf_sample_table: "wf_table sample_table"
  by (simp add: wf_table_def sample_table_def)

theorem register_deregister_restores_witness:
  "table_deregister [7, 7, 9] (table_register sample_entry [7, 7, 9] sample_table) = sample_table"
  by (rule register_deregister_restores [OF wf_sample_table])

end
