(* ===== verification/Receiver.thy ===== *)
theory Receiver
  imports Sender Work_Queue Filter_Table
begin

text \<open>
  \<^verbatim>\<open>src/core/can_ipc_receiver.cpp\<close> and \<^verbatim>\<open>can_ipc_receiver.hpp\<close>: the receiver. It keeps the
  filter tables of the five ports, the configuration of each port and whether it is polled, the
  flags that start, pause and end its two threads, and a handle to the work queue.

  The operations are functions on the record \<open>CAN_IPC_RECEIVER\<close>. The static members that exist once
  per port are functions of \<open>port_slot\<close>.
\<close>

section \<open>State\<close>

datatype port_slot = Slot_5 | Slot_6 | Slot_7 | Slot_8 | Slot_9

fun slot_port :: "port_slot \<Rightarrow> CAN_DEV_PORT_E" where
  "slot_port Slot_5 = CAN_DEV_PORT_5"
| "slot_port Slot_6 = CAN_DEV_PORT_6"
| "slot_port Slot_7 = CAN_DEV_PORT_7"
| "slot_port Slot_8 = CAN_DEV_PORT_8"
| "slot_port Slot_9 = CAN_DEV_PORT_9"

text \<open>The slots in the order of their ports, which is the order in which they are polled.\<close>

instantiation port_slot :: linorder
begin

definition less_eq_port_slot :: "port_slot \<Rightarrow> port_slot \<Rightarrow> bool" where
  "less_eq_port_slot s t \<longleftrightarrow> dev_port_raw (slot_port s) \<le> dev_port_raw (slot_port t)"

definition less_port_slot :: "port_slot \<Rightarrow> port_slot \<Rightarrow> bool" where
  "less_port_slot s t \<longleftrightarrow> dev_port_raw (slot_port s) < dev_port_raw (slot_port t)"

instance
proof
  fix s t :: port_slot
  show "s \<le> t \<Longrightarrow> t \<le> s \<Longrightarrow> s = t"
    by (cases s; cases t) (simp_all add: less_eq_port_slot_def)
qed (auto simp: less_eq_port_slot_def less_port_slot_def)

end

definition all_slots :: "port_slot list" where
  "all_slots = [Slot_5, Slot_6, Slot_7, Slot_8, Slot_9]"

lemma all_slots_ascending: "sorted all_slots \<and> distinct all_slots \<and> set all_slots = UNIV"
proof -
  have "s \<in> set all_slots" for s by (cases s) (simp_all add: all_slots_def)
  then show ?thesis by (auto simp: all_slots_def less_eq_port_slot_def)
qed

text \<open>
  A queued task is the closure made in \<open>match_can_filter\<close>: the callback of the captured filter and
  the captured frame.
\<close>

type_synonym 'cb task = "'cb option \<times> can_frame_t"

record 'cb CAN_IPC_RECEIVER =
  receiver_filter :: "port_slot \<Rightarrow> 'cb CAN_IPC_RECEIVER_FILTER_T"
  port_instance :: "port_slot \<Rightarrow> CAN_IPC_CONFIG_T"
  is_received_port :: "port_slot \<Rightarrow> bool"
  work_queue_handle :: "'cb task WORK_QUEUE"
  receive_ipc_can_task_running :: bool
  receive_ipc_can_task_paused :: bool
  work_task_queue_running :: bool
  work_task_queue_paused :: bool
  work_queue_threads :: nat
  receive_threads :: nat

definition init_can_filter :: "'cb CAN_IPC_RECEIVER \<Rightarrow> 'cb CAN_IPC_RECEIVER" where
  "init_can_filter r =
     r\<lparr>receiver_filter := (\<lambda>s. (clear_hash_table (receiver_filter r s))\<lparr>rf_can_port := slot_port s\<rparr>)\<rparr>"

text \<open>The static members before the constructor runs, and the constructor and destructor.\<close>

definition static_CAN_IPC_RECEIVER :: "'cb CAN_IPC_RECEIVER" where
  "static_CAN_IPC_RECEIVER =
     \<lparr>receiver_filter = (\<lambda>_. \<lparr>rf_can_port = CAN_DEV_PORT_OTHER 0,
        can_ipc_filter_id_map = Map.empty, can_ipc_filter_map = Map.empty\<rparr>),
      port_instance = (\<lambda>_. default_CAN_IPC_CONFIG_T),
      is_received_port = (\<lambda>_. False),
      work_queue_handle = new_WORK_QUEUE,
      receive_ipc_can_task_running = False, receive_ipc_can_task_paused = True,
      work_task_queue_running = False, work_task_queue_paused = True,
      work_queue_threads = 0, receive_threads = 0\<rparr>"

definition new_CAN_IPC_RECEIVER :: "'cb CAN_IPC_RECEIVER" where
  "new_CAN_IPC_RECEIVER = init_can_filter static_CAN_IPC_RECEIVER"

definition delete_CAN_IPC_RECEIVER :: "'cb CAN_IPC_RECEIVER \<Rightarrow> 'cb CAN_IPC_RECEIVER" where
  "delete_CAN_IPC_RECEIVER r =
     r\<lparr>receive_ipc_can_task_paused := True, work_task_queue_paused := True,
       receive_ipc_can_task_running := False, work_task_queue_running := False\<rparr>"

section \<open>Filters\<close>

text \<open>The pointer to the tables of a port, null for an unknown port.\<close>

fun return_can_ipc_receiver_filter :: "CAN_DEV_PORT_E \<Rightarrow> port_slot option" where
  "return_can_ipc_receiver_filter CAN_DEV_PORT_5 = Some Slot_5"
| "return_can_ipc_receiver_filter CAN_DEV_PORT_6 = Some Slot_6"
| "return_can_ipc_receiver_filter CAN_DEV_PORT_7 = Some Slot_7"
| "return_can_ipc_receiver_filter CAN_DEV_PORT_8 = Some Slot_8"
| "return_can_ipc_receiver_filter CAN_DEV_PORT_9 = Some Slot_9"
| "return_can_ipc_receiver_filter (CAN_DEV_PORT_OTHER _) = None"

definition set_table ::
  "port_slot \<Rightarrow> 'cb CAN_IPC_RECEIVER_FILTER_T \<Rightarrow> 'cb CAN_IPC_RECEIVER \<Rightarrow> 'cb CAN_IPC_RECEIVER" where
  "set_table s t r = r\<lparr>receiver_filter := (receiver_filter r)(s := t)\<rparr>"

definition register_can_filter ::
  "'cb CAN_IPC_FILTER_T \<Rightarrow> 'cb CAN_IPC_RECEIVER \<Rightarrow> (int \<times> 'cb CAN_IPC_RECEIVER) res" where
  "register_can_filter can_ipc_filter r =
     (if ipcf_filter_id_cnt can_ipc_filter = 0 then Inr (- RET_CODE_INVALID_ARG, r)
      else (case ipcf_filter_id can_ipc_filter of
              None \<Rightarrow> Inr (- RET_CODE_INVALID_ARG, r)
            | Some ids \<Rightarrow>
                (case return_can_ipc_receiver_filter (ipcf_can_port can_ipc_filter) of
                   None \<Rightarrow> Inr (- RET_CODE_INVALID_ARG, r)
                 | Some s \<Rightarrow>
                     res_bind (read_prefix ids (unat (ipcf_filter_id_cnt can_ipc_filter))) (\<lambda>xs.
                       Inr (RET_CODE_SUCCESS,
                            set_table s (table_register can_ipc_filter xs (receiver_filter r s)) r)))))"

definition deregister_can_filter ::
  "'cb CAN_IPC_FILTER_T \<Rightarrow> 'cb CAN_IPC_RECEIVER \<Rightarrow> (int \<times> 'cb CAN_IPC_RECEIVER) res" where
  "deregister_can_filter can_ipc_filter r =
     (if ipcf_filter_id_cnt can_ipc_filter = 0 then Inr (- RET_CODE_INVALID_ARG, r)
      else (case ipcf_filter_id can_ipc_filter of
              None \<Rightarrow> Inr (- RET_CODE_INVALID_ARG, r)
            | Some ids \<Rightarrow>
                (case return_can_ipc_receiver_filter (ipcf_can_port can_ipc_filter) of
                   None \<Rightarrow> Inr (- RET_CODE_INVALID_ARG, r)
                 | Some s \<Rightarrow>
                     res_bind (read_prefix ids (unat (ipcf_filter_id_cnt can_ipc_filter))) (\<lambda>xs.
                       Inr (RET_CODE_SUCCESS,
                            set_table s (table_deregister xs (receiver_filter r s)) r)))))"

definition match_can_filter ::
  "CAN_DEV_PORT_E \<Rightarrow> can_frame_t \<Rightarrow> 'cb CAN_IPC_RECEIVER \<Rightarrow> int \<times> 'cb CAN_IPC_RECEIVER" where
  "match_can_filter can_port raw_can_frame r =
     (case return_can_ipc_receiver_filter can_port of
        None \<Rightarrow> (- RET_CODE_INVALID_ARG, r)
      | Some s \<Rightarrow>
          (case can_ipc_filter_map (receiver_filter r s) (frame_id raw_can_frame) of
             None \<Rightarrow> (RET_CODE_SUCCESS, r)
           | Some flt \<Rightarrow>
               (RET_CODE_SUCCESS,
                r\<lparr>work_queue_handle :=
                    snd (enqueue (ipcf_callback flt, raw_can_frame) (work_queue_handle r))\<rparr>)))"

section \<open>Receiving frames from the HAL\<close>

definition SINGLE_RX_BUF_SIZE :: nat where
  "SINGLE_RX_BUF_SIZE = 16000"

text \<open>The conversion of one received CAN frame, with the copy of its payload.\<close>

definition frame_of_canframe :: "canframe \<Rightarrow> can_frame_t res" where
  "frame_of_canframe f =
     res_bind (memcpy (replicate CANFD_MAX_DLEN 0) (cf_data f) (cf_len f)) (\<lambda>data.
       Inr \<lparr>frame_id = canid f, frame_dlc = can_bytes_to_dlc (of_nat (cf_len f)),
            frame_flags = can_type f, frame_data = data\<rparr>)"

text \<open>
  The loop over the received frames. The second argument is what the pointer
  \<open>single_canframe\<close> still has in front of it in the buffer. A frame of length zero ends the
  iteration before the pointer is advanced.
\<close>

fun rx_loop ::
  "nat \<Rightarrow> canframe list \<Rightarrow> CAN_DEV_PORT_E \<Rightarrow> 'cb CAN_IPC_RECEIVER \<Rightarrow> 'cb CAN_IPC_RECEIVER res" where
  "rx_loop 0 buf port r = Inr r"
| "rx_loop (Suc n) [] port r = Inl Array_Bounds"
| "rx_loop (Suc n) (f # fs) port r =
     (if cf_len f = 0 then rx_loop n (f # fs) port r
      else res_bind (frame_of_canframe f) (\<lambda>can_frame.
             rx_loop n fs port (snd (match_can_filter port can_frame r))))"

definition get_raw_can_data ::
  "'w hal \<Rightarrow> can_port_target_t \<Rightarrow> 'cb CAN_IPC_RECEIVER \<Rightarrow> 'w \<Rightarrow> ('cb CAN_IPC_RECEIVER \<times> 'w) res" where
  "get_raw_can_data h can_port_target r w =
     (let (soc, w) = system_clock_ms h w;
          (mcu, w) = system_clock_ms h w;
          frames = SINGLE_RX_BUF_SIZE div sizeof_canframe h;
          pack = \<lparr>soc_ts = soc, data_num = 0, mcu_ts = mcu, pk_length = frames,
                  unused = 0, unused_1 = 0\<rparr>
      in if \<not> malloc_succeeds h w then Inr (r, w)
         else (case canRecvMsgFrame h (target_instance can_port_target)
                      (replicate frames (zero_canframe h)) pack w of
                 (rx_frame, pack, w) \<Rightarrow>
                   res_bind (rx_loop (data_num pack) rx_frame
                               (dev_port_of_raw (can_port_index can_port_target)) r)
                     (\<lambda>r. Inr (r, w))))"

section \<open>The two threads\<close>

text \<open>
  \<open>receive_ipc_can_task\<close> copies the five port configurations when it starts, then polls the enabled
  ports in turn. A bounded number of rounds of its loop; it ends when the running flag is cleared
  and waits while the paused flag is set.
\<close>

definition receive_task_targets :: "'cb CAN_IPC_RECEIVER \<Rightarrow> (port_slot \<times> can_port_target_t) list res" where
  "receive_task_targets r =
     foldr (\<lambda>s acc. res_bind (make_target (port_instance r s)) (\<lambda>t.
              res_bind acc (\<lambda>ts. Inr ((s, t) # ts)))) all_slots (Inr [])"

fun receive_pass ::
  "'w hal \<Rightarrow> (port_slot \<times> can_port_target_t) list \<Rightarrow> 'cb CAN_IPC_RECEIVER \<Rightarrow> 'w \<Rightarrow>
     ('cb CAN_IPC_RECEIVER \<times> 'w) res" where
  "receive_pass h [] r w = Inr (r, w)"
| "receive_pass h ((s, t) # ts) r w =
     (if is_received_port r s
      then res_bind (get_raw_can_data h t r w) (\<lambda>(r, w). receive_pass h ts r w)
      else receive_pass h ts r w)"

fun receive_ipc_can_task ::
  "'w hal \<Rightarrow> nat \<Rightarrow> (port_slot \<times> can_port_target_t) list \<Rightarrow> 'cb CAN_IPC_RECEIVER \<Rightarrow> 'w \<Rightarrow>
     ('cb CAN_IPC_RECEIVER \<times> 'w) res" where
  "receive_ipc_can_task h 0 ts r w = Inr (r, w)"
| "receive_ipc_can_task h (Suc n) ts r w =
     (if receive_ipc_can_task_running r \<and> \<not> receive_ipc_can_task_paused r
      then res_bind (receive_pass h ts r w) (\<lambda>(r, w). receive_ipc_can_task h n ts r w)
      else Inr (r, w))"

text \<open>
  One round of \<open>work_queue_task\<close>: it ends, waits (for the end of a pause or for a task), or has
  dequeued and, when it got a task and is still running, goes on to run it.
\<close>

datatype 'a round = Round_End | Round_Wait | Round_Skip | Round_Run 'a

definition work_queue_task_round ::
  "'cb CAN_IPC_RECEIVER \<Rightarrow> 'cb task round \<times> 'cb CAN_IPC_RECEIVER" where
  "work_queue_task_round r =
     (if \<not> work_task_queue_running r then (Round_End, r)
      else if work_task_queue_paused r then (Round_Wait, r)
      else (case dequeue_blocking (work_queue_handle r) of
              (Deq_Waits, q) \<Rightarrow> (Round_Wait, r\<lparr>work_queue_handle := q\<rparr>)
            | (Deq_Null, q) \<Rightarrow> (Round_Skip, r\<lparr>work_queue_handle := q\<rparr>)
            | (Deq_Task task, q) \<Rightarrow> (Round_Run task, r\<lparr>work_queue_handle := q\<rparr>)))"

section \<open>Starting, pausing and resuming\<close>

definition create_work_queue_task :: "'cb CAN_IPC_RECEIVER \<Rightarrow> 'cb CAN_IPC_RECEIVER" where
  "create_work_queue_task r =
     r\<lparr>work_task_queue_paused := False, work_task_queue_running := True,
       work_queue_threads := Suc (work_queue_threads r)\<rparr>"

definition create_receive_ipc_can_task :: "'cb CAN_IPC_RECEIVER \<Rightarrow> 'cb CAN_IPC_RECEIVER" where
  "create_receive_ipc_can_task r =
     r\<lparr>receive_ipc_can_task_paused := False, receive_ipc_can_task_running := True,
       receive_threads := Suc (receive_threads r)\<rparr>"

definition pause_work_queue_task :: "'cb CAN_IPC_RECEIVER \<Rightarrow> 'cb CAN_IPC_RECEIVER" where
  "pause_work_queue_task r = r\<lparr>work_task_queue_paused := True\<rparr>"

definition pause_receive_ipc_can_task :: "'cb CAN_IPC_RECEIVER \<Rightarrow> 'cb CAN_IPC_RECEIVER" where
  "pause_receive_ipc_can_task r = r\<lparr>receive_ipc_can_task_paused := True\<rparr>"

definition resume_work_queue_task :: "'cb CAN_IPC_RECEIVER \<Rightarrow> 'cb CAN_IPC_RECEIVER" where
  "resume_work_queue_task r = r\<lparr>work_task_queue_paused := False\<rparr>"

definition resume_receive_ipc_can_task :: "'cb CAN_IPC_RECEIVER \<Rightarrow> 'cb CAN_IPC_RECEIVER" where
  "resume_receive_ipc_can_task r = r\<lparr>receive_ipc_can_task_paused := False\<rparr>"

definition start_can_ipc_receiver :: "'cb CAN_IPC_RECEIVER \<Rightarrow> 'cb CAN_IPC_RECEIVER" where
  "start_can_ipc_receiver r =
     create_receive_ipc_can_task (create_work_queue_task
       (r\<lparr>work_queue_handle := clear_queue (work_queue_handle r)\<rparr>))"

definition pause_can_ipc_receiver :: "'cb CAN_IPC_RECEIVER \<Rightarrow> 'cb CAN_IPC_RECEIVER" where
  "pause_can_ipc_receiver r = pause_work_queue_task (pause_receive_ipc_can_task r)"

definition resume_can_ipc_receiver :: "'cb CAN_IPC_RECEIVER \<Rightarrow> 'cb CAN_IPC_RECEIVER" where
  "resume_can_ipc_receiver r = resume_receive_ipc_can_task (resume_work_queue_task r)"

text \<open>A configuration with an unknown port is stored as that of port 5.\<close>

definition enable_can_receiver_port ::
  "CAN_IPC_CONFIG_T \<Rightarrow> 'cb CAN_IPC_RECEIVER \<Rightarrow> 'cb CAN_IPC_RECEIVER" where
  "enable_can_receiver_port can_ipc_config r =
     (let s = (case return_can_ipc_receiver_filter (can_dev_port can_ipc_config) of
                 Some s \<Rightarrow> s | None \<Rightarrow> Slot_5)
      in r\<lparr>is_received_port := (is_received_port r)(s := True),
           port_instance := (port_instance r)(s := can_ipc_config)\<rparr>)"

lemmas receiver_control = create_work_queue_task_def create_receive_ipc_can_task_def
  pause_work_queue_task_def pause_receive_ipc_can_task_def resume_work_queue_task_def
  resume_receive_ipc_can_task_def start_can_ipc_receiver_def pause_can_ipc_receiver_def
  resume_can_ipc_receiver_def enable_can_receiver_port_def

end
