(* ===== verification/Receiver_Correct.thy ===== *)
theory Receiver_Correct
  imports Receiver
begin

text \<open>
  Correctness of the receiver: its filter operations refine operations on multisets of identifiers
  (success and every error branch), its invariant, what happens to the frames of one reception, and
  that receiving stays within the buffers when the HAL keeps its contract.
\<close>

section \<open>The tables of the ports\<close>

definition port_registered :: "'cb CAN_IPC_RECEIVER \<Rightarrow> port_slot \<Rightarrow> u32 multiset" where
  "port_registered r s = registered (receiver_filter r s)"

definition wf_receiver :: "'cb CAN_IPC_RECEIVER \<Rightarrow> bool" where
  "wf_receiver r \<longleftrightarrow> (\<forall>s. wf_table (receiver_filter r s) \<and>
     rf_can_port (receiver_filter r s) = slot_port s)"

lemma wf_receiverD:
  "wf_receiver r \<Longrightarrow> wf_table (receiver_filter r s)"
  "wf_receiver r \<Longrightarrow> rf_can_port (receiver_filter r s) = slot_port s"
  by (simp_all add: wf_receiver_def)

lemma slot_of_slot_port [simp]: "return_can_ipc_receiver_filter (slot_port s) = Some s"
  by (cases s) simp_all

lemma slot_of_port_eq: "return_can_ipc_receiver_filter p = Some s \<longleftrightarrow> p = slot_port s"
  by (cases p; cases s) simp_all

lemma slot_of_port_None: "return_can_ipc_receiver_filter p = None \<longleftrightarrow> (\<exists>i. p = CAN_DEV_PORT_OTHER i)"
  by (cases p) simp_all

lemma slot_port_roundtrip [simp]:
  "return_can_ipc_receiver_filter (dev_port_of_raw (uint (dev_port_u8 (slot_port s)))) = Some s"
  by (cases s) (simp_all add: dev_port_u8_def dev_port_of_raw_def)

lemma set_table_simps [simp]:
  "receiver_filter (set_table s t r) = (receiver_filter r)(s := t)"
  "work_queue_handle (set_table s t r) = work_queue_handle r"
  "port_instance (set_table s t r) = port_instance r"
  "is_received_port (set_table s t r) = is_received_port r"
  by (simp_all add: set_table_def)

lemma set_table_id [simp]: "set_table s (receiver_filter r s) r = r"
  by (simp add: set_table_def)

lemma set_table_twice [simp]: "set_table s t (set_table s u r) = set_table s t r"
  by (simp add: set_table_def)

lemma wf_set_table:
  "wf_receiver r \<Longrightarrow> wf_table t \<Longrightarrow> rf_can_port t = slot_port s \<Longrightarrow> wf_receiver (set_table s t r)"
  by (simp add: wf_receiver_def)

section \<open>Registering and deregistering filters\<close>

text \<open>The argument check that both operations share, and what they do behind it.\<close>

definition filter_args :: "'cb CAN_IPC_FILTER_T \<Rightarrow> (port_slot \<times> u32 list) option" where
  "filter_args f =
     (if ipcf_filter_id_cnt f = 0 then None
      else (case (ipcf_filter_id f, return_can_ipc_receiver_filter (ipcf_can_port f)) of
              (Some ids, Some s) \<Rightarrow> Some (s, ids)
            | _ \<Rightarrow> None))"

lemma register_can_filter_eq:
  "register_can_filter f r =
     (case filter_args f of
        None \<Rightarrow> Inr (- 4, r)
      | Some (s, ids) \<Rightarrow>
          res_bind (read_prefix ids (unat (ipcf_filter_id_cnt f))) (\<lambda>xs.
            Inr (0, set_table s (table_register f xs (receiver_filter r s)) r)))"
  by (simp add: register_can_filter_def filter_args_def split: option.splits)

lemma deregister_can_filter_eq:
  "deregister_can_filter f r =
     (case filter_args f of
        None \<Rightarrow> Inr (- 4, r)
      | Some (s, ids) \<Rightarrow>
          res_bind (read_prefix ids (unat (ipcf_filter_id_cnt f))) (\<lambda>xs.
            Inr (0, set_table s (table_deregister xs (receiver_filter r s)) r)))"
  by (simp add: deregister_can_filter_def filter_args_def split: option.splits)

lemma filter_args_None:
  "filter_args f = None \<longleftrightarrow> ipcf_filter_id_cnt f = 0 \<or> ipcf_filter_id f = None \<or>
     (\<exists>i. ipcf_can_port f = CAN_DEV_PORT_OTHER i)"
  by (auto simp: filter_args_def slot_of_port_None [symmetric] split: option.splits)

lemma filter_args_Some:
  "filter_args f = Some (s, ids) \<longleftrightarrow> ipcf_filter_id_cnt f \<noteq> 0 \<and> ipcf_filter_id f = Some ids \<and>
     ipcf_can_port f = slot_port s"
  by (auto simp: filter_args_def slot_of_port_eq [symmetric] split: option.splits)

text \<open>
  The errors of the filter operations: a filter with no identifiers, a null pointer or an
  unknown port is refused with the code for an invalid argument, and these are the only refusals;
  the receiver is left as it is.
\<close>

theorem filter_operations_refuse:
  "ipcf_filter_id_cnt f = 0 \<or> ipcf_filter_id f = None \<or> (\<exists>i. ipcf_can_port f = CAN_DEV_PORT_OTHER i)
   \<longleftrightarrow> register_can_filter f r = Inr (- RET_CODE_INVALID_ARG, r) \<and>
       deregister_can_filter f r = Inr (- RET_CODE_INVALID_ARG, r)"
  unfolding filter_args_None [symmetric]
  by (auto simp: register_can_filter_eq deregister_can_filter_eq res_simps split: option.splits)


definition sample_filter :: "nat CAN_IPC_FILTER_T" where
  "sample_filter = \<lparr>ipcf_filter_id = Some [0x100, 0x101], ipcf_filter_id_cnt = 2,
     ipcf_can_port = CAN_DEV_PORT_5, ipcf_callback = Some 1\<rparr>"

lemma wf_new_receiver: "wf_receiver new_CAN_IPC_RECEIVER"
  by (simp add: wf_receiver_def new_CAN_IPC_RECEIVER_def init_can_filter_def wf_table_def
      clear_hash_table_def)

lemma port_registered_new [simp]: "port_registered new_CAN_IPC_RECEIVER s = {#}"
  by (rule multiset_eqI)
    (simp add: port_registered_def new_CAN_IPC_RECEIVER_def init_can_filter_def id_count_def
      clear_hash_table_def)


text \<open>
  The first registration wins: while an identifier is registered, registering it again, with
  whatever callback, leaves the callback that its frames are delivered to as it is.
\<close>

theorem first_registration_wins:
  assumes "wf_receiver r" and "i \<in># port_registered r s"
    and "register_can_filter f r = Inr (ret, r')"
  shows "can_ipc_filter_map (receiver_filter r' s) i = can_ipc_filter_map (receiver_filter r s) i \<and>
    can_ipc_filter_map (receiver_filter r s) i \<noteq> None"
proof -
  have "can_ipc_filter_map (receiver_filter r s) i \<noteq> None"
    using registered_iff [OF wf_receiverD(1) [OF assms(1)]] assms(2) by (simp add: port_registered_def)
  with assms(3) show ?thesis
    by (auto simp: register_can_filter_eq res_simps split: option.splits)
qed

theorem first_registration_wins_witness:
  "\<exists>r r'. register_can_filter sample_filter new_CAN_IPC_RECEIVER = Inr (0, r) \<and>
     register_can_filter (sample_filter\<lparr>ipcf_callback := Some 2\<rparr>) r = Inr (0, r') \<and>
     can_ipc_filter_map (receiver_filter r' Slot_5) 0x100 = Some sample_filter"
proof -
  let ?t = "receiver_filter new_CAN_IPC_RECEIVER Slot_5 :: nat CAN_IPC_RECEIVER_FILTER_T"
  let ?r = "set_table Slot_5 (table_register sample_filter [0x100, 0x101] ?t) new_CAN_IPC_RECEIVER"
  let ?f = "sample_filter\<lparr>ipcf_callback := Some 2\<rparr>"
  have reg: "register_can_filter sample_filter new_CAN_IPC_RECEIVER = Inr (0, ?r)"
    by (simp add: register_can_filter_def sample_filter_def)
  have wf: "wf_receiver ?r"
    by (intro wf_set_table wf_new_receiver ft.ok_reg wf_receiverD(1))
      (simp add: wf_receiverD(2) [OF wf_new_receiver])
  have t: "can_ipc_filter_map ?t 0x100 = None"
    by (simp add: new_CAN_IPC_RECEIVER_def init_can_filter_def clear_hash_table_def)
  have mem: "0x100 \<in># port_registered ?r Slot_5"
    by (simp add: port_registered_def registered_iff ft.ok_reg wf_receiverD(1) [OF wf_new_receiver] t)
  obtain r' where reg': "register_can_filter ?f ?r = Inr (0, r')"
    by (simp add: register_can_filter_def sample_filter_def)
  have "can_ipc_filter_map (receiver_filter r' Slot_5) 0x100 = Some sample_filter"
    using first_registration_wins [OF wf mem reg'] by (simp add: t)
  with reg reg' show ?thesis by blast
qed

section \<open>Delivering received frames\<close>

text \<open>
  The tasks that a sequence of frames gives rise to with a table of filters: one for each frame
  whose identifier is registered, with the callback of its filter.
\<close>

fun tasks_for :: "'cb CAN_IPC_RECEIVER_FILTER_T \<Rightarrow> can_frame_t list \<Rightarrow> 'cb task list" where
  "tasks_for t [] = []"
| "tasks_for t (f # fs) =
     (case can_ipc_filter_map t (frame_id f) of
        None \<Rightarrow> tasks_for t fs
      | Some g \<Rightarrow> (ipcf_callback g, f) # tasks_for t fs)"

lemma tasks_for_set:
  "wf_table t \<Longrightarrow> snd ` set (tasks_for t fs) = {f \<in> set fs. frame_id f \<in># registered t}"
  by (induction fs) (auto simp: registered_iff split: option.splits)

definition match_all ::
  "CAN_DEV_PORT_E \<Rightarrow> can_frame_t list \<Rightarrow> 'cb CAN_IPC_RECEIVER \<Rightarrow> 'cb CAN_IPC_RECEIVER" where
  "match_all port fs r = fold (\<lambda>f r. snd (match_can_filter port f r)) fs r"

lemma match_all_simps [simp]:
  "match_all port [] r = r"
  "match_all port (f # fs) r = match_all port fs (snd (match_can_filter port f r))"
  by (simp_all add: match_all_def)

lemma match_can_filter_frame [simp]:
  "receiver_filter (snd (match_can_filter p f r)) = receiver_filter r"
  "port_instance (snd (match_can_filter p f r)) = port_instance r"
  "is_received_port (snd (match_can_filter p f r)) = is_received_port r"
  by (simp_all add: match_can_filter_def split: option.splits)

lemma match_all_frame [simp]:
  "receiver_filter (match_all p fs r) = receiver_filter r"
  "port_instance (match_all p fs r) = port_instance r"
  "is_received_port (match_all p fs r) = is_received_port r"
  by (induction fs arbitrary: r) simp_all

lemma match_all_queue:
  "work_queue_handle (match_all (slot_port s) fs r) =
     fold (\<lambda>x q. snd (enqueue x q)) (tasks_for (receiver_filter r s) fs) (work_queue_handle r)"
  by (induction fs arbitrary: r)
    (auto simp: match_can_filter_def split: option.splits)

text \<open>
  The frames of a batch are delivered in order: with a running queue, matching a sequence of
  frames against the filters of a port appends one task for every frame whose identifier is
  registered, in the order of the frames and with the callback registered for it, up to the
  capacity of the queue.
\<close>

theorem match_all_delivers:
  assumes "\<not> stopped (work_queue_handle r)" and "wq_size (work_queue_handle r) \<le> MAX_WORK_QUEUE_TASKS"
  shows "work_queue (work_queue_handle (match_all (slot_port s) fs r)) =
    take MAX_WORK_QUEUE_TASKS
      (work_queue (work_queue_handle r) @ tasks_for (receiver_filter r s) fs)"
  using wq.fold_enq [of "work_queue_handle r"] assms by (simp add: match_all_queue wq_size_def)

theorem match_all_delivers_witness:
  "work_queue (work_queue_handle (match_all CAN_DEV_PORT_5 [zero_frame] new_CAN_IPC_RECEIVER)) =
     take MAX_WORK_QUEUE_TASKS ([] @ tasks_for (receiver_filter new_CAN_IPC_RECEIVER Slot_5)
       [zero_frame])"
  using match_all_delivers [of new_CAN_IPC_RECEIVER Slot_5 "[zero_frame]"]
  by (simp add: new_CAN_IPC_RECEIVER_def init_can_filter_def static_CAN_IPC_RECEIVER_def
      new_WORK_QUEUE_def wq_size_def)

section \<open>One reception from the HAL\<close>

definition frame_in_bounds :: "canframe \<Rightarrow> bool" where
  "frame_in_bounds f \<longleftrightarrow> cf_len f \<le> CANFD_MAX_DLEN \<and> cf_len f \<le> length (cf_data f)"

text \<open>The frame that a received CAN frame within bounds is converted to.\<close>

definition rx_frame :: "canframe \<Rightarrow> can_frame_t" where
  "rx_frame f =
     \<lparr>frame_id = canid f, frame_dlc = can_bytes_to_dlc (of_nat (cf_len f)),
      frame_flags = can_type f, frame_data = pad_to CANFD_MAX_DLEN (take (cf_len f) (cf_data f))\<rparr>"

lemma frame_of_canframe_ok:
  "frame_in_bounds f \<Longrightarrow> frame_of_canframe f = Inr (rx_frame f)"
  by (simp add: frame_of_canframe_def rx_frame_def frame_in_bounds_def pad_to_def min_absorb2)

lemma frame_of_canframe_fault:
  "\<not> frame_in_bounds f \<Longrightarrow> \<not> isOK (frame_of_canframe f)"
  by (auto simp: frame_of_canframe_def frame_in_bounds_def memcpy_def)

lemma wf_rx_frame [simp]: "wf_frame (rx_frame f)"
  by (simp add: wf_frame_def rx_frame_def)

text \<open>
  The frames that the loop gets to: those before the first frame of length zero.
\<close>

definition reached_frames :: "nat \<Rightarrow> canframe list \<Rightarrow> canframe list" where
  "reached_frames n buf = takeWhile (\<lambda>f. cf_len f \<noteq> 0) (take n buf)"

lemma rx_loop_stuck: "cf_len f = 0 \<Longrightarrow> rx_loop n (f # fs) port r = Inr r"
  by (induction n) simp_all

lemma rx_loop_ok:
  assumes "n \<le> length buf" and "\<forall>f \<in> set (reached_frames n buf). frame_in_bounds f"
  shows "rx_loop n buf port r = Inr (match_all port (map rx_frame (reached_frames n buf)) r)"
  using assms
proof (induction n buf port r rule: rx_loop.induct)
  case (3 n f fs port r)
  show ?case
  proof (cases "cf_len f = 0")
    case True
    then show ?thesis
      using rx_loop_stuck [OF True, of n fs port r] by (simp add: reached_frames_def)
  next
    case False
    then have step: "reached_frames (Suc n) (f # fs) = f # reached_frames n fs"
      by (simp add: reached_frames_def)
    with 3 False show ?thesis by (simp add: frame_of_canframe_ok)
  qed
qed (simp_all add: reached_frames_def)

text \<open>
  The contract of \<open>canRecvMsgFrame\<close>, as far as the receiver needs it: it reports at most as many
  frames as the buffer holds and no frame longer than a CAN FD payload.
\<close>

definition hal_frames_ok :: "'w hal \<Rightarrow> bool" where
  "hal_frames_ok h \<longleftrightarrow> (\<forall>target buf p w.
     case canRecvMsgFrame h target buf p w of (buf', p', w') \<Rightarrow>
       length buf' = length buf \<and> data_num p' \<le> length buf' \<and>
       (\<forall>f \<in> set (take (data_num p') buf'). frame_in_bounds f))"

lemma hal_frames_ok_call:
  assumes "hal_frames_ok h" and "canRecvMsgFrame h target b p0 w0 = (buf, p, w1)"
  shows "data_num p \<le> length buf \<and> (\<forall>f \<in> set (take (data_num p) buf). frame_in_bounds f)"
  using assms unfolding hal_frames_ok_def by (smt (verit, best) case_prod_conv)

lemma hal_frames_okD:
  assumes "hal_frames_ok h" and "canRecvMsgFrame h target b p0 w0 = (buf, p, w1)"
  shows "data_num p \<le> length buf"
    and "\<forall>f \<in> set (reached_frames (data_num p) buf). frame_in_bounds f"
  using hal_frames_ok_call [OF assms] by (auto simp: reached_frames_def dest: set_takeWhileD)

text \<open>The call of the HAL that one reception makes.\<close>

definition hal_reception :: "'w hal \<Rightarrow> string \<Rightarrow> 'w \<Rightarrow> canframe list \<times> pack_info \<times> 'w" where
  "hal_reception h target w =
     (let (soc, w) = system_clock_ms h w;
          (mcu, w) = system_clock_ms h w;
          frames = SINGLE_RX_BUF_SIZE div sizeof_canframe h
      in canRecvMsgFrame h target (replicate frames (zero_canframe h))
           \<lparr>soc_ts = soc, data_num = 0, mcu_ts = mcu, pk_length = frames, unused = 0, unused_1 = 0\<rparr> w)"

lemma get_raw_can_data_eq:
  assumes "\<And>w. malloc_succeeds h w" and "hal_reception h (target_instance t) w = (buf, p, w')"
  shows "get_raw_can_data h t r w =
    res_bind (rx_loop (data_num p) buf (dev_port_of_raw (can_port_index t)) r) (\<lambda>r. Inr (r, w'))"
  using assms by (simp add: get_raw_can_data_def hal_reception_def Let_def case_prod_unfold)

text \<open>
  C31. What one reception does with the frames that the HAL reports: the frames before the first
  one of length zero are converted and matched in order against the filters of the target's port,
  and every frame from that one on is dropped, valid ones included, because the loop does not
  advance over a frame of length zero.
\<close>

theorem get_raw_can_data_delivers:
  assumes "hal_frames_ok h" and "\<And>w. malloc_succeeds h w"
    and "hal_reception h (target_instance t) w = (buf, p, w')"
  shows "get_raw_can_data h t r w =
    Inr (match_all (dev_port_of_raw (can_port_index t))
           (map rx_frame (reached_frames (data_num p) buf)) r, w')"
proof -
  obtain b p0 w0 where "canRecvMsgFrame h (target_instance t) b p0 w0 = (buf, p, w')"
    using assms(3) by (auto simp: hal_reception_def Let_def case_prod_unfold)
  note ok = hal_frames_okD [OF assms(1) this]
  show ?thesis
    unfolding get_raw_can_data_eq [of h t w buf p w' r, OF assms(2,3)]
    by (simp add: rx_loop_ok [OF ok])
qed

definition sample_canframe :: "nat \<Rightarrow> canframe" where
  "sample_canframe n =
     \<lparr>time_stamp = 0, canid = 0x100, cf_count = 1, can_type = 1, can_channel = 5, cf_len = n,
      cf_data = replicate 64 7\<rparr>"

lemma replay_hal_ok:
  assumes "\<forall>f \<in> set fs. frame_in_bounds f"
  shows "hal_frames_ok (replay_hal fs)"
proof -
  have "take (min (length fs) (length buf)) (take (length buf) fs @ drop (length fs) buf) =
      take (length buf) fs" for buf :: "canframe list"
    by (simp add: min_def)
  with assms show ?thesis
    by (auto simp: hal_frames_ok_def replay_hal_def dest: in_set_takeD)
qed

lemma replay_hal_malloc: "malloc_succeeds (replay_hal fs) w"
  by (simp add: replay_hal_def recording_hal_def)

lemma hal_reception_replay:
  "hal_reception (replay_hal fs) target w =
     (take 200 fs @ drop (length fs) (replicate 200 (zero_canframe (replay_hal fs))),
      \<lparr>soc_ts = 1000, data_num = min (length fs) 200, mcu_ts = 1000, pk_length = 200,
       unused = 0, unused_1 = 0\<rparr>, w)"
  by (simp add: hal_reception_def replay_hal_def recording_hal_def SINGLE_RX_BUF_SIZE_def)

theorem get_raw_can_data_delivers_witness:
  "get_raw_can_data (replay_hal [sample_canframe 8, sample_canframe 0, sample_canframe 12])
     \<lparr>target_instance = ''can5_ins0ch4'', can_port_index = 5\<rparr>
     (new_CAN_IPC_RECEIVER :: nat CAN_IPC_RECEIVER) [] =
   Inr (match_all CAN_DEV_PORT_5 [rx_frame (sample_canframe 8)] new_CAN_IPC_RECEIVER, [])"
proof -
  let ?fs = "[sample_canframe 8, sample_canframe 0, sample_canframe 12]"
  have ok: "hal_frames_ok (replay_hal ?fs)"
    by (rule replay_hal_ok)
      (simp add: frame_in_bounds_def sample_canframe_def CANFD_MAX_DLEN_def)
  have "reached_frames 3 (?fs @ ys) = [sample_canframe 8]" for ys
    by (simp add: reached_frames_def sample_canframe_def)
  then show ?thesis
    using get_raw_can_data_delivers [OF ok replay_hal_malloc hal_reception_replay,
        where r = "new_CAN_IPC_RECEIVER :: nat CAN_IPC_RECEIVER"]
    by (simp add: dev_port_of_raw_def numeral_3_eq_3)
qed

lemma get_raw_can_data_in_bounds:
  assumes "hal_frames_ok h"
  shows "\<exists>fs w'. get_raw_can_data h t r w =
    Inr (match_all (dev_port_of_raw (can_port_index t)) fs r, w')"
proof -
  let ?frames = "SINGLE_RX_BUF_SIZE div sizeof_canframe h"
  obtain soc w1 mcu w2
    where clock: "system_clock_ms h w = (soc, w1)" "system_clock_ms h w1 = (mcu, w2)"
    by (metis surj_pair)
  obtain buf p w3 where call: "canRecvMsgFrame h (target_instance t)
      (replicate ?frames (zero_canframe h))
      \<lparr>soc_ts = soc, data_num = 0, mcu_ts = mcu, pk_length = ?frames, unused = 0, unused_1 = 0\<rparr> w2
      = (buf, p, w3)"
    by (metis prod_cases3)
  show ?thesis
  proof (cases "malloc_succeeds h w2")
    case True
    with clock call show ?thesis
      using rx_loop_ok [OF hal_frames_okD [OF assms call], of _ r]
      by (auto simp: get_raw_can_data_def)
  next
    case False
    with clock show ?thesis by (auto simp: get_raw_can_data_def intro!: exI [of _ "[]"])
  qed
qed

lemma receive_pass_in_bounds:
  assumes "hal_frames_ok h"
  shows "isOK (receive_pass h ts r w)"
proof (induction ts arbitrary: r w)
  case (Cons a ts)
  obtain s t where a: "a = (s, t)" by (cases a)
  obtain fs w' where "get_raw_can_data h t r w =
      Inr (match_all (dev_port_of_raw (can_port_index t)) fs r, w')"
    using get_raw_can_data_in_bounds [OF assms] by blast
  with Cons show ?case by (simp add: a)
qed simp

text \<open>
  Receiving stays within its buffers: when the HAL keeps its contract, the receive task never
  reads past the receive buffer and never writes past the payload of a frame, however many rounds
  it makes.
\<close>

theorem receive_task_in_bounds:
  assumes "hal_frames_ok h"
  shows "isOK (receive_ipc_can_task h n ts r w)"
proof (induction n arbitrary: r w)
  case (Suc n)
  obtain r' w' where "receive_pass h ts r w = Inr (r', w')"
    using receive_pass_in_bounds [OF assms, of ts r w] by (auto simp: isOK_iff)
  with Suc show ?case by simp
qed simp

theorem receive_task_in_bounds_witness:
  "isOK (receive_ipc_can_task (replay_hal [sample_canframe 8]) 5
     [(Slot_5, \<lparr>target_instance = ''can5_ins0ch4'', can_port_index = 5\<rparr>)]
     (start_can_ipc_receiver new_CAN_IPC_RECEIVER) [])"
  by (rule receive_task_in_bounds, rule replay_hal_ok)
    (simp add: frame_in_bounds_def sample_canframe_def CANFD_MAX_DLEN_def)

end
