(* ===== verification/Layer_Impl.thy ===== *)
theory Layer_Impl
  imports Receiver_Correct
begin

text \<open>
  \<^verbatim>\<open>src/core/can_ipc_layer_impl.cpp\<close> and \<^verbatim>\<open>can_ipc_layer_impl.hpp\<close>: the layer above sender and
  receiver. It translates the ports of the interface into channel names and device ports, starts
  and ends the HAL with the first and last instance, and links the configuration directory.
\<close>

section \<open>Ports\<close>

fun lib_get_can_dev_port :: "CAN_PORT_E \<Rightarrow> CAN_DEV_PORT_E" where
  "lib_get_can_dev_port CAN_PORT_5 = CAN_DEV_PORT_5"
| "lib_get_can_dev_port CAN_PORT_6 = CAN_DEV_PORT_5"
| "lib_get_can_dev_port CAN_PORT_7 = CAN_DEV_PORT_5"
| "lib_get_can_dev_port CAN_PORT_8 = CAN_DEV_PORT_5"
| "lib_get_can_dev_port CAN_PORT_9 = CAN_DEV_PORT_5"
| "lib_get_can_dev_port (CAN_PORT_OTHER _) = CAN_DEV_PORT_5"

fun lib_set_can_ipc_handle :: "CAN_PORT_E \<Rightarrow> CAN_IPC_CONFIG_T" where
  "lib_set_can_ipc_handle CAN_PORT_5 =
     \<lparr>can_port_instance = CAN_IPC_INS0_CAN5_CHAN4, can_dev_port = CAN_DEV_PORT_5\<rparr>"
| "lib_set_can_ipc_handle CAN_PORT_6 =
     \<lparr>can_port_instance = CAN_IPC_INS0_CAN6_CHAN6, can_dev_port = CAN_DEV_PORT_6\<rparr>"
| "lib_set_can_ipc_handle CAN_PORT_7 =
     \<lparr>can_port_instance = CAN_IPC_INS0_CAN7_CHAN7, can_dev_port = CAN_DEV_PORT_7\<rparr>"
| "lib_set_can_ipc_handle CAN_PORT_8 =
     \<lparr>can_port_instance = CAN_IPC_INS0_CAN8_CHAN2, can_dev_port = CAN_DEV_PORT_8\<rparr>"
| "lib_set_can_ipc_handle CAN_PORT_9 =
     \<lparr>can_port_instance = CAN_IPC_INS0_CAN9_CHAN3, can_dev_port = CAN_DEV_PORT_9\<rparr>"
| "lib_set_can_ipc_handle (CAN_PORT_OTHER _) =
     \<lparr>can_port_instance = CAN_IPC_INS0_CAN5_CHAN4, can_dev_port = CAN_DEV_PORT_5\<rparr>"

lemma lib_get_can_dev_port_5 [simp]: "lib_get_can_dev_port p = slot_port Slot_5"
  by (cases p) simp_all

lemma lib_set_can_ipc_handle_name: "length (can_port_instance (lib_set_can_ipc_handle p)) < 16"
  by (cases p) (simp_all add: channel_names)

lemma lib_set_can_ipc_handle_slot: "\<exists>s. can_dev_port (lib_set_can_ipc_handle p) = slot_port s"
  by (cases p) (auto intro: exI [of _ Slot_5] exI [of _ Slot_6] exI [of _ Slot_7] exI [of _ Slot_8]
      exI [of _ Slot_9])

section \<open>The operations of the library\<close>

definition lib_can_send ::
  "'w hal \<Rightarrow> CAN_PORT_E \<Rightarrow> can_frame_t \<Rightarrow> 'w \<Rightarrow> (int \<times> 'w) res" where
  "lib_can_send h can_port frame w = send_can_data h (lib_set_can_ipc_handle can_port) frame w"

definition lib_test_can_send :: "'w hal \<Rightarrow> 'w \<Rightarrow> 'w res" where
  "lib_test_can_send h w = test_send_can_frame h w"

definition lib_can_register_can_filter ::
  "can_filter_t \<Rightarrow> 'cb option \<Rightarrow> 'cb CAN_IPC_RECEIVER \<Rightarrow> (int \<times> 'cb CAN_IPC_RECEIVER) res" where
  "lib_can_register_can_filter can_filter can_rx_callback r =
     register_can_filter
       \<lparr>ipcf_filter_id = flt_id can_filter, ipcf_filter_id_cnt = flt_id_cnt can_filter,
        ipcf_can_port = lib_get_can_dev_port (flt_can_port can_filter),
        ipcf_callback = can_rx_callback\<rparr> r"

definition lib_can_deregister_can_filter ::
  "can_filter_t \<Rightarrow> 'cb CAN_IPC_RECEIVER \<Rightarrow> (int \<times> 'cb CAN_IPC_RECEIVER) res" where
  "lib_can_deregister_can_filter can_filter r =
     deregister_can_filter
       \<lparr>ipcf_filter_id = flt_id can_filter, ipcf_filter_id_cnt = flt_id_cnt can_filter,
        ipcf_can_port = lib_get_can_dev_port (flt_can_port can_filter),
        ipcf_callback = None\<rparr> r"

definition lib_enable_can_receiver_port ::
  "CAN_PORT_E \<Rightarrow> 'cb CAN_IPC_RECEIVER \<Rightarrow> 'cb CAN_IPC_RECEIVER" where
  "lib_enable_can_receiver_port can_port r =
     enable_can_receiver_port (lib_set_can_ipc_handle can_port) r"

definition lib_start_can_ipc_receiver :: "'cb CAN_IPC_RECEIVER \<Rightarrow> 'cb CAN_IPC_RECEIVER" where
  "lib_start_can_ipc_receiver r = start_can_ipc_receiver r"

definition lib_pause_can_ipc_receiver :: "'cb CAN_IPC_RECEIVER \<Rightarrow> 'cb CAN_IPC_RECEIVER" where
  "lib_pause_can_ipc_receiver r = pause_can_ipc_receiver r"

definition lib_resume_can_ipc_receiver :: "'cb CAN_IPC_RECEIVER \<Rightarrow> 'cb CAN_IPC_RECEIVER" where
  "lib_resume_can_ipc_receiver r = resume_can_ipc_receiver r"

text \<open>
  Both filter operations of the layer, in terms of the table of port 5: whatever port the filter
  names, it is port 5 whose table changes.
\<close>

definition lib_filter :: "can_filter_t \<Rightarrow> 'cb option \<Rightarrow> 'cb CAN_IPC_FILTER_T" where
  "lib_filter flt cb =
     \<lparr>ipcf_filter_id = flt_id flt, ipcf_filter_id_cnt = flt_id_cnt flt,
      ipcf_can_port = CAN_DEV_PORT_5, ipcf_callback = cb\<rparr>"

lemma lib_filter_sel [simp]:
  "ipcf_filter_id (lib_filter flt cb) = flt_id flt"
  "ipcf_filter_id_cnt (lib_filter flt cb) = flt_id_cnt flt"
  "ipcf_callback (lib_filter flt cb) = cb"
  by (simp_all add: lib_filter_def)

lemma filter_args_lib:
  "filter_args (lib_filter flt cb) =
     (if flt_id_cnt flt = 0 then None else map_option (\<lambda>ids. (Slot_5, ids)) (flt_id flt))"
  by (simp add: filter_args_def lib_filter_def split: option.splits)

lemma lib_register_eq:
  "lib_can_register_can_filter flt cb r =
     (case filter_args (lib_filter flt cb) of
        None \<Rightarrow> Inr (- 4, r)
      | Some (_, ids) \<Rightarrow>
          res_bind (read_prefix ids (unat (flt_id_cnt flt))) (\<lambda>xs.
            Inr (0, set_table Slot_5
                      (table_register (lib_filter flt cb) xs (receiver_filter r Slot_5)) r)))"
proof -
  have "lib_can_register_can_filter flt cb r = register_can_filter (lib_filter flt cb) r"
    by (simp add: lib_can_register_can_filter_def lib_filter_def)
  then show ?thesis
    by (simp add: register_can_filter_eq filter_args_lib split: option.splits)
qed

lemma lib_deregister_eq:
  "lib_can_deregister_can_filter flt r =
     (case filter_args (lib_filter flt (None :: 'cb option)) of
        None \<Rightarrow> Inr (- 4, r)
      | Some (_, ids) \<Rightarrow>
          res_bind (read_prefix ids (unat (flt_id_cnt flt))) (\<lambda>xs.
            Inr (0, set_table Slot_5
                      (table_deregister xs (receiver_filter (r :: 'cb CAN_IPC_RECEIVER) Slot_5)) r)))"
proof -
  have "lib_can_deregister_can_filter flt r = deregister_can_filter (lib_filter flt None) r"
    by (simp add: lib_can_deregister_can_filter_def lib_filter_def)
  then show ?thesis
    by (simp add: deregister_can_filter_eq filter_args_lib split: option.splits)
qed

lemma lib_register_cases:
  assumes "lib_can_register_can_filter flt cb r = Inr (ret, r')"
  obtains "ret = - 4" "r' = r"
  | xs where "ret = 0" "r' = set_table Slot_5
      (table_register (lib_filter flt cb) xs (receiver_filter r Slot_5)) r"
  using assms by (auto simp: lib_register_eq res_simps split: option.splits)

lemma lib_deregister_cases:
  assumes "lib_can_deregister_can_filter flt r = Inr (ret, r')"
  obtains "ret = - 4" "r' = r"
  | xs where "ret = 0" "r' = set_table Slot_5 (table_deregister xs (receiver_filter r Slot_5)) r"
  using assms by (auto simp: lib_deregister_eq res_simps split: option.splits)

section \<open>Starting and ending the HAL\<close>

text \<open>
  What the file system answers: does the working directory exist, does the installed configuration
  exist and is it a directory, is there a \<open>config\<close> entry in the working directory, and does the
  creation of the link succeed.
\<close>

record file_system =
  current_path_exists :: bool
  so_path_exists :: bool
  so_path_is_directory :: bool
  config_exists :: bool
  symlink_succeeds :: bool

datatype 'a outcome = Throws string | Returns 'a

definition copy_ipc_config_data :: "file_system \<Rightarrow> (bool \<times> file_system) outcome" where
  "copy_ipc_config_data fs =
     (if \<not> current_path_exists fs then Throws ''Invaild execute path''
      else if \<not> so_path_exists fs \<and> \<not> config_exists fs \<and> \<not> so_path_is_directory fs
           then Throws ''Can not find corrent Shared Object file''
      else if config_exists fs then Returns (True, fs)
      else if symlink_succeeds fs then Returns (True, fs\<lparr>config_exists := True\<rparr>)
      else Returns (False, fs))"

definition init_can_dev :: "'w hal \<Rightarrow> file_system \<Rightarrow> 'w \<Rightarrow> (file_system \<times> 'w) outcome" where
  "init_can_dev h fs w =
     (case copy_ipc_config_data fs of
        Throws e \<Rightarrow> Throws e
      | Returns (is_ready, fs) \<Rightarrow>
          (if \<not> is_ready then Returns (fs, w) else Returns (fs, snd (canInit h w))))"

definition deinit_can_dev :: "'w hal \<Rightarrow> 'w \<Rightarrow> 'w" where
  "deinit_can_dev h w = canDeInit h w"

text \<open>
  The constructor and destructor, on the reference count shared by all instances. The count is
  raised before the initialisation and stays raised when that throws.
\<close>

definition new_CAN_IPC_LAYER_IMPL ::
  "'w hal \<Rightarrow> file_system \<Rightarrow> int \<Rightarrow> 'w \<Rightarrow> int \<times> (file_system \<times> 'w) outcome" where
  "new_CAN_IPC_LAYER_IMPL h fs can_dev_ref_count w =
     (can_dev_ref_count + 1,
      if can_dev_ref_count = 0 then init_can_dev h fs w else Returns (fs, w))"

definition delete_CAN_IPC_LAYER_IMPL :: "'w hal \<Rightarrow> int \<Rightarrow> 'w \<Rightarrow> int \<times> 'w" where
  "delete_CAN_IPC_LAYER_IMPL h can_dev_ref_count w =
     (can_dev_ref_count - 1,
      if can_dev_ref_count - 1 = 0 then deinit_can_dev h w else w)"

section \<open>Sending through the layer\<close>

text \<open>
  C32. Sending a frame on any port, valid or not, makes exactly one call of the HAL, on the channel
  of that port (port 5 for an unknown one), with one CAN frame that carries the identifier in
  reversed byte order, the flags, the channel number and the first bytes of the payload (as many
  as the length code stands for, then zeros), and returns what the HAL returns. The copies of the
  channel name and of the payload stay within bounds whatever the length code.
\<close>

theorem lib_can_send_frame:
  assumes "wf_frame f" and "64 \<le> sizeof_data h"
  shows "lib_can_send h p f w =
    Inr (canSendMsgFrame h (can_port_instance (lib_set_can_ipc_handle p))
          (tx_canframe h (fst (system_clock_ms h w)) (can_dev_port (lib_set_can_ipc_handle p)) f)
          single_pack (snd (system_clock_ms h w)))"
  unfolding lib_can_send_def
  by (rule send_can_data_frame [OF lib_set_can_ipc_handle_name assms])

theorem lib_can_send_frame_witness:
  "lib_can_send recording_hal CAN_PORT_7 zero_frame [] =
     Inr (1, [(''can7_ins0ch7'', tx_canframe recording_hal 1000 CAN_DEV_PORT_7 zero_frame)])"
  using lib_can_send_frame [of zero_frame recording_hal CAN_PORT_7 "[]"]
  by (simp add: channel_names recording_hal_def)

text \<open>
  A frame that is sent and comes back unchanged from the HAL is received with the same flags, the
  same payload up to its length, its length code (15 for the values above 15) and the identifier in
  reversed byte order: the sender swaps the bytes of the identifier and the receiver does not.
\<close>

theorem loopback_frame:
  assumes "wf_frame f" and "64 \<le> sizeof_data h"
  shows "frame_of_canframe (tx_canframe h now p f) =
    Inr \<lparr>frame_id = BSWAP_32 (frame_id f), frame_dlc = min (frame_dlc f) 15,
         frame_flags = frame_flags f,
         frame_data = pad_to 64 (take (unat (can_dlc_to_bytes (frame_dlc f))) (frame_data f))\<rparr>"
proof -
  let ?n = "unat (can_dlc_to_bytes (frame_dlc f))"
  have n: "?n \<le> 64" by (rule can_dlc_to_bytes_le_64)
  with assms have len: "?n \<le> length (frame_data f)" "?n \<le> sizeof_data h"
    by (simp_all add: wf_frame_def CANFD_MAX_DLEN_def)
  then have "frame_in_bounds (tx_canframe h now p f)"
    using n by (simp add: frame_in_bounds_def tx_canframe_def Let_def CANFD_MAX_DLEN_def)
  then have "frame_of_canframe (tx_canframe h now p f) = Inr (rx_frame (tx_canframe h now p f))"
    by (rule frame_of_canframe_ok)
  with len show ?thesis
    by (simp add: rx_frame_def tx_canframe_def Let_def can_dlc_roundtrip CANFD_MAX_DLEN_def)
qed

theorem loopback_frame_witness:
  "frame_of_canframe (tx_canframe recording_hal 0 CAN_DEV_PORT_5 (zero_frame\<lparr>frame_id := 0x82\<rparr>)) =
    Inr (zero_frame\<lparr>frame_id := BSWAP_32 0x82\<rparr>)"
  using loopback_frame [of "zero_frame\<lparr>frame_id := 0x82\<rparr>" recording_hal 0 CAN_DEV_PORT_5]
  by (simp add: wf_frame_def zero_frame_def recording_hal_def CANFD_MAX_DLEN_def
      can_dlc_to_bytes_def dlc_table_def pad_to_def min_def)

end
