(* ===== verification/Layer_Invariant.thy ===== *)
theory Layer_Invariant
  imports Layer_Impl
begin

text \<open>
  The states of the receiver that the operations of the layer and the rounds of the two threads can
  reach, their invariant, and what follows from it: the tables of the ports are consistent and the
  queue bounded, the copies of the channel names stay within bounds, and filters exist on port 5
  only. Also the reference count that brackets the use of the HAL.
\<close>

section \<open>The operations of the layer as steps\<close>

text \<open>
  One operation of the interface, one round of the receive task over arbitrary targets, or one round
  of the work queue task.
\<close>

inductive layer_step :: "'w hal \<Rightarrow> 'cb CAN_IPC_RECEIVER \<Rightarrow> 'cb CAN_IPC_RECEIVER \<Rightarrow> bool"
  for h :: "'w hal" where
  do_register: "lib_can_register_can_filter flt cb r = Inr (ret, r') \<Longrightarrow> layer_step h r r'"
| do_deregister: "lib_can_deregister_can_filter flt r = Inr (ret, r') \<Longrightarrow> layer_step h r r'"
| do_enable: "layer_step h r (lib_enable_can_receiver_port p r)"
| do_start: "layer_step h r (lib_start_can_ipc_receiver r)"
| do_pause: "layer_step h r (lib_pause_can_ipc_receiver r)"
| do_resume: "layer_step h r (lib_resume_can_ipc_receiver r)"
| do_receive: "receive_ipc_can_task h n ts r w = Inr (r', w') \<Longrightarrow> layer_step h r r'"
| do_work: "work_queue_task_round r = (round, r') \<Longrightarrow> layer_step h r r'"

definition layer_init :: "'cb CAN_IPC_RECEIVER \<Rightarrow> bool" where
  "layer_init r \<longleftrightarrow> r = new_CAN_IPC_RECEIVER"

definition queue_ok :: "'a WORK_QUEUE \<Rightarrow> bool" where
  "queue_ok q \<longleftrightarrow> wq_size q \<le> MAX_WORK_QUEUE_TASKS \<and> \<not> stopped q"

definition ports_ok :: "'cb CAN_IPC_RECEIVER \<Rightarrow> bool" where
  "ports_ok r \<longleftrightarrow> (\<forall>s. length (can_port_instance (port_instance r s)) < 16 \<and>
     (is_received_port r s \<longrightarrow> can_dev_port (port_instance r s) = slot_port s))"

definition only_port_5 :: "'cb CAN_IPC_RECEIVER \<Rightarrow> bool" where
  "only_port_5 r \<longleftrightarrow> (\<forall>s. s \<noteq> Slot_5 \<longrightarrow> port_registered r s = {#})"

definition layer_inv :: "'cb CAN_IPC_RECEIVER \<Rightarrow> bool" where
  "layer_inv r \<longleftrightarrow> wf_receiver r \<and> queue_ok (work_queue_handle r) \<and> ports_ok r \<and> only_port_5 r"

lemmas layer_inv_defs = layer_inv_def wf_receiver_def queue_ok_def ports_ok_def only_port_5_def
  port_registered_def

text \<open>An operation that keeps the tables, the ports and the queue's bound keeps the invariant.\<close>

lemma layer_inv_frame:
  assumes "layer_inv r" and "receiver_filter r' = receiver_filter r"
    and "port_instance r' = port_instance r" and "is_received_port r' = is_received_port r"
    and "queue_ok (work_queue_handle r')"
  shows "layer_inv r'"
  using assms by (simp add: layer_inv_defs)

lemma layer_inv_set_table:
  assumes "layer_inv r" and "wf_table t" and "rf_can_port t = CAN_DEV_PORT_5"
  shows "layer_inv (set_table Slot_5 t r)"
  using assms by (simp add: layer_inv_defs)

lemma queue_ok_enqueue: "queue_ok q \<Longrightarrow> queue_ok (snd (enqueue x q))"
  by (auto simp: queue_ok_def queue_ops)

lemma queue_ok_dequeue: "queue_ok q \<Longrightarrow> queue_ok (snd (dequeue_blocking q))"
  by (auto simp: queue_ok_def queue_ops split: list.splits)

lemma layer_inv_match: "layer_inv r \<Longrightarrow> layer_inv (snd (match_can_filter p f r))"
  by (rule layer_inv_frame [of r])
    (auto simp: match_can_filter_def layer_inv_def queue_ok_enqueue split: option.splits)

lemma layer_inv_rx_loop: "rx_loop n buf p r = Inr r' \<Longrightarrow> layer_inv r \<Longrightarrow> layer_inv r'"
  by (induction n buf p r rule: rx_loop.induct)
    (auto simp: res_simps layer_inv_match split: if_splits)

lemma layer_inv_get_raw:
  "get_raw_can_data h t r w = Inr (r', w') \<Longrightarrow> layer_inv r \<Longrightarrow> layer_inv r'"
  by (auto simp: get_raw_can_data_def Let_def case_prod_unfold res_simps
      intro: layer_inv_rx_loop split: if_splits)

lemma layer_inv_receive_pass:
  "receive_pass h ts r w = Inr (r', w') \<Longrightarrow> layer_inv r \<Longrightarrow> layer_inv r'"
  by (induction h ts r w rule: receive_pass.induct)
    (auto simp: res_simps split: if_splits, metis layer_inv_get_raw)

lemma layer_inv_receive:
  "receive_ipc_can_task h n ts r w = Inr (r', w') \<Longrightarrow> layer_inv r \<Longrightarrow> layer_inv r'"
  by (induction h n ts r w rule: receive_ipc_can_task.induct)
    (auto simp: res_simps split: if_splits, metis layer_inv_receive_pass)

lemma layer_inv_register:
  assumes "lib_can_register_can_filter flt cb r = Inr (ret, r')" and inv: "layer_inv r"
  shows "layer_inv r'"
  using assms(1)
proof (cases rule: lib_register_cases)
  case (2 xs)
  have "wf_receiver r" using inv by (simp add: layer_inv_def)
  with 2 inv show ?thesis by (simp add: layer_inv_set_table ft.ok_reg wf_receiverD)
qed (use inv in simp)

lemma layer_inv_deregister:
  assumes "lib_can_deregister_can_filter flt r = Inr (ret, r')" and inv: "layer_inv r"
  shows "layer_inv r'"
  using assms(1)
proof (cases rule: lib_deregister_cases)
  case (2 xs)
  have "wf_receiver r" using inv by (simp add: layer_inv_def)
  with 2 inv show ?thesis by (simp add: layer_inv_set_table ft.ok_dereg wf_receiverD)
qed (use inv in simp)

lemma layer_inv_enable: "layer_inv r \<Longrightarrow> layer_inv (lib_enable_can_receiver_port p r)"
  using lib_set_can_ipc_handle_name [of p] lib_set_can_ipc_handle_slot [of p]
  by (auto simp: layer_inv_defs lib_enable_can_receiver_port_def enable_can_receiver_port_def Let_def)

lemma layer_inv_control:
  "layer_inv r \<Longrightarrow> layer_inv (lib_start_can_ipc_receiver r)"
  "layer_inv r \<Longrightarrow> layer_inv (lib_pause_can_ipc_receiver r)"
  "layer_inv r \<Longrightarrow> layer_inv (lib_resume_can_ipc_receiver r)"
  by (simp_all add: layer_inv_defs lib_start_can_ipc_receiver_def lib_pause_can_ipc_receiver_def
      lib_resume_can_ipc_receiver_def receiver_control clear_queue_eq wq_size_def)

lemma layer_inv_work:
  "work_queue_task_round r = (round, r') \<Longrightarrow> layer_inv r \<Longrightarrow> layer_inv r'"
  using queue_ok_dequeue [of "work_queue_handle r"]
  by (auto simp: work_queue_task_round_def layer_inv_defs
      split: if_splits prod.splits deq_result.splits)

lemma layer_inv_step: "layer_inv r \<Longrightarrow> layer_step h r r' \<Longrightarrow> layer_inv r'"
  by (erule layer_step.cases)
    (auto intro: layer_inv_register layer_inv_deregister layer_inv_enable layer_inv_control
      layer_inv_receive layer_inv_work)

lemma layer_inv_init: "layer_init r \<Longrightarrow> layer_inv r"
  unfolding layer_init_def layer_inv_def queue_ok_def ports_ok_def only_port_5_def
  by (simp add: wf_new_receiver)
    (simp add: new_CAN_IPC_RECEIVER_def init_can_filter_def static_CAN_IPC_RECEIVER_def
      new_WORK_QUEUE_def wq_size_def default_CAN_IPC_CONFIG_T_def channel_names)

interpretation layer: invariant_system layer_init "layer_step h" layer_inv for h
  by unfold_locales (auto intro: layer_inv_init layer_inv_step)

text \<open>
  The invariant of the receiver, in every state that the operations of the layer and its two
  tasks can reach: the two tables of each port hold the same identifiers with positive counts, the
  queue holds at most 10000 tasks, every polled port has a configuration for that port, and the
  receive task can copy all channel names into its arrays.
\<close>

theorem layer_invariant:
  assumes "reach layer_init (layer_step h) r"
  shows "wf_receiver r \<and> wq_size (work_queue_handle r) \<le> MAX_WORK_QUEUE_TASKS \<and>
    (\<forall>s. is_received_port r s \<longrightarrow> can_dev_port (port_instance r s) = slot_port s) \<and>
    isOK (receive_task_targets r)"
proof -
  have inv: "layer_inv r" using assms by (rule layer.reach_inv)
  then have "make_target (port_instance r s) =
      Inr \<lparr>target_instance = can_port_instance (port_instance r s),
           can_port_index = uint (dev_port_u8 (can_dev_port (port_instance r s)))\<rparr>" for s
    by (simp add: layer_inv_defs make_target_def)
  then have "isOK (receive_task_targets r)"
    by (simp add: receive_task_targets_def all_slots_def)
  with inv show ?thesis by (simp add: layer_inv_def queue_ok_def ports_ok_def)
qed

lemma reach_enabled_started:
  "reach layer_init (layer_step recording_hal)
     (lib_start_can_ipc_receiver (lib_enable_can_receiver_port CAN_PORT_5
        (new_CAN_IPC_RECEIVER :: nat CAN_IPC_RECEIVER)))"
proof -
  let ?r = "new_CAN_IPC_RECEIVER :: nat CAN_IPC_RECEIVER"
  have "reach layer_init (layer_step recording_hal) ?r"
    by (rule reach_init) (simp add: layer_init_def)
  then have "reach layer_init (layer_step recording_hal) (lib_enable_can_receiver_port CAN_PORT_5 ?r)"
    by (rule reach_step) (rule do_enable)
  then show ?thesis by (rule reach_step) (rule do_start)
qed

theorem layer_invariant_witness:
  "isOK (receive_task_targets (lib_start_can_ipc_receiver (lib_enable_can_receiver_port CAN_PORT_5
     (new_CAN_IPC_RECEIVER :: nat CAN_IPC_RECEIVER))))"
  using layer_invariant [OF reach_enabled_started] by blast

text \<open>
  C39. Frames that arrive on the ports 6 to 9 are never delivered: the layer registers every filter on
  port 5, so in every reachable state the tables of the other ports are empty and matching a frame
  that came in on one of them queues no task.
\<close>

theorem other_ports_never_deliver:
  assumes "reach layer_init (layer_step h) r" and "s \<noteq> Slot_5"
  shows "match_can_filter (slot_port s) f r = (RET_CODE_SUCCESS, r)"
proof -
  have inv: "layer_inv r" using assms(1) by (rule layer.reach_inv)
  then have "wf_table (receiver_filter r s)" and "registered (receiver_filter r s) = {#}"
    using assms(2) by (simp_all add: layer_inv_defs)
  then have "can_ipc_filter_map (receiver_filter r s) (frame_id f) = None"
    using registered_iff [of "receiver_filter r s" "frame_id f"] by simp
  then show ?thesis by (simp add: match_can_filter_def)
qed

theorem other_ports_never_deliver_witness:
  "match_can_filter CAN_DEV_PORT_6 zero_frame
     (lib_start_can_ipc_receiver (lib_enable_can_receiver_port CAN_PORT_5
        (new_CAN_IPC_RECEIVER :: nat CAN_IPC_RECEIVER))) =
   (0, lib_start_can_ipc_receiver (lib_enable_can_receiver_port CAN_PORT_5 new_CAN_IPC_RECEIVER))"
  using other_ports_never_deliver [OF reach_enabled_started, of Slot_6 zero_frame] by simp

end
