(* ===== verification/Controller.thy ===== *)
theory Controller
  imports Wire Client_Manager Layer_Invariant
begin

text \<open>
  The socket service of \<^verbatim>\<open>src/core/ipc_socket_controller.cpp\<close>: the handler of one client, the
  callback that writes received frames to the subscribed clients, the accept loop, and starting
  and stopping the service.

  The state is that of the singleton and of the objects behind it. What the operating system is
  asked to do is appended to \<open>io_log\<close> in the order of the calls; what it answers is an argument.
\<close>

section \<open>State\<close>

text \<open>The only callback that the service registers.\<close>

datatype rx_callback = Socket_Receive_Callback

datatype io_event =
    Io_Unlink string
  | Io_Mkdir string
  | Io_Bind int string
  | Io_Listen int nat
  | Io_Chmod string
  | Io_Shutdown int
  | Io_Close int
  | Io_Write int "u8 list"
  | Io_Exit int

record 'w controller =
  ctl_is_running :: bool
  service_socket :: int
  socket_client_manager :: CAN_IPC_SOCKET_CLIENT_MANAGER_T
  can_ipc_receiver :: "rx_callback CAN_IPC_RECEIVER"
  hal_world :: 'w
  client_threads :: "int list"
  io_log :: "io_event list"

definition new_controller ::
  "CAN_IPC_SOCKET_CLIENT_MANAGER_T \<Rightarrow> rx_callback CAN_IPC_RECEIVER \<Rightarrow> 'w \<Rightarrow> 'w controller" where
  "new_controller m r w =
     \<lparr>ctl_is_running = True, service_socket = 0,
      socket_client_manager = init_socket_client_manager m, can_ipc_receiver = r,
      hal_world = w, client_threads = [], io_log = []\<rparr>"

definition io :: "io_event list \<Rightarrow> 'w controller \<Rightarrow> 'w controller" where
  "io es ctl = ctl\<lparr>io_log := io_log ctl @ es\<rparr>"

text \<open>\<open>write\<close> of a whole package. Its result decides about a log message only.\<close>

definition write_package :: "int \<Rightarrow> SOCKET_PACKAGE_T \<Rightarrow> 'w controller \<Rightarrow> 'w controller" where
  "write_package fd pkg = io [Io_Write fd (encode_package pkg)]"

section \<open>The calls into the library layer\<close>

definition direct_can_send ::
  "'w hal \<Rightarrow> CAN_PORT_E \<Rightarrow> can_frame_t \<Rightarrow> 'w controller \<Rightarrow> (int \<times> 'w controller) res" where
  "direct_can_send h can_port frame ctl =
     res_bind (lib_can_send h can_port frame (hal_world ctl)) (\<lambda>(ret, w).
       Inr (ret, ctl\<lparr>hal_world := w\<rparr>))"

definition direct_test_can_send :: "'w hal \<Rightarrow> 'w controller \<Rightarrow> 'w controller res" where
  "direct_test_can_send h ctl =
     res_bind (lib_test_can_send h (hal_world ctl)) (\<lambda>w. Inr (ctl\<lparr>hal_world := w\<rparr>))"

definition direct_can_register_can_filter ::
  "can_filter_t \<Rightarrow> rx_callback option \<Rightarrow> 'w controller \<Rightarrow> (int \<times> 'w controller) res" where
  "direct_can_register_can_filter can_filter cb ctl =
     res_bind (lib_can_register_can_filter can_filter cb (can_ipc_receiver ctl)) (\<lambda>(ret, r).
       Inr (ret, ctl\<lparr>can_ipc_receiver := r\<rparr>))"

definition direct_can_deregister_can_filter ::
  "can_filter_t \<Rightarrow> 'w controller \<Rightarrow> (int \<times> 'w controller) res" where
  "direct_can_deregister_can_filter can_filter ctl =
     res_bind (lib_can_deregister_can_filter can_filter (can_ipc_receiver ctl)) (\<lambda>(ret, r).
       Inr (ret, ctl\<lparr>can_ipc_receiver := r\<rparr>))"

definition on_receiver ::
  "(rx_callback CAN_IPC_RECEIVER \<Rightarrow> rx_callback CAN_IPC_RECEIVER) \<Rightarrow> 'w controller \<Rightarrow> 'w controller" where
  "on_receiver f ctl = ctl\<lparr>can_ipc_receiver := f (can_ipc_receiver ctl)\<rparr>"

definition direct_enable_can_receiver_port :: "CAN_PORT_E \<Rightarrow> 'w controller \<Rightarrow> 'w controller" where
  "direct_enable_can_receiver_port can_port = on_receiver (lib_enable_can_receiver_port can_port)"

definition direct_start_can_ipc_receiver :: "'w controller \<Rightarrow> 'w controller" where
  "direct_start_can_ipc_receiver = on_receiver lib_start_can_ipc_receiver"

definition direct_pause_can_ipc_receiver :: "'w controller \<Rightarrow> 'w controller" where
  "direct_pause_can_ipc_receiver = on_receiver lib_pause_can_ipc_receiver"

definition direct_resume_can_ipc_receiver :: "'w controller \<Rightarrow> 'w controller" where
  "direct_resume_can_ipc_receiver = on_receiver lib_resume_can_ipc_receiver"

section \<open>The receive callback\<close>

definition receive_package :: "can_frame_t \<Rightarrow> SOCKET_PACKAGE_T" where
  "receive_package frame =
     zero_package\<lparr>socket_magic_code := SOCKET_MAGIC_CODE,
                  socket_order := SOCKET_ORDER_AS_RECEIVE, pkg_can_frame := frame\<rparr>"

fun write_clients :: "int list \<Rightarrow> SOCKET_PACKAGE_T \<Rightarrow> 'w controller \<Rightarrow> 'w controller" where
  "write_clients [] pkg ctl = ctl"
| "write_clients (fd # fds) pkg ctl =
     write_clients fds pkg (if fd < 0 then ctl else write_package fd pkg ctl)"

definition socket_receive_callback :: "can_frame_t \<Rightarrow> 'w controller \<Rightarrow> 'w controller" where
  "socket_receive_callback frame ctl =
     (case map_of (socket_client_reverse_index (socket_client_manager ctl)) (frame_id frame) of
        None \<Rightarrow> ctl
      | Some clients \<Rightarrow> write_clients clients (receive_package frame) ctl)"

text \<open>
  One round of the worker thread of the receiver: it takes a task from the queue and runs it. The
  task calls the callback through its pointer.
\<close>

definition run_task :: "rx_callback task \<Rightarrow> 'w controller \<Rightarrow> 'w controller res" where
  "run_task task ctl =
     (case task of
        (None, _) \<Rightarrow> Inl Null_Pointer
      | (Some Socket_Receive_Callback, frame) \<Rightarrow> Inr (socket_receive_callback frame ctl))"

definition worker_round :: "'w controller \<Rightarrow> 'w controller res" where
  "worker_round ctl =
     (case work_queue_task_round (can_ipc_receiver ctl) of
        (Round_Run task, r) \<Rightarrow> run_task task (ctl\<lparr>can_ipc_receiver := r\<rparr>)
      | (_, r) \<Rightarrow> Inr (ctl\<lparr>can_ipc_receiver := r\<rparr>))"

text \<open>One pass of the receive thread over the ports.\<close>

definition receiver_round ::
  "'w hal \<Rightarrow> (port_slot \<times> can_port_target_t) list \<Rightarrow> 'w controller \<Rightarrow> 'w controller res" where
  "receiver_round h ts ctl =
     res_bind (receive_ipc_can_task h 1 ts (can_ipc_receiver ctl) (hal_world ctl)) (\<lambda>(r, w).
       Inr (ctl\<lparr>can_ipc_receiver := r, hal_world := w\<rparr>))"

section \<open>The handler of one client\<close>

text \<open>The filter that a package carries: its identifiers are the array inside the package.\<close>

definition package_filter :: "SOCKET_PACKAGE_T \<Rightarrow> can_filter_t" where
  "package_filter pkg =
     \<lparr>flt_can_port = pkg_can_port pkg, flt_id = Some (can_filter_id pkg),
      flt_id_cnt = can_filter_cnt pkg\<rparr>"

definition ack_package :: "SOCKET_PACKAGE_T \<Rightarrow> int \<Rightarrow> SOCKET_PACKAGE_T" where
  "ack_package pkg ret =
     pkg\<lparr>socket_order := SOCKET_ORDER_AS_ACK,
         socket_ack := (if ret = 0 then ACK_OKAY else ACK_ERROR),
         socket_ack_for_order := socket_order pkg\<rparr>"

definition handle_send :: "'w hal \<Rightarrow> SOCKET_PACKAGE_T \<Rightarrow> 'w controller \<Rightarrow> 'w controller res" where
  "handle_send h pkg ctl =
     res_bind (direct_can_send h (pkg_can_port pkg) (pkg_can_frame pkg) ctl) (\<lambda>(_, ctl). Inr ctl)"

definition handle_add_filter :: "int \<Rightarrow> SOCKET_PACKAGE_T \<Rightarrow> 'w controller \<Rightarrow> 'w controller res" where
  "handle_add_filter client_socket pkg ctl =
     (let ctl = direct_pause_can_ipc_receiver ctl;
          temp_filter = package_filter pkg
      in res_bind (client_manager_register temp_filter client_socket (socket_client_manager ctl))
           (\<lambda>m. res_bind (direct_can_register_can_filter temp_filter (Some Socket_Receive_Callback)
                            (ctl\<lparr>socket_client_manager := m\<rparr>))
             (\<lambda>(ret, ctl).
               Inr (direct_resume_can_ipc_receiver
                      (write_package client_socket (ack_package pkg ret) ctl)))))"

definition handle_remove_filter ::
  "int \<Rightarrow> SOCKET_PACKAGE_T \<Rightarrow> 'w controller \<Rightarrow> 'w controller res" where
  "handle_remove_filter client_socket pkg ctl =
     (let ctl = direct_pause_can_ipc_receiver ctl;
          temp_filter = package_filter pkg
      in res_bind (client_manager_deregister temp_filter client_socket (socket_client_manager ctl))
           (\<lambda>m. res_bind (direct_can_deregister_can_filter temp_filter
                            (ctl\<lparr>socket_client_manager := m\<rparr>))
             (\<lambda>(ret, ctl).
               Inr (direct_resume_can_ipc_receiver
                      (write_package client_socket (ack_package pkg ret) ctl)))))"

definition handle_package ::
  "'w hal \<Rightarrow> int \<Rightarrow> SOCKET_PACKAGE_T \<Rightarrow> 'w controller \<Rightarrow> 'w controller res" where
  "handle_package h client_socket pkg ctl =
     (case socket_order pkg of
        SOCKET_ORDER_AS_SEND \<Rightarrow> handle_send h pkg ctl
      | SOCKET_ORDER_AS_ADD_FILTER \<Rightarrow> handle_add_filter client_socket pkg ctl
      | SOCKET_ORDER_AS_REMOVE_FILTER \<Rightarrow> handle_remove_filter client_socket pkg ctl
      | _ \<Rightarrow> Inr ctl)"

text \<open>
  How a handler ends: through its last lines, by the early return for a wrong magic code, or not
  yet (it waits in \<open>read\<close>).
\<close>

datatype client_end = Client_Disconnected | Client_Dropped | Client_Waiting

definition hang_up :: "int \<Rightarrow> 'w controller \<Rightarrow> 'w controller" where
  "hang_up client_socket ctl =
     io [Io_Close client_socket]
       (ctl\<lparr>socket_client_manager :=
              clean_socket_client_index client_socket (socket_client_manager ctl)\<rparr>)"

text \<open>A read that returns something positive has consumed at least one event.\<close>

lemma read_full_consumes:
  assumes "read_full n es = Read_Done r bs rest" and "0 < r"
  shows "length rest < length es"
proof (cases es)
  case Nil
  with assms show ?thesis by (simp add: read_full_def split: if_splits)
next
  case (Cons e es')
  have "bs \<noteq> [] \<and> length bs \<le> n"
    using read_full_loop_result [of n "[]" es r bs rest] assms by (auto simp: read_full_def)
  then have n: "0 < n" by (cases bs) auto
  show ?thesis
  proof (cases e)
    case (Read_Bytes b)
    with Cons n assms show ?thesis
      using read_full_loop_result [of n "take n b" es' r bs rest]
      by (auto simp: read_full_def Let_def split: if_splits)
  next
    case Read_Interrupted
    with Cons n assms show ?thesis
      using read_full_loop_result [of n "[]" es' r bs rest] by (auto simp: read_full_def)
  next
    case Read_Failed
    with Cons n assms show ?thesis by (auto simp: read_full_def)
  qed
qed

function handle_client ::
  "'w hal \<Rightarrow> int \<Rightarrow> read_event list \<Rightarrow> 'w controller \<Rightarrow>
     (client_end \<times> read_event list \<times> 'w controller) res" where
  "handle_client h client_socket es ctl =
     (if \<not> ctl_is_running ctl then Inr (Client_Disconnected, es, hang_up client_socket ctl)
      else (case read_full sizeof_package es of
              Read_Waiting \<Rightarrow> Inr (Client_Waiting, [], ctl)
            | Read_Done package_read bs rest \<Rightarrow>
                (if package_read \<le> 0
                 then Inr (Client_Disconnected, rest, hang_up client_socket ctl)
                 else (let socket_package = decode_package (pad_to sizeof_package bs)
                       in if socket_magic_code socket_package \<noteq> SOCKET_MAGIC_CODE
                          then Inr (Client_Dropped, rest, ctl)
                          else res_bind (handle_package h client_socket socket_package ctl)
                                 (\<lambda>ctl. handle_client h client_socket rest ctl)))))"
  by pat_completeness auto
termination
  by (relation "measure (\<lambda>(_, _, es, _). length es)") (auto dest: read_full_consumes)

declare handle_client.simps [simp del]

end
