(* ===== verification/Controller_Correct.thy ===== *)
theory Controller_Correct
  imports Controller
begin

text \<open>
  Correctness of the socket service, one operation at a time: which clients a received frame is
  written to, what each order of a client does to the subscriptions, the filters and the log, which
  packages are outside the defined behaviour, and what the handler makes of the bytes of a session.
\<close>

section \<open>The log and the framing of the operations\<close>

lemma io_simps [simp]:
  "ctl_is_running (io es ctl) = ctl_is_running ctl"
  "service_socket (io es ctl) = service_socket ctl"
  "socket_client_manager (io es ctl) = socket_client_manager ctl"
  "can_ipc_receiver (io es ctl) = can_ipc_receiver ctl"
  "hal_world (io es ctl) = hal_world ctl"
  "client_threads (io es ctl) = client_threads ctl"
  "io_log (io es ctl) = io_log ctl @ es"
  "io [] ctl = ctl"
  "io es (io ds ctl) = io (ds @ es) ctl"
  by (simp_all add: io_def)

lemma on_receiver_simps [simp]:
  "ctl_is_running (on_receiver f ctl) = ctl_is_running ctl"
  "service_socket (on_receiver f ctl) = service_socket ctl"
  "socket_client_manager (on_receiver f ctl) = socket_client_manager ctl"
  "can_ipc_receiver (on_receiver f ctl) = f (can_ipc_receiver ctl)"
  "hal_world (on_receiver f ctl) = hal_world ctl"
  "client_threads (on_receiver f ctl) = client_threads ctl"
  "io_log (on_receiver f ctl) = io_log ctl"
  by (simp_all add: on_receiver_def)

lemmas direct_receiver = direct_enable_can_receiver_port_def direct_start_can_ipc_receiver_def
  direct_pause_can_ipc_receiver_def direct_resume_can_ipc_receiver_def

lemmas lib_control = lib_start_can_ipc_receiver_def lib_pause_can_ipc_receiver_def
  lib_resume_can_ipc_receiver_def lib_enable_can_receiver_port_def

lemma pause_resume_frame [simp]:
  "receiver_filter (lib_pause_can_ipc_receiver r) = receiver_filter r"
  "receiver_filter (lib_resume_can_ipc_receiver r) = receiver_filter r"
  "work_queue_handle (lib_pause_can_ipc_receiver r) = work_queue_handle r"
  "work_queue_handle (lib_resume_can_ipc_receiver r) = work_queue_handle r"
  by (simp_all add: lib_control receiver_control)

section \<open>The receive callback\<close>

text \<open>The writes that one frame gives rise to, and its state afterwards.\<close>

definition frame_writes :: "CAN_IPC_SOCKET_CLIENT_MANAGER_T \<Rightarrow> can_frame_t \<Rightarrow> io_event list" where
  "frame_writes m frame =
     map (\<lambda>fd. Io_Write fd (encode_package (receive_package frame)))
       (filter (\<lambda>fd. 0 \<le> fd) (receivers m (frame_id frame)))"

lemma write_clients_io:
  "write_clients fds pkg ctl =
     io (map (\<lambda>fd. Io_Write fd (encode_package pkg)) (filter (\<lambda>fd. 0 \<le> fd) fds)) ctl"
  by (induction fds arbitrary: ctl) (simp_all add: write_package_def not_less)

lemma socket_receive_callback_io:
  "socket_receive_callback frame ctl = io (frame_writes (socket_client_manager ctl) frame) ctl"
  by (simp add: socket_receive_callback_def frame_writes_def receivers_def umap_at_def
      write_clients_io split: option.split)

lemma wf_receive_package: "wf_frame frame \<Longrightarrow> wf_package (receive_package frame)"
  using wf_zero(2)
  by (simp add: wf_package_def receive_package_def canonical_order_def order_of_raw_def)

text \<open>
  C9. A received frame is written to each client subscribed to its identifier, once, in ascending
  order of the descriptors and to nobody else, and each of them decodes from the bytes a package
  with the magic code, the order \<open>RECEIVE\<close> and the frame, unchanged.
\<close>

theorem callback_writes_to_subscribers:
  assumes "reverse_ok (socket_client_manager ctl)" and "wf_frame frame"
    and "\<And>c. (c, frame_id frame) \<in> subscribed (socket_client_manager ctl) \<Longrightarrow> 0 \<le> c"
  shows "\<exists>clients bytes.
    io_log (socket_receive_callback frame ctl) = io_log ctl @ map (\<lambda>c. Io_Write c bytes) clients \<and>
    sorted clients \<and> distinct clients \<and>
    set clients = {c. (c, frame_id frame) \<in> subscribed (socket_client_manager ctl)} \<and>
    decode_package bytes = zero_package\<lparr>socket_magic_code := SOCKET_MAGIC_CODE,
      socket_order := SOCKET_ORDER_AS_RECEIVE, pkg_can_frame := frame\<rparr>"
proof -
  let ?clients = "receivers (socket_client_manager ctl) (frame_id frame)"
  have set: "set ?clients = {c. (c, frame_id frame) \<in> subscribed (socket_client_manager ctl)}"
    using assms(1) by (rule set_receivers)
  with assms(3) have "filter (\<lambda>fd. 0 \<le> fd) ?clients = ?clients"
    by (intro filter_True) simp
  moreover have "oset ?clients" using assms(1) by (simp add: reverse_ok_def)
  moreover have "decode_package (encode_package (receive_package frame)) = receive_package frame"
    using assms(2) by (intro decode_encode wf_receive_package)
  ultimately show ?thesis
    using set unfolding socket_receive_callback_io frame_writes_def oset_def
    by (intro exI [of _ ?clients] exI [of _ "encode_package (receive_package frame)"])
      (simp add: receive_package_def)
qed

definition sample_manager :: CAN_IPC_SOCKET_CLIENT_MANAGER_T where
  "sample_manager =
     \<lparr>socket_client_index = [(9, [2]), (7, [1, 2])],
      socket_client_reverse_index = [(1, [7]), (2, [7, 9])]\<rparr>"

definition sample_controller :: "nat controller" where
  "sample_controller =
     (new_controller sample_manager new_CAN_IPC_RECEIVER 0)\<lparr>socket_client_manager := sample_manager\<rparr>"

lemma sample_manager_ok:
  "reverse_ok sample_manager" "wf_index (socket_client_index sample_manager)"
  "subscribed sample_manager = {(9, 2), (7, 1), (7, 2)}"
  by (auto simp: reverse_ok_def subscribed_def receivers_def umap_at_def oset_def sample_manager_def
      wf_index_def split: if_splits)

theorem callback_writes_to_subscribers_witness:
  "\<exists>clients bytes.
    io_log (socket_receive_callback (zero_frame\<lparr>frame_id := 2\<rparr>) sample_controller) =
      map (\<lambda>c. Io_Write c bytes) clients \<and> set clients = {7, 9}"
proof -
  have log: "io_log sample_controller = []" and
    man: "socket_client_manager sample_controller = sample_manager"
    by (simp_all add: sample_controller_def new_controller_def)
  let ?f = "zero_frame\<lparr>frame_id := 2\<rparr>"
  have ok: "reverse_ok (socket_client_manager sample_controller)"
    by (simp add: man sample_manager_ok)
  have wf: "wf_frame ?f" by (simp add: wf_frame_def zero_frame_def)
  have pos: "0 \<le> c" if "(c, frame_id ?f) \<in> subscribed (socket_client_manager sample_controller)" for c
    using that by (auto simp: man sample_manager_ok)
  have "{c. (c, frame_id ?f) \<in> subscribed (socket_client_manager sample_controller)} = {7, 9}"
    by (auto simp: man sample_manager_ok)
  with callback_writes_to_subscribers [OF ok wf pos] show ?thesis
    unfolding log by fastforce
qed

section \<open>The orders of a client\<close>

definition package_ids :: "SOCKET_PACKAGE_T \<Rightarrow> u32 list" where
  "package_ids pkg = take (unat (can_filter_cnt pkg)) (can_filter_id pkg)"

text \<open>The return code of both filter operations for a package.\<close>

definition filter_ret :: "SOCKET_PACKAGE_T \<Rightarrow> int" where
  "filter_ret pkg = (if can_filter_cnt pkg = 0 then - RET_CODE_INVALID_ARG else RET_CODE_SUCCESS)"

lemma package_filter_sel [simp]:
  "flt_can_port (package_filter pkg) = pkg_can_port pkg"
  "flt_id (package_filter pkg) = Some (can_filter_id pkg)"
  "flt_id_cnt (package_filter pkg) = can_filter_cnt pkg"
  by (simp_all add: package_filter_def)

lemma length_can_filter_id [simp]: "wf_package pkg \<Longrightarrow> length (can_filter_id pkg) = 32"
  by (simp add: wf_package_def)

lemma read_package_ids:
  assumes "wf_package pkg"
  shows "read_prefix (can_filter_id pkg) (unat (can_filter_cnt pkg)) =
    (if unat (can_filter_cnt pkg) \<le> 32 then Inr (package_ids pkg) else Inl Array_Bounds)"
  using assms by (simp add: package_ids_def read_prefix_def)

lemma filter_ids_package:
  assumes "wf_package pkg"
  shows "filter_ids (package_filter pkg) =
    (if unat (can_filter_cnt pkg) \<le> 32 then Inr (package_ids pkg) else Inl Array_Bounds)"
  using assms by (simp add: filter_ids_def read_package_ids)

definition registered_receiver ::
  "SOCKET_PACKAGE_T \<Rightarrow> 'cb CAN_IPC_RECEIVER \<Rightarrow> 'cb option \<Rightarrow> 'cb CAN_IPC_RECEIVER" where
  "registered_receiver pkg r cb =
     set_table Slot_5 (table_register (lib_filter (package_filter pkg) cb) (package_ids pkg)
       (receiver_filter r Slot_5)) r"

definition deregistered_receiver ::
  "SOCKET_PACKAGE_T \<Rightarrow> 'cb CAN_IPC_RECEIVER \<Rightarrow> 'cb CAN_IPC_RECEIVER" where
  "deregistered_receiver pkg r =
     set_table Slot_5 (table_deregister (package_ids pkg) (receiver_filter r Slot_5)) r"

lemma table_register_Nil [simp]: "table_register f [] t = t"
  by (simp add: table_register_def)

lemma register_package:
  assumes "wf_package pkg"
  shows "lib_can_register_can_filter (package_filter pkg) cb r =
    (if unat (can_filter_cnt pkg) \<le> 32 then Inr (filter_ret pkg, registered_receiver pkg r cb)
     else Inl Array_Bounds)"
  using assms
  by (auto simp: lib_register_eq filter_args_lib filter_ret_def
      registered_receiver_def package_ids_def)

lemma deregister_package:
  assumes "wf_package pkg"
  shows "lib_can_deregister_can_filter (package_filter pkg) r =
    (if unat (can_filter_cnt pkg) \<le> 32 then Inr (filter_ret pkg, deregistered_receiver pkg r)
     else Inl Array_Bounds)"
  using assms
  by (auto simp: lib_deregister_eq filter_args_lib filter_ret_def
      deregistered_receiver_def package_ids_def)

text \<open>The manager after a removal, the early return for an unknown client included.\<close>

definition removed_manager ::
  "int \<Rightarrow> u32 list \<Rightarrow> CAN_IPC_SOCKET_CLIENT_MANAGER_T \<Rightarrow> CAN_IPC_SOCKET_CLIENT_MANAGER_T" where
  "removed_manager c ids m =
     (if map_of (socket_client_index m) c = None then m else manager_remove c ids m)"

lemma subscribed_removed:
  assumes "wf_index (socket_client_index m)"
  shows "wf_index (socket_client_index (removed_manager c ids m)) \<and>
    subscribed (removed_manager c ids m) = subscribed m - {c} \<times> set ids"
  using assms cm.wf_rm [OF assms] cm.subs_rm [OF assms]
  by (auto simp: removed_manager_def) (auto simp: in_subscribed umap_at_def)

definition acked :: "int \<Rightarrow> SOCKET_PACKAGE_T \<Rightarrow> 'w controller \<Rightarrow> 'w controller" where
  "acked c pkg ctl =
     on_receiver lib_resume_can_ipc_receiver
       (io [Io_Write c (encode_package (ack_package pkg (filter_ret pkg)))] ctl)"

lemma handle_add_filter_eq:
  assumes "wf_package pkg"
  shows "handle_add_filter c pkg ctl =
    (if unat (can_filter_cnt pkg) \<le> 32
     then Inr (acked c pkg
       (ctl\<lparr>socket_client_manager := manager_add c (package_ids pkg) (socket_client_manager ctl),
            can_ipc_receiver := registered_receiver pkg
              (lib_pause_can_ipc_receiver (can_ipc_receiver ctl)) (Some Socket_Receive_Callback)\<rparr>))
     else Inl Array_Bounds)"
  using assms
  by (simp add: handle_add_filter_def Let_def client_manager_register_def filter_ids_package
      direct_can_register_can_filter_def register_package direct_receiver acked_def
      write_package_def on_receiver_def)

lemma handle_remove_filter_eq:
  assumes "wf_package pkg"
  shows "handle_remove_filter c pkg ctl =
    (if unat (can_filter_cnt pkg) \<le> 32
     then Inr (acked c pkg
       (ctl\<lparr>socket_client_manager := removed_manager c (package_ids pkg) (socket_client_manager ctl),
            can_ipc_receiver := deregistered_receiver pkg
              (lib_pause_can_ipc_receiver (can_ipc_receiver ctl))\<rparr>))
     else Inl Array_Bounds)"
  using assms
  by (auto simp: handle_remove_filter_def Let_def client_manager_deregister_def filter_ids_package
      direct_can_deregister_can_filter_def deregister_package direct_receiver acked_def
      write_package_def on_receiver_def removed_manager_def)

text \<open>The state of the HAL after the frame of a package has been sent.\<close>

definition sent_world :: "'w hal \<Rightarrow> SOCKET_PACKAGE_T \<Rightarrow> 'w \<Rightarrow> 'w" where
  "sent_world h pkg w =
     (let config = lib_set_can_ipc_handle (pkg_can_port pkg) in
      snd (canSendMsgFrame h (can_port_instance config)
        (tx_canframe h (fst (system_clock_ms h w)) (can_dev_port config) (pkg_can_frame pkg))
        single_pack (snd (system_clock_ms h w))))"

lemma handle_send_eq:
  assumes "wf_package pkg" and "64 \<le> sizeof_data h"
  shows "handle_send h pkg ctl = Inr (ctl\<lparr>hal_world := sent_world h pkg (hal_world ctl)\<rparr>)"
  using assms
    send_can_data_frame [OF lib_set_can_ipc_handle_name, of "pkg_can_frame pkg" h "pkg_can_port pkg"]
  by (simp add: handle_send_def direct_can_send_def lib_can_send_def wf_package_def
      case_prod_unfold sent_world_def Let_def)

lemmas handle_orders = handle_add_filter_eq handle_remove_filter_eq handle_package_def

lemma acked_sel [simp]:
  "ctl_is_running (acked c pkg ctl) = ctl_is_running ctl"
  "service_socket (acked c pkg ctl) = service_socket ctl"
  "socket_client_manager (acked c pkg ctl) = socket_client_manager ctl"
  "can_ipc_receiver (acked c pkg ctl) = lib_resume_can_ipc_receiver (can_ipc_receiver ctl)"
  "hal_world (acked c pkg ctl) = hal_world ctl"
  "client_threads (acked c pkg ctl) = client_threads ctl"
  "io_log (acked c pkg ctl) =
     io_log ctl @ [Io_Write c (encode_package (ack_package pkg (filter_ret pkg)))]"
  by (simp_all add: acked_def)

lemma resume_not_paused [simp]:
  "\<not> receive_ipc_can_task_paused (lib_resume_can_ipc_receiver r)"
  "\<not> work_task_queue_paused (lib_resume_can_ipc_receiver r)"
  by (simp_all add: lib_control receiver_control)

lemma port_registered_control [simp]:
  "port_registered (lib_pause_can_ipc_receiver r) = port_registered r"
  "port_registered (lib_resume_can_ipc_receiver r) = port_registered r"
  by (simp_all add: port_registered_def fun_eq_iff)

lemma wf_receiver_control [simp]:
  "wf_receiver (lib_pause_can_ipc_receiver r) = wf_receiver r"
  "wf_receiver (lib_resume_can_ipc_receiver r) = wf_receiver r"
  by (simp_all add: wf_receiver_def)

lemma port_registered_package:
  assumes "wf_receiver r"
  shows "port_registered (registered_receiver pkg r cb) =
      (port_registered r)(Slot_5 := port_registered r Slot_5 + mset (package_ids pkg))"
    and "port_registered (deregistered_receiver pkg r) =
      (port_registered r)(Slot_5 := port_registered r Slot_5 - mset (package_ids pkg))"
  using wf_receiverD(1) [OF assms, of Slot_5]
  by (auto simp: fun_eq_iff port_registered_def registered_receiver_def deregistered_receiver_def
      ft.subs_reg ft.subs_dereg)

lemma wf_receiver_package:
  assumes "wf_receiver r"
  shows "wf_receiver (registered_receiver pkg r cb)" and "wf_receiver (deregistered_receiver pkg r)"
  using wf_receiverD [OF assms, of Slot_5]
  by (auto simp: registered_receiver_def deregistered_receiver_def
      intro!: wf_set_table [OF assms] ft.ok_reg ft.ok_dereg)

text \<open>A package as a client makes it, and a service without clients.\<close>

definition filter_package :: "SOCKET_ORDER_E \<Rightarrow> u32 list \<Rightarrow> SOCKET_PACKAGE_T" where
  "filter_package order ids =
     zero_package\<lparr>socket_magic_code := SOCKET_MAGIC_CODE, socket_order := order,
       can_filter_id := pad_to 32 ids, can_filter_cnt := of_nat (length ids)\<rparr>"

lemma filter_package_sel [simp]:
  "socket_magic_code (filter_package order ids) = SOCKET_MAGIC_CODE"
  "socket_order (filter_package order ids) = order"
  "can_filter_cnt (filter_package order ids) = of_nat (length ids)"
  by (simp_all add: filter_package_def)

lemma wf_filter_package: "canonical_order order \<Longrightarrow> wf_package (filter_package order ids)"
  by (simp add: wf_package_def filter_package_def zero_package_def canonical_port_def
      can_port_of_raw_def canonical_ack_def ack_of_raw_def canonical_order_def order_of_raw_def)

lemma canonical_orders [simp]:
  "canonical_order SOCKET_ORDER_AS_ADD_FILTER" "canonical_order SOCKET_ORDER_AS_REMOVE_FILTER"
  "canonical_order SOCKET_ORDER_AS_SEND" "canonical_order SOCKET_ORDER_AS_ACK"
  "canonical_ack ACK_OKAY" "canonical_ack ACK_ERROR"
  by (simp_all add: canonical_order_def order_of_raw_def canonical_ack_def ack_of_raw_def)

lemma filter_package_ids:
  assumes "length ids \<le> 32"
  shows "package_ids (filter_package order ids) = ids"
    and "unat (of_nat (length ids) :: u32) = length ids"
proof -
  show "unat (of_nat (length ids) :: u32) = length ids"
    using assms by (simp add: unat_of_nat)
  then show "package_ids (filter_package order ids) = ids"
    using assms by (simp add: package_ids_def filter_package_def take_pad_to)
qed

definition empty_controller :: "'w \<Rightarrow> 'w controller" where
  "empty_controller w =
     new_controller \<lparr>socket_client_index = [], socket_client_reverse_index = []\<rparr>
       new_CAN_IPC_RECEIVER w"

lemma empty_controller_ok [simp]:
  "wf_index (socket_client_index (socket_client_manager (empty_controller w)))"
  "wf_receiver (can_ipc_receiver (empty_controller w))"
  "subscribed (socket_client_manager (empty_controller w)) = {}"
  "reverse_ok (socket_client_manager (empty_controller w))"
  "port_registered (can_ipc_receiver (empty_controller w)) s = {#}"
  "io_log (empty_controller w) = []"
  "ctl_is_running (empty_controller w)"
  "hal_world (empty_controller w) = w"
  by (simp_all add: empty_controller_def new_controller_def init_socket_client_manager_def
      wf_new_receiver subscribed_def reverse_ok_def receivers_def)



text \<open>
  C8. The order to remove a filter: exactly the subscriptions of that client to the identifiers of
  the package end, each identifier is counted once less for each time the package names it, whoever
  had registered it, and the only thing written is the acknowledgement.
\<close>

theorem remove_filter_order:
  assumes "wf_package pkg" and "socket_order pkg = SOCKET_ORDER_AS_REMOVE_FILTER"
    and "unat (can_filter_cnt pkg) \<le> 32"
    and "wf_index (socket_client_index (socket_client_manager ctl))"
    and "wf_receiver (can_ipc_receiver ctl)"
  shows "\<exists>ctl' m r. handle_package h c pkg ctl = Inr ctl' \<and>
    socket_client_manager ctl' = m \<and> can_ipc_receiver ctl' = r \<and>
    subscribed m = subscribed (socket_client_manager ctl) - {c} \<times> set (package_ids pkg) \<and>
    (reverse_ok (socket_client_manager ctl) \<longrightarrow> reverse_ok m) \<and>
    port_registered r Slot_5 =
      port_registered (can_ipc_receiver ctl) Slot_5 - mset (package_ids pkg) \<and>
    \<not> receive_ipc_can_task_paused r \<and> \<not> work_task_queue_paused r \<and>
    io_log ctl' = io_log ctl @ [Io_Write c (encode_package
      (pkg\<lparr>socket_order := SOCKET_ORDER_AS_ACK,
           socket_ack := (if can_filter_cnt pkg = 0 then ACK_ERROR else ACK_OKAY),
           socket_ack_for_order := SOCKET_ORDER_AS_REMOVE_FILTER\<rparr>))]"
  using assms reverse_ok_operations(2) [OF assms(4)] subscribed_removed [OF assms(4)]
  by (simp add: handle_orders port_registered_package ack_package_def filter_ret_def)
    (simp add: removed_manager_def)

theorem remove_filter_order_witness:
  "\<exists>ctl'. handle_package recording_hal 7 (filter_package SOCKET_ORDER_AS_REMOVE_FILTER [2])
       ((empty_controller [])\<lparr>socket_client_manager := sample_manager\<rparr>) = Inr ctl' \<and>
     subscribed (socket_client_manager ctl') = {(9, 2), (7, 1)}"
  using remove_filter_order [of "filter_package SOCKET_ORDER_AS_REMOVE_FILTER [2]"
      "(empty_controller [])\<lparr>socket_client_manager := sample_manager\<rparr>" recording_hal 7]
  by (auto simp: wf_filter_package filter_package_ids sample_manager_ok)



text \<open>Matching a frame whose identifier is not registered.\<close>

lemma match_unregistered:
  assumes "wf_receiver r" and "frame_id f \<notin># port_registered r s"
  shows "match_can_filter (slot_port s) f r = (RET_CODE_SUCCESS, r)"
  using assms registered_iff [OF wf_receiverD(1) [OF assms(1)], of "frame_id f" s]
  by (simp add: match_can_filter_def port_registered_def)

text \<open>
  C37. One client can silence another: when the only registration of an identifier is that of
  client \<open>c\<close>, and a client \<open>d\<close> that never subscribed to it sends the order to remove it, the order
  is acknowledged as successful, \<open>c\<close> is still subscribed and listed among the receivers, and no
  frame with the identifier is delivered any more.
\<close>

theorem stranger_silences_subscriber:
  assumes "wf_index (socket_client_index (socket_client_manager ctl))"
    and "wf_receiver (can_ipc_receiver ctl)" and "c \<noteq> d"
    and "reverse_ok (socket_client_manager ctl)"
    and "(c, i) \<in> subscribed (socket_client_manager ctl)"
    and "count (port_registered (can_ipc_receiver ctl) Slot_5) i = 1"
    and "frame_id f = i"
  shows "\<exists>ctl' pkg. handle_package h d (filter_package SOCKET_ORDER_AS_REMOVE_FILTER [i]) ctl = Inr ctl' \<and>
    io_log ctl' = io_log ctl @ [Io_Write d (encode_package pkg)] \<and> socket_ack pkg = ACK_OKAY \<and>
    (c, i) \<in> subscribed (socket_client_manager ctl') \<and>
    c \<in> set (receivers (socket_client_manager ctl') i) \<and>
    match_can_filter CAN_DEV_PORT_5 f (can_ipc_receiver ctl') = (0, can_ipc_receiver ctl')"
proof -
  let ?p = "filter_package SOCKET_ORDER_AS_REMOVE_FILTER [i]"
  let ?r = "deregistered_receiver ?p (lib_pause_can_ipc_receiver (can_ipc_receiver ctl))"
  let ?m = "removed_manager d [i] (socket_client_manager ctl)"
  have ids: "package_ids ?p = [i]" by (simp add: filter_package_ids)
  have reg: "i \<notin># port_registered ?r Slot_5"
    using assms(2,6) by (simp add: port_registered_package ids not_in_iff)
  have sub: "(c, i) \<in> subscribed ?m"
    using subscribed_removed [OF assms(1), of d "[i]"] assms(3,5) by simp
  have "reverse_ok ?m"
    using assms(1,4) by (simp add: removed_manager_def reverse_ok_operations)
  with sub have "c \<in> set (receivers ?m i)" by (simp add: set_receivers)
  with sub assms(2,7) reg show ?thesis
    using match_unregistered [of "lib_resume_can_ipc_receiver ?r" f Slot_5]
    by (simp add: handle_orders wf_filter_package ids wf_receiver_package ack_package_def
        filter_ret_def) (rule exI, rule conjI, rule refl, simp)
qed

text \<open>A service with one subscription: client 7 has added identifier 2.\<close>

definition one_subscription :: "'w \<Rightarrow> 'w controller" where
  "one_subscription w =
     (empty_controller w)
       \<lparr>socket_client_manager :=
          manager_add 7 [2] (socket_client_manager (empty_controller w)),
        can_ipc_receiver :=
          registered_receiver (filter_package SOCKET_ORDER_AS_ADD_FILTER [2])
            new_CAN_IPC_RECEIVER (Some Socket_Receive_Callback)\<rparr>"

lemma one_subscription_ok [simp]:
  "wf_index (socket_client_index (socket_client_manager (one_subscription w)))"
  "wf_receiver (can_ipc_receiver (one_subscription w))"
  "subscribed (socket_client_manager (one_subscription w)) = {(7, 2)}"
  "reverse_ok (socket_client_manager (one_subscription w))"
  "port_registered (can_ipc_receiver (one_subscription w)) Slot_5 = {#2#}"
  "io_log (one_subscription w) = []"
  "ctl_is_running (one_subscription w)"
  using empty_controller_ok(1) [of w]
  by (simp_all add: one_subscription_def cm.subs_add cm.wf_add reverse_ok_operations
      wf_receiver_package wf_new_receiver port_registered_package filter_package_ids)

theorem stranger_silences_subscriber_witness:
  "\<exists>ctl'. handle_package recording_hal 9 (filter_package SOCKET_ORDER_AS_REMOVE_FILTER [2])
       (one_subscription []) = Inr ctl' \<and>
     (7, 2) \<in> subscribed (socket_client_manager ctl') \<and>
     match_can_filter CAN_DEV_PORT_5 (zero_frame\<lparr>frame_id := 2\<rparr>) (can_ipc_receiver ctl') =
       (0, can_ipc_receiver ctl')"
  using stranger_silences_subscriber [of "one_subscription []" 7 9 2
      "zero_frame\<lparr>frame_id := 2\<rparr>" recording_hal]
  by simp blast

section \<open>A session\<close>

text \<open>What the handler does to the packages of a session, one after the other.\<close>

fun handle_packages ::
  "'w hal \<Rightarrow> int \<Rightarrow> SOCKET_PACKAGE_T list \<Rightarrow> 'w controller \<Rightarrow> 'w controller res" where
  "handle_packages h c [] ctl = Inr ctl"
| "handle_packages h c (p # ps) ctl =
     res_bind (handle_package h c p ctl) (handle_packages h c ps)"

lemma handle_package_running:
  "handle_package h c pkg ctl = Inr ctl' \<Longrightarrow> ctl_is_running ctl' = ctl_is_running ctl"
  by (cases "socket_order pkg")
    (auto simp: handle_package_def handle_send_def direct_can_send_def handle_add_filter_def
      handle_remove_filter_def direct_can_register_can_filter_def write_package_def
      direct_can_deregister_can_filter_def direct_receiver Let_def res_simps)

text \<open>The events by which one package arrives: non-empty messages, in whatever sizes, and signals.\<close>

definition carries :: "read_event list \<Rightarrow> SOCKET_PACKAGE_T \<Rightarrow> bool" where
  "carries es p \<longleftrightarrow> Read_Failed \<notin> set es \<and> Read_Bytes [] \<notin> set es \<and> ends_with_data es \<and>
     event_bytes es = encode_package p"

lemma read_full_carries:
  assumes "carries es p" and "wf_package p"
  shows "read_full sizeof_package (es @ rest) =
    Read_Done (int sizeof_package) (encode_package p) rest"
  using read_full_loop_collects [of es "[]" sizeof_package rest] assms
  by (simp add: read_full_def carries_def length_encode_package)

lemma handle_client_step:
  assumes "carries es p" and "wf_package p" and "socket_magic_code p = SOCKET_MAGIC_CODE"
    and "ctl_is_running ctl"
  shows "handle_client h c (es @ rest) ctl =
    res_bind (handle_package h c p ctl) (\<lambda>ctl. handle_client h c rest ctl)"
proof -
  have "decode_package (pad_to sizeof_package (encode_package p)) = p"
    using assms(2) by (simp add: length_encode_package decode_encode)
  then show ?thesis
    using assms read_full_carries [OF assms(1,2), of rest]
    by (subst handle_client.simps) (simp add: sizeof_package_def)
qed

lemma handle_client_session:
  assumes "list_all2 carries ess ps"
    and "\<forall>p \<in> set ps. wf_package p \<and> socket_magic_code p = SOCKET_MAGIC_CODE"
    and "ctl_is_running ctl"
  shows "handle_client h c (concat ess @ rest) ctl =
    res_bind (handle_packages h c ps ctl) (\<lambda>ctl. handle_client h c rest ctl)"
  using assms
proof (induction arbitrary: ctl rule: list_all2_induct)
  case Nil
  then show ?case by simp
next
  case (Cons es ess p ps)
  have step: "handle_client h c (es @ concat ess @ rest) ctl =
      res_bind (handle_package h c p ctl) (\<lambda>ctl. handle_client h c (concat ess @ rest) ctl)"
    using Cons.prems by (intro handle_client_step [OF Cons.hyps(1)]) simp_all
  show ?case
  proof (cases "handle_package h c p ctl")
    case (Inr ctl')
    then have "ctl_is_running ctl'"
      using Cons.prems(2) handle_package_running by metis
    with Cons.IH [of ctl'] Cons.prems step Inr show ?thesis by simp
  qed (use step in simp)
qed

lemma handle_client_close:
  "ctl_is_running ctl \<Longrightarrow> handle_client h c (Read_Bytes [] # rest) ctl =
    Inr (Client_Disconnected, rest, hang_up c ctl)"
  by (subst handle_client.simps) (simp add: read_full_def sizeof_package_def)

text \<open>
  C4. The handler works on packages although it reads bytes: for a client that sends a sequence of
  packages with the right magic code, in messages of whatever sizes with signals in between, and
  then closes the connection, the handler carries out exactly these packages in order, then removes
  the client from the manager and closes the descriptor. It returns for every list of events.
\<close>

theorem handler_runs_session:
  assumes "list_all2 carries ess ps"
    and "\<forall>p \<in> set ps. wf_package p \<and> socket_magic_code p = SOCKET_MAGIC_CODE"
    and "ctl_is_running ctl"
  shows "handle_client h c (concat ess @ Read_Bytes [] # rest) ctl =
    res_bind (handle_packages h c ps ctl) (\<lambda>ctl. Inr (Client_Disconnected, rest, hang_up c ctl))"
proof -
  have "ctl_is_running ctl'" if "handle_packages h c ps ctl = Inr ctl'" for ctl'
    using that assms(3)
    by (induction ps arbitrary: ctl) (auto simp: res_simps handle_package_running)
  then have "res_bind (handle_packages h c ps ctl) (\<lambda>ctl. handle_client h c (Read_Bytes [] # rest) ctl) =
      res_bind (handle_packages h c ps ctl) (\<lambda>ctl. Inr (Client_Disconnected, rest, hang_up c ctl))"
    by (intro res_bind_cong refl) (simp add: handle_client_close)
  with handle_client_session [OF assms, of h c "Read_Bytes [] # rest"] show ?thesis by simp
qed

lemma carries_whole: "wf_package p \<Longrightarrow> carries [Read_Bytes (encode_package p)] p"
  by (auto simp: carries_def ends_with_data_def dest: arg_cong [of _ _ length] length_encode_package)
    (auto simp: encode_package_def le32_def)

theorem handler_runs_session_witness:
  "handle_client recording_hal 7
     ([Read_Interrupted, Read_Bytes (encode_package (filter_package SOCKET_ORDER_AS_ADD_FILTER [2])),
       Read_Bytes []]) (empty_controller []) =
   res_bind (handle_packages recording_hal 7 [filter_package SOCKET_ORDER_AS_ADD_FILTER [2]]
     (empty_controller [])) (\<lambda>ctl. Inr (Client_Disconnected, [], hang_up 7 ctl))"
proof -
  let ?p = "filter_package SOCKET_ORDER_AS_ADD_FILTER [2]"
  have wf: "wf_package ?p" by (simp add: wf_filter_package)
  have "carries [Read_Interrupted, Read_Bytes (encode_package ?p)] ?p"
    using carries_whole [OF wf] by (simp add: carries_def ends_with_data_def)
  then show ?thesis
    using handler_runs_session [of "[[Read_Interrupted, Read_Bytes (encode_package ?p)]]" "[?p]"
        "empty_controller []" recording_hal 7 "[]"] wf
    by simp
qed

text \<open>
  A package with a wrong magic code ends the handler without the last lines: the client is not
  removed from the manager, so it stays subscribed, and its descriptor is not closed.
\<close>

theorem wrong_magic_keeps_client:
  assumes "carries es p" and "wf_package p" and "socket_magic_code p \<noteq> SOCKET_MAGIC_CODE"
    and "ctl_is_running ctl"
  shows "handle_client h c (es @ rest) ctl = Inr (Client_Dropped, rest, ctl)"
proof -
  have "decode_package (pad_to sizeof_package (encode_package p)) = p"
    using assms(2) by (simp add: length_encode_package decode_encode)
  then show ?thesis
    using assms read_full_carries [OF assms(1,2), of rest]
    by (subst handle_client.simps) (simp add: sizeof_package_def)
qed

theorem wrong_magic_keeps_client_witness:
  "handle_client recording_hal 7 [Read_Bytes (encode_package zero_package), Read_Bytes []]
     (one_subscription []) = Inr (Client_Dropped, [Read_Bytes []], one_subscription [])"
  using wrong_magic_keeps_client [OF carries_whole [OF wf_zero(2)] wf_zero(2),
      of "one_subscription []" recording_hal 7 "[Read_Bytes []]"]
  by (simp add: zero_package_def SOCKET_MAGIC_CODE_def)

text \<open>
  A truncated package is carried out: a client that sends only the four bytes of the magic code
  and closes the connection makes the service send the all zero frame on port 5, because the handler
  compares the number of bytes read with zero and not with the size of a package.
\<close>

theorem truncated_package_is_sent:
  assumes "ctl_is_running ctl" and "64 \<le> sizeof_data h"
  shows "handle_client h c [Read_Bytes (le32 SOCKET_MAGIC_CODE), Read_Bytes [], Read_Bytes []] ctl =
    Inr (Client_Disconnected, [], hang_up c (ctl\<lparr>hal_world := snd (canSendMsgFrame h CAN_IPC_INS0_CAN5_CHAN4
      (tx_canframe h (fst (system_clock_ms h (hal_world ctl))) CAN_DEV_PORT_5 zero_frame) single_pack
      (snd (system_clock_ms h (hal_world ctl))))\<rparr>))"
proof -
  let ?p = "zero_package\<lparr>socket_magic_code := SOCKET_MAGIC_CODE\<rparr>"
  have zeros: "encode_package ?p = le32 SOCKET_MAGIC_CODE @ replicate 220 0"
    by (simp add: encode_package_def zero_package_def encode_frame_def zero_frame_def
        CANFD_MAX_DLEN_def numeral_eq_Suc)
  have wf: "wf_package ?p"
    using wf_zero(2) by (simp add: wf_package_def)
  have dec: "decode_package (pad_to sizeof_package (le32 SOCKET_MAGIC_CODE)) = ?p"
    using decode_encode [OF wf] by (simp add: zeros pad_to_def sizeof_package_def)
  have read: "read_full sizeof_package [Read_Bytes (le32 SOCKET_MAGIC_CODE), Read_Bytes [],
      Read_Bytes []] = Read_Done 4 (le32 SOCKET_MAGIC_CODE) [Read_Bytes []]"
    by (simp add: read_full_def sizeof_package_def le32_def)
  have send: "handle_package h c ?p ctl = Inr (ctl\<lparr>hal_world := snd (canSendMsgFrame h
      CAN_IPC_INS0_CAN5_CHAN4
      (tx_canframe h (fst (system_clock_ms h (hal_world ctl))) CAN_DEV_PORT_5 zero_frame) single_pack
      (snd (system_clock_ms h (hal_world ctl))))\<rparr>)"
    using send_can_data_frame [OF lib_set_can_ipc_handle_name [of CAN_PORT_5] wf_zero(1) assms(2),
        of "hal_world ctl"]
    by (simp add: handle_package_def handle_send_def direct_can_send_def lib_can_send_def
        zero_package_def case_prod_unfold)
  show ?thesis
    by (subst handle_client.simps) (simp add: read dec send assms(1) handle_client_close)
qed

theorem truncated_package_is_sent_witness:
  "handle_client recording_hal 7 [Read_Bytes (le32 SOCKET_MAGIC_CODE), Read_Bytes [], Read_Bytes []]
     (empty_controller []) =
   Inr (Client_Disconnected, [], hang_up 7 ((empty_controller [])\<lparr>hal_world :=
     [(CAN_IPC_INS0_CAN5_CHAN4, tx_canframe recording_hal 1000 CAN_DEV_PORT_5 zero_frame)]\<rparr>))"
  using truncated_package_is_sent [of "empty_controller []" recording_hal 7]
  by (simp add: recording_hal_def)

end
