(* ===== verification/Service.thy ===== *)
theory Service
  imports Controller
begin

text \<open>
  The life of the service: starting it (\<open>start_controller\<close> of
  \<^verbatim>\<open>src/core/ipc_socket_controller.cpp\<close> with every failure of a system call), accepting
  clients, stopping it, the signal handler, and the program of \<^verbatim>\<open>src/api/can_ipc_layer.cpp\<close>.

  The answers of the system calls are a record; those of \<open>accept\<close> are a list, and at its end the
  call has not returned yet.
\<close>

section \<open>The path of the socket\<close>

definition ipc_can_socket_server_path :: string where
  "ipc_can_socket_server_path = ''/tmp/ipc_can_layer/ipc_can.socket''"

text \<open>
  \<open>find_last_of\<close> with one character, and the part of the path before it, when there is one.
\<close>

definition find_last_of :: "char \<Rightarrow> string \<Rightarrow> nat option" where
  "find_last_of c s =
     (if c \<in> set s then Some (length s - Suc (length (takeWhile (\<lambda>x. x \<noteq> c) (rev s)))) else None)"

definition father_path :: "string \<Rightarrow> string option" where
  "father_path s = map_option (\<lambda>last_path_slash. take last_path_slash s) (find_last_of CHR ''/'' s)"

text \<open>The path in the socket address: an array of 108 characters with the terminator at its end.\<close>

definition sun_path :: "string \<Rightarrow> string" where
  "sun_path s = take 107 s"

section \<open>Starting and stopping\<close>

record syscalls =
  socket_file_exists :: bool
  unlink_succeeds :: bool
  socket_result :: int
  father_path_exists :: bool
  bind_succeeds :: bool
  listen_succeeds :: bool
  chmod_succeeds :: bool

datatype accept_event = Accepted int | Accept_Failed

fun accept_connections :: "accept_event list \<Rightarrow> 'w controller \<Rightarrow> 'w controller" where
  "accept_connections [] ctl = ctl"
| "accept_connections (e # es) ctl =
     (if \<not> ctl_is_running ctl then ctl
      else (case e of
              Accept_Failed \<Rightarrow> ctl
            | Accepted client_socket \<Rightarrow>
                accept_connections es
                  (ctl\<lparr>client_threads := client_threads ctl @ [client_socket]\<rparr>)))"

definition start_controller ::
  "syscalls \<Rightarrow> accept_event list \<Rightarrow> 'w controller \<Rightarrow> bool \<times> 'w controller" where
  "start_controller sys accepts ctl =
     (let ctl1 = (if socket_file_exists sys then io [Io_Unlink ipc_can_socket_server_path] ctl
                  else ctl)
      in if socket_file_exists sys \<and> \<not> unlink_succeeds sys then (False, ctl1)
      else let ctl2 = ctl1\<lparr>service_socket := socket_result sys\<rparr>
      in if service_socket ctl2 = - 1 then (False, ctl2)
      else let ctl3 = (case father_path ipc_can_socket_server_path of
                         None \<Rightarrow> ctl2
                       | Some p \<Rightarrow> if father_path_exists sys then ctl2 else io [Io_Mkdir p] ctl2);
               fd = service_socket ctl3;
               ctl4 = io [Io_Bind fd (sun_path ipc_can_socket_server_path)] ctl3
      in if \<not> bind_succeeds sys then (False, io [Io_Close fd] ctl4)
      else let ctl5 = io [Io_Listen fd 10] ctl4
      in if \<not> listen_succeeds sys then (False, io [Io_Close fd] ctl5)
      else let ctl6 = io [Io_Chmod ipc_can_socket_server_path] ctl5
      in if \<not> chmod_succeeds sys then (False, io [Io_Close fd] ctl6)
      else (True, accept_connections accepts
                    (direct_start_can_ipc_receiver
                      (direct_enable_can_receiver_port CAN_PORT_5 ctl6))))"

definition stop :: "'w controller \<Rightarrow> 'w controller" where
  "stop ctl =
     (let ctl = ctl\<lparr>ctl_is_running := False\<rparr>
      in if service_socket ctl \<noteq> - 1
         then (io [Io_Shutdown (service_socket ctl), Io_Close (service_socket ctl)] ctl)
                \<lparr>service_socket := - 1\<rparr>
         else ctl)"

definition signal_handler :: "'w controller \<Rightarrow> 'w controller" where
  "signal_handler ctl =
     io [Io_Close (service_socket ctl), Io_Unlink ipc_can_socket_server_path, Io_Exit 0]
       (ctl\<lparr>ctl_is_running := False\<rparr>)"

section \<open>The program\<close>

text \<open>
  \<open>stop_test_thread\<close>: the number of seconds it sleeps before it stops the service. The counter is a
  byte.
\<close>

function stop_test_loop :: "u8 \<Rightarrow> nat" where
  "stop_test_loop stop_count =
     (if 180 < stop_count then 0 else Suc (stop_test_loop (stop_count + 1)))"
  by pat_completeness auto
termination
  by (relation "measure (\<lambda>c. 256 - unat c)") (auto simp: word_less_nat_alt unat_word_ariths)

declare stop_test_loop.simps [simp del]

definition stop_test_thread :: "'w controller \<Rightarrow> nat \<times> 'w controller" where
  "stop_test_thread ctl = (stop_test_loop 0, stop ctl)"

definition server_thread :: "syscalls \<Rightarrow> accept_event list \<Rightarrow> 'w controller \<Rightarrow> 'w controller" where
  "server_thread sys accepts ctl = snd (start_controller sys accepts ctl)"

text \<open>The controller's own \<open>init_can_dev\<close> and \<open>deinit_can_dev\<close> pass the call on to the layer.\<close>

definition controller_init_can_dev ::
  "'w hal \<Rightarrow> file_system \<Rightarrow> 'w controller \<Rightarrow> (file_system \<times> 'w controller) outcome" where
  "controller_init_can_dev h fs ctl =
     (case init_can_dev h fs (hal_world ctl) of
        Throws e \<Rightarrow> Throws e
      | Returns (fs, w) \<Rightarrow> Returns (fs, ctl\<lparr>hal_world := w\<rparr>))"

definition controller_deinit_can_dev :: "'w hal \<Rightarrow> 'w controller \<Rightarrow> 'w controller" where
  "controller_deinit_can_dev h ctl = ctl\<lparr>hal_world := deinit_can_dev h (hal_world ctl)\<rparr>"

text \<open>
  \<open>main\<close>, from the first use of the singletons to their destruction after its return. Only the
  main thread and the thread it joins are followed; their effects on the HAL are those listed here.
\<close>

definition main ::
  "'w hal \<Rightarrow> file_system \<Rightarrow> syscalls \<Rightarrow> accept_event list \<Rightarrow> 'w \<Rightarrow> ('w controller) outcome" where
  "main h fs sys accepts w =
     (case new_CAN_IPC_LAYER_IMPL h fs 0 w of
        (_, Throws e) \<Rightarrow> Throws e
      | (cnt, Returns (_, w)) \<Rightarrow>
          (let ctl = server_thread sys accepts
                       (new_controller \<lparr>socket_client_index = [], socket_client_reverse_index = []\<rparr>
                          new_CAN_IPC_RECEIVER w);
               ctl = controller_deinit_can_dev h ctl
           in Returns (ctl\<lparr>hal_world := snd (delete_CAN_IPC_LAYER_IMPL h cnt (hal_world ctl)),
                           can_ipc_receiver := delete_CAN_IPC_RECEIVER (can_ipc_receiver ctl)\<rparr>)))"

end
