(* ===== verification/Service_System.thy ===== *)
theory Service_System
  imports Controller_Correct Service
begin

text \<open>
  The service as a whole: the handlers of all clients, the receive thread and the worker thread,
  interleaved. A step is one accepted client, one package handled, one disconnection, one pass of
  the receive thread, one round of the worker, or a stop of the service; the code runs a package
  between a pause and a resume of the receiver, and these steps take the pause at its word.

  The invariant of the reachable states, what follows from it for arbitrary clients, and the
  delivery of every frame to every subscriber for clients that keep to a discipline.
\<close>

section \<open>The steps\<close>

text \<open>
  \<open>client_threads\<close> lists the descriptors whose handler is running. \<open>allowed\<close> restricts the packages
  that clients send; \<open>anything\<close> does not.
\<close>

type_synonym 'w policy = "int \<Rightarrow> SOCKET_PACKAGE_T \<Rightarrow> 'w controller \<Rightarrow> bool"

definition anything :: "'w policy" where
  "anything c pkg ctl \<longleftrightarrow> True"

inductive service_step :: "'w hal \<Rightarrow> 'w policy \<Rightarrow> 'w controller \<Rightarrow> 'w controller \<Rightarrow> bool"
  for h :: "'w hal" and allowed :: "'w policy" where
  client_connects: "ctl_is_running ctl \<Longrightarrow> 0 \<le> c \<Longrightarrow>
     service_step h allowed ctl (accept_connections [Accepted c] ctl)"
| client_package: "c \<in> set (client_threads ctl) \<Longrightarrow> wf_package pkg \<Longrightarrow> allowed c pkg ctl \<Longrightarrow>
     handle_package h c pkg ctl = Inr ctl' \<Longrightarrow> service_step h allowed ctl ctl'"
| client_leaves: "c \<in> set (client_threads ctl) \<Longrightarrow>
     service_step h allowed ctl ((hang_up c ctl)\<lparr>client_threads := remove1 c (client_threads ctl)\<rparr>)"
| receiver_runs: "receiver_round h ts ctl = Inr ctl' \<Longrightarrow> service_step h allowed ctl ctl'"
| worker_runs: "worker_round ctl = Inr ctl' \<Longrightarrow> service_step h allowed ctl ctl'"
| service_stops: "service_step h allowed ctl (stop ctl)"

inductive_cases service_stepE: "service_step h allowed ctl ctl'"

definition service_init :: "'w controller \<Rightarrow> bool" where
  "service_init ctl \<longleftrightarrow> (\<exists>sys w. start_controller sys [] (empty_controller w) = (True, ctl))"

text \<open>Every package that \<open>decode_package\<close> makes of the 224 bytes of the buffer is well formed.\<close>

lemma wf_decode_package:
  assumes "length bs = sizeof_package"
  shows "wf_package (decode_package bs)"
  using assms
  by (simp add: wf_package_def decode_package_def wf_frame_def decode_frame_def CANFD_MAX_DLEN_def
      sizeof_package_def)

section \<open>The invariant\<close>

text \<open>Every registered filter and every queued task has the callback of the service.\<close>

definition callbacks_ok :: "rx_callback CAN_IPC_RECEIVER \<Rightarrow> bool" where
  "callbacks_ok r \<longleftrightarrow>
     (\<forall>s i f. can_ipc_filter_map (receiver_filter r s) i = Some f \<longrightarrow>
        ipcf_callback f = Some Socket_Receive_Callback) \<and>
     (\<forall>t \<in> set (work_queue (work_queue_handle r)). fst t = Some Socket_Receive_Callback)"

text \<open>Every subscriber is among the receivers; clients that have left may be, too.\<close>

definition covers :: "CAN_IPC_SOCKET_CLIENT_MANAGER_T \<Rightarrow> bool" where
  "covers m \<longleftrightarrow> (\<forall>i. oset (receivers m i) \<and> {c. (c, i) \<in> subscribed m} \<subseteq> set (receivers m i))"

definition manager_inv :: "CAN_IPC_SOCKET_CLIENT_MANAGER_T \<Rightarrow> bool" where
  "manager_inv m \<longleftrightarrow> wf_index (socket_client_index m) \<and> covers m"

definition service_inv :: "'w controller \<Rightarrow> bool" where
  "service_inv ctl \<longleftrightarrow> manager_inv (socket_client_manager ctl) \<and>
     layer_inv (can_ipc_receiver ctl) \<and> callbacks_ok (can_ipc_receiver ctl)"

lemma reverse_ok_covers: "reverse_ok m \<Longrightarrow> covers m"
  by (simp add: reverse_ok_def covers_def)

lemma manager_inv_ops:
  assumes "manager_inv m"
  shows "manager_inv (manager_add c ids m)" and "manager_inv (removed_manager c ids m)"
    and "manager_inv (clean_socket_client_index c m)"
proof -
  from assms have wf: "wf_index (socket_client_index m)" by (simp add: manager_inv_def)
  show "manager_inv (manager_add c ids m)" "manager_inv (removed_manager c ids m)"
    using assms cm.wf_add [OF wf] subscribed_removed [OF wf] reverse_ok_operations [OF wf]
    by (auto simp: manager_inv_def reverse_ok_covers removed_manager_def)
  have "receivers (clean_socket_client_index c m) = receivers m"
    by (simp add: fun_eq_iff receivers_def clean_socket_client_index_def)
  with assms cm.wf_hangup [OF wf, of c] show "manager_inv (clean_socket_client_index c m)"
    by (auto simp: manager_inv_def covers_def subscribed_clean)
qed

lemma callbacks_ok_match:
  "callbacks_ok r \<Longrightarrow> callbacks_ok (snd (match_can_filter p f r))"
  by (auto simp: match_can_filter_def callbacks_ok_def queue_ops split: option.splits)

lemma callbacks_ok_rx_loop: "rx_loop n buf p r = Inr r' \<Longrightarrow> callbacks_ok r \<Longrightarrow> callbacks_ok r'"
  by (induction n buf p r rule: rx_loop.induct)
    (auto simp: res_simps callbacks_ok_match split: if_splits)

lemma callbacks_ok_receive_pass:
  "receive_pass h ts r w = Inr (r', w') \<Longrightarrow> callbacks_ok r \<Longrightarrow> callbacks_ok r'"
proof (induction h ts r w rule: receive_pass.induct)
  case (2 h s t ts r w)
  have "callbacks_ok r1" if "get_raw_can_data h t r w = Inr (r1, w1)" for r1 w1
    using that 2(4)
    by (auto simp: get_raw_can_data_def Let_def case_prod_unfold res_simps
        intro: callbacks_ok_rx_loop split: if_splits)
  with 2 show ?case by (auto simp: res_simps split: if_splits)
qed simp

lemma callbacks_ok_control:
  "callbacks_ok r \<Longrightarrow> callbacks_ok (lib_pause_can_ipc_receiver r)"
  "callbacks_ok r \<Longrightarrow> callbacks_ok (lib_resume_can_ipc_receiver r)"
  "callbacks_ok r \<Longrightarrow> callbacks_ok (lib_start_can_ipc_receiver r)"
  "callbacks_ok r \<Longrightarrow> callbacks_ok (lib_enable_can_receiver_port p r)"
  by (simp_all add: callbacks_ok_def lib_control receiver_control clear_queue_eq Let_def)

lemma callbacks_ok_package:
  assumes "callbacks_ok r" and "wf_receiver r"
  shows "callbacks_ok (registered_receiver pkg r (Some Socket_Receive_Callback))"
    and "callbacks_ok (deregistered_receiver pkg r)"
  using assms table_deregister_filter_map [OF wf_receiverD(1) [OF assms(2), of Slot_5]]
  by (auto simp: callbacks_ok_def registered_receiver_def deregistered_receiver_def
      split: option.splits if_splits)

lemma layer_inv_package:
  assumes "layer_inv r"
  shows "layer_inv (registered_receiver pkg r cb)" and "layer_inv (deregistered_receiver pkg r)"
proof -
  have wf: "wf_receiver r" using assms by (simp add: layer_inv_def)
  show "layer_inv (registered_receiver pkg r cb)" "layer_inv (deregistered_receiver pkg r)"
    using wf_receiverD [OF wf, of Slot_5]
    by (auto simp: registered_receiver_def deregistered_receiver_def
        intro!: layer_inv_set_table [OF assms] ft.ok_reg ft.ok_dereg)
qed

lemma callbacks_ok_work:
  assumes "work_queue_task_round r = (round, r')" and "callbacks_ok r"
  shows "callbacks_ok r' \<and> (\<forall>t. round = Round_Run t \<longrightarrow> fst t = Some Socket_Receive_Callback)"
  using assms
  by (auto simp: work_queue_task_round_def callbacks_ok_def queue_ops
      split: if_splits prod.splits deq_result.splits list.splits)

text \<open>What a package that returns normally has done, by its order.\<close>

lemma handle_package_cases:
  assumes "wf_package pkg" and "handle_package h c pkg ctl = Inr ctl'"
  obtains (other) w where "ctl' = ctl\<lparr>hal_world := w\<rparr>"
      "socket_order pkg \<noteq> SOCKET_ORDER_AS_ADD_FILTER" "socket_order pkg \<noteq> SOCKET_ORDER_AS_REMOVE_FILTER"
  | (add) "socket_order pkg = SOCKET_ORDER_AS_ADD_FILTER"
      "ctl' = acked c pkg (ctl\<lparr>
         socket_client_manager := manager_add c (package_ids pkg) (socket_client_manager ctl),
         can_ipc_receiver := registered_receiver pkg
           (lib_pause_can_ipc_receiver (can_ipc_receiver ctl)) (Some Socket_Receive_Callback)\<rparr>)"
  | (remove) "socket_order pkg = SOCKET_ORDER_AS_REMOVE_FILTER"
      "ctl' = acked c pkg (ctl\<lparr>
         socket_client_manager := removed_manager c (package_ids pkg) (socket_client_manager ctl),
         can_ipc_receiver := deregistered_receiver pkg
           (lib_pause_can_ipc_receiver (can_ipc_receiver ctl))\<rparr>)"
proof (cases "socket_order pkg")
  case SOCKET_ORDER_AS_SEND
  then obtain w where "ctl' = ctl\<lparr>hal_world := w\<rparr>"
    using assms(2)
    by (auto simp: handle_package_def handle_send_def direct_can_send_def res_simps)
  then show thesis using other SOCKET_ORDER_AS_SEND by simp
next
  case SOCKET_ORDER_AS_ADD_FILTER
  with assms add show thesis by (simp add: handle_orders split: if_splits)
next
  case SOCKET_ORDER_AS_REMOVE_FILTER
  with assms remove show thesis by (simp add: handle_orders split: if_splits)
qed (use assms(2) other [of "hal_world ctl"] in \<open>simp_all add: handle_package_def\<close>)

lemma service_inv_frame:
  assumes "service_inv ctl" and "socket_client_manager ctl' = socket_client_manager ctl"
    and "can_ipc_receiver ctl' = can_ipc_receiver ctl"
  shows "service_inv ctl'"
  using assms by (simp add: service_inv_def)

lemma service_inv_package:
  assumes "wf_package pkg" and "handle_package h c pkg ctl = Inr ctl'" and inv: "service_inv ctl"
  shows "service_inv ctl'"
proof -
  let ?r = "lib_pause_can_ipc_receiver (can_ipc_receiver ctl)"
  from inv have m: "manager_inv (socket_client_manager ctl)" and r: "layer_inv ?r" "callbacks_ok ?r"
    by (simp_all add: service_inv_def layer_inv_control callbacks_ok_control)
  from r(1) have wf: "wf_receiver ?r" by (simp add: layer_inv_def)
  note receiver = layer_inv_control(3) [OF layer_inv_package(1) [OF r(1)]]
    layer_inv_control(3) [OF layer_inv_package(2) [OF r(1)]]
    callbacks_ok_control(2) [OF callbacks_ok_package(1) [OF r(2) wf]]
    callbacks_ok_control(2) [OF callbacks_ok_package(2) [OF r(2) wf]]
  from assms(1,2) show ?thesis
  proof (cases rule: handle_package_cases)
    case (other w)
    then show ?thesis using inv by (simp add: service_inv_def)
  qed (use receiver manager_inv_ops [OF m] in \<open>simp_all add: service_inv_def\<close>)
qed

lemma receiver_round_cases:
  assumes "receiver_round h ts ctl = Inr ctl'"
  obtains r w where "ctl' = ctl\<lparr>can_ipc_receiver := r, hal_world := w\<rparr>"
    "receive_ipc_can_task h 1 ts (can_ipc_receiver ctl) (hal_world ctl) = Inr (r, w)"
  using assms by (auto simp: receiver_round_def res_simps)

lemma callbacks_ok_receive:
  assumes "receive_ipc_can_task h 1 ts r w = Inr (r', w')" and "callbacks_ok r"
  shows "callbacks_ok r'"
  using assms by (auto simp: res_simps callbacks_ok_receive_pass split: if_splits)

lemma service_inv_receive:
  assumes "receiver_round h ts ctl = Inr ctl'" and "service_inv ctl"
  shows "service_inv ctl'"
  using assms
  by (elim receiver_round_cases)
    (auto simp: service_inv_def intro: callbacks_ok_receive layer_inv_receive simp del: receive_ipc_can_task.simps)

lemma run_task_socket [simp]:
  "fst t = Some Socket_Receive_Callback \<Longrightarrow>
     run_task t ctl = Inr (io (frame_writes (socket_client_manager ctl) (snd t)) ctl)"
  by (cases t) (simp add: run_task_def socket_receive_callback_io)

text \<open>A round of the worker changes the receiver as \<open>work_queue_task_round\<close> does, and the log.\<close>

lemma worker_round_eq:
  assumes "callbacks_ok (can_ipc_receiver ctl)"
    and "work_queue_task_round (can_ipc_receiver ctl) = (round, r)"
  shows "worker_round ctl =
    Inr (io (case round of Round_Run t \<Rightarrow> frame_writes (socket_client_manager ctl) (snd t) | _ \<Rightarrow> [])
      (ctl\<lparr>can_ipc_receiver := r\<rparr>))"
  using callbacks_ok_work [OF assms(2,1)] assms(2)
  by (cases round) (simp_all add: worker_round_def)

lemma service_inv_worker:
  assumes "worker_round ctl = Inr ctl'" and inv: "service_inv ctl"
  shows "service_inv ctl'"
proof -
  from inv have cb: "callbacks_ok (can_ipc_receiver ctl)" by (simp add: service_inv_def)
  obtain round r where rd: "work_queue_task_round (can_ipc_receiver ctl) = (round, r)"
    by (cases "work_queue_task_round (can_ipc_receiver ctl)")
  from inv rd have "layer_inv r" by (auto simp: service_inv_def intro: layer_inv_work)
  with assms(1) inv callbacks_ok_work [OF rd cb] show ?thesis
    by (auto simp: worker_round_eq [OF cb rd] service_inv_def)
qed

lemma service_inv_stop: "service_inv ctl \<Longrightarrow> service_inv (stop ctl)"
  by (rule service_inv_frame [of ctl]) (simp_all add: stop_def Let_def)

lemma service_inv_step:
  assumes "service_inv ctl" and "service_step h allowed ctl ctl'"
  shows "service_inv ctl'"
  using assms(2)
proof cases
  case (client_leaves c)
  then show ?thesis using assms(1) by (simp add: service_inv_def hang_up_def manager_inv_ops)
next
  case (client_connects c)
  then show ?thesis using assms(1) by (simp add: service_inv_def)
qed (use assms(1) in \<open>auto intro: service_inv_package service_inv_receive service_inv_worker
    service_inv_stop\<close>)

lemma callbacks_ok_new: "callbacks_ok new_CAN_IPC_RECEIVER"
  by (simp add: callbacks_ok_def new_CAN_IPC_RECEIVER_def init_can_filter_def clear_hash_table_def
      static_CAN_IPC_RECEIVER_def new_WORK_QUEUE_def)

text \<open>What a successful start leaves behind.\<close>

lemma start_controller_success:
  assumes "start_controller sys [] ctl = (True, ctl')"
  shows "socket_client_manager ctl' = socket_client_manager ctl"
    and "can_ipc_receiver ctl' =
      lib_start_can_ipc_receiver (lib_enable_can_receiver_port CAN_PORT_5 (can_ipc_receiver ctl))"
    and "client_threads ctl' = client_threads ctl"
  using assms
  by (auto simp: start_controller_def Let_def direct_receiver split: if_splits option.splits)

lemma service_inv_init: "service_init ctl \<Longrightarrow> service_inv ctl"
proof -
  assume "service_init ctl"
  then obtain sys w where "start_controller sys [] (empty_controller w) = (True, ctl)"
    by (auto simp: service_init_def)
  note ctl = start_controller_success [OF this]
  have r: "layer_inv (can_ipc_receiver (empty_controller w))"
    "callbacks_ok (can_ipc_receiver (empty_controller w))"
    using layer_inv_init callbacks_ok_new
    by (simp_all add: empty_controller_def new_controller_def layer_init_def)
  with empty_controller_ok [of w] show ?thesis
    by (simp add: service_inv_def ctl layer_inv_control layer_inv_enable callbacks_ok_control
        manager_inv_def reverse_ok_covers)
qed

interpretation service: invariant_system service_init "service_step h allowed" service_inv for h allowed
  by unfold_locales (auto intro: service_inv_init service_inv_step)

text \<open>
  Whatever the clients send, in every reachable state of the service the worker runs its next
  task without a fault (every queued callback is that of the service), the queue is within its
  bound, and the clients subscribed to an identifier are among the receivers of its frames, which
  are distinct and in ascending order.
\<close>

theorem service_invariant:
  assumes "reach service_init (service_step h anything) ctl"
  shows "isOK (worker_round ctl) \<and>
    wq_size (work_queue_handle (can_ipc_receiver ctl)) \<le> MAX_WORK_QUEUE_TASKS \<and>
    oset (receivers (socket_client_manager ctl) i) \<and>
    {c. (c, i) \<in> subscribed (socket_client_manager ctl)} \<subseteq>
      set (receivers (socket_client_manager ctl) i)"
proof -
  have inv: "service_inv ctl" using assms by (rule service.reach_inv)
  then have cb: "callbacks_ok (can_ipc_receiver ctl)" by (simp add: service_inv_def)
  obtain round r where rd: "work_queue_task_round (can_ipc_receiver ctl) = (round, r)"
    by (cases "work_queue_task_round (can_ipc_receiver ctl)")
  have "isOK (worker_round ctl)" by (simp add: worker_round_eq [OF cb rd])
  with inv show ?thesis
    by (simp add: service_inv_def manager_inv_def covers_def layer_inv_def queue_ok_def)
qed

text \<open>A start that succeeds, for the witnesses.\<close>

definition good_syscalls :: syscalls where
  "good_syscalls =
     \<lparr>socket_file_exists = False, unlink_succeeds = True, socket_result = 3,
      father_path_exists = True, bind_succeeds = True, listen_succeeds = True,
      chmod_succeeds = True\<rparr>"

definition started :: "'w \<Rightarrow> 'w controller" where
  "started w = snd (start_controller good_syscalls [] (empty_controller w))"

lemma service_init_started: "service_init (started w)"
  unfolding service_init_def
  by (intro exI [of _ good_syscalls] exI [of _ w])
    (simp add: started_def start_controller_def good_syscalls_def Let_def split: option.split)

lemma reach_started: "reach service_init (service_step h allowed) (started w)"
  by (rule reach_init) (rule service_init_started)

theorem service_invariant_witness: "isOK (worker_round (started [] :: (string \<times> canframe) list controller))"
  by (rule conjunct1 [OF service_invariant [OF reach_started [of recording_hal anything]]])

section \<open>Clients that keep to a discipline\<close>

text \<open>
  The code counts registrations by identifier and not by client. A client keeps to the discipline
  when no filter of its packages repeats an identifier, it adds only identifiers it is not
  subscribed to and it removes only identifiers it is subscribed to.
\<close>

definition disciplined :: "'w policy" where
  "disciplined c pkg ctl \<longleftrightarrow>
     (case socket_order pkg of
        SOCKET_ORDER_AS_ADD_FILTER \<Rightarrow> distinct (package_ids pkg) \<and>
          list_all (\<lambda>i. (c, i) \<notin> subscribed (socket_client_manager ctl)) (package_ids pkg)
      | SOCKET_ORDER_AS_REMOVE_FILTER \<Rightarrow> distinct (package_ids pkg) \<and>
          list_all (\<lambda>i. (c, i) \<in> subscribed (socket_client_manager ctl)) (package_ids pkg)
      | _ \<Rightarrow> True)"

definition clients_of :: "CAN_IPC_SOCKET_CLIENT_MANAGER_T \<Rightarrow> u32 \<Rightarrow> int set" where
  "clients_of m i = {c. (c, i) \<in> subscribed m}"

text \<open>Every identifier is counted at least once for each client subscribed to it.\<close>

definition counts_cover :: "'w controller \<Rightarrow> bool" where
  "counts_cover ctl \<longleftrightarrow>
     (\<forall>i. card (clients_of (socket_client_manager ctl) i) \<le>
        count (port_registered (can_ipc_receiver ctl) Slot_5) i)"

text \<open>Descriptors that come from \<open>accept\<close> are not negative.\<close>

definition fds_ok :: "'w controller \<Rightarrow> bool" where
  "fds_ok ctl \<longleftrightarrow> (\<forall>c \<in> set (client_threads ctl). 0 \<le> c) \<and>
     (\<forall>c i. (c, i) \<in> subscribed (socket_client_manager ctl) \<longrightarrow> 0 \<le> c)"

definition disciplined_inv :: "'w controller \<Rightarrow> bool" where
  "disciplined_inv ctl \<longleftrightarrow> service_inv ctl \<and> counts_cover ctl \<and> fds_ok ctl"

lemma finite_clients_of: "service_inv ctl \<Longrightarrow> finite (clients_of (socket_client_manager ctl) i)"
  by (rule finite_subset [of _ "set (receivers (socket_client_manager ctl) i)"])
    (auto simp: service_inv_def manager_inv_def covers_def clients_of_def)

lemma clients_of_ops:
  assumes "wf_index (socket_client_index m)"
  shows "clients_of (manager_add c ids m) i =
      (if i \<in> set ids then insert c (clients_of m i) else clients_of m i)"
    and "clients_of (removed_manager c ids m) i =
      (if i \<in> set ids then clients_of m i - {c} else clients_of m i)"
    and "clients_of (clean_socket_client_index c m) i = clients_of m i - {c}"
  using cm.subs_add [OF assms] subscribed_removed [OF assms] cm.subs_hangup [OF assms]
  by (auto simp: clients_of_def)

lemma counts_cover_package:
  assumes "wf_package pkg" and "handle_package h c pkg ctl = Inr ctl'" and "disciplined c pkg ctl"
    and inv: "disciplined_inv ctl"
  shows "counts_cover ctl'"
  unfolding counts_cover_def
proof
  fix i
  let ?m = "socket_client_manager ctl" and ?R = "port_registered (can_ipc_receiver ctl) Slot_5"
  from inv have wf: "wf_index (socket_client_index ?m)" "wf_receiver (can_ipc_receiver ctl)"
    and fin: "finite (clients_of ?m i)" and le: "card (clients_of ?m i) \<le> count ?R i"
    by (simp_all add: disciplined_inv_def service_inv_def manager_inv_def layer_inv_def
        counts_cover_def finite_clients_of)
  have single: "distinct (package_ids pkg) \<Longrightarrow>
      count (mset (package_ids pkg)) i = (if i \<in> set (package_ids pkg) then 1 else 0)"
    by (simp add: distinct_count_atmost_1)
  from assms(1,2) show "card (clients_of (socket_client_manager ctl') i) \<le>
      count (port_registered (can_ipc_receiver ctl') Slot_5) i"
  proof (cases rule: handle_package_cases)
    case (other w)
    with le show ?thesis by simp
  next
    case add
    with assms(3) have "distinct (package_ids pkg)" and
      "i \<in> set (package_ids pkg) \<Longrightarrow> c \<notin> clients_of ?m i"
      by (auto simp: disciplined_def clients_of_def list_all_iff)
    with add le fin wf show ?thesis by (simp add: clients_of_ops port_registered_package single)
  next
    case remove
    with assms(3) have "distinct (package_ids pkg)" and
      "i \<in> set (package_ids pkg) \<Longrightarrow> c \<in> clients_of ?m i"
      by (auto simp: disciplined_def clients_of_def list_all_iff)
    with remove le fin wf show ?thesis
      by (simp add: clients_of_ops port_registered_package single diff_le_mono)
  qed
qed

text \<open>The two threads do not touch the tables.\<close>

lemma rx_loop_filter: "rx_loop n buf p r = Inr r' \<Longrightarrow> receiver_filter r' = receiver_filter r"
  by (induction n buf p r rule: rx_loop.induct) (auto simp: res_simps split: if_splits)

lemma receive_pass_filter:
  "receive_pass h ts r w = Inr (r', w') \<Longrightarrow> receiver_filter r' = receiver_filter r"
proof (induction h ts r w rule: receive_pass.induct)
  case (2 h s t ts r w)
  have "receiver_filter r1 = receiver_filter r" if "get_raw_can_data h t r w = Inr (r1, w1)" for r1 w1
    using that by (auto simp: get_raw_can_data_def Let_def case_prod_unfold res_simps
        dest: rx_loop_filter split: if_splits)
  with 2 show ?case by (auto simp: res_simps split: if_splits)
qed simp

lemma receive_filter:
  "receive_ipc_can_task h 1 ts r w = Inr (r', w') \<Longrightarrow> receiver_filter r' = receiver_filter r"
  by (auto simp: res_simps dest: receive_pass_filter split: if_splits)

lemma work_filter:
  "work_queue_task_round r = (round, r') \<Longrightarrow> receiver_filter r' = receiver_filter r"
  by (auto simp: work_queue_task_round_def split: if_splits prod.splits deq_result.splits)

lemma counts_cover_frame:
  assumes "counts_cover ctl" and "socket_client_manager ctl' = socket_client_manager ctl"
    and "receiver_filter (can_ipc_receiver ctl') = receiver_filter (can_ipc_receiver ctl)"
  shows "counts_cover ctl'"
  using assms by (simp add: counts_cover_def port_registered_def)

lemma worker_round_frame:
  assumes "worker_round ctl = Inr ctl'" and "service_inv ctl"
  shows "socket_client_manager ctl' = socket_client_manager ctl \<and>
    receiver_filter (can_ipc_receiver ctl') = receiver_filter (can_ipc_receiver ctl)"
proof -
  obtain round r where rd: "work_queue_task_round (can_ipc_receiver ctl) = (round, r)"
    by (cases "work_queue_task_round (can_ipc_receiver ctl)")
  from assms(2) have "callbacks_ok (can_ipc_receiver ctl)" by (simp add: service_inv_def)
  with assms(1) work_filter [OF rd] show ?thesis by (auto simp: worker_round_eq [OF _ rd])
qed

lemma fds_ok_package:
  assumes "wf_package pkg" and "handle_package h c pkg ctl = Inr ctl'"
    and "c \<in> set (client_threads ctl)" and "service_inv ctl" and fds: "fds_ok ctl"
  shows "fds_ok ctl'"
proof -
  from assms(4) have wf: "wf_index (socket_client_index (socket_client_manager ctl))"
    by (simp add: service_inv_def manager_inv_def)
  from assms(3) fds have "0 \<le> c" by (simp add: fds_ok_def)
  from assms(1,2) show ?thesis
    by (cases rule: handle_package_cases)
      (use fds \<open>0 \<le> c\<close> cm.subs_add [OF wf] subscribed_removed [OF wf] in
        \<open>auto simp: fds_ok_def\<close>)
qed

lemma fds_ok_step:
  assumes "service_inv ctl" and "fds_ok ctl" and "service_step h allowed ctl ctl'"
  shows "fds_ok ctl'"
  using assms(3)
proof cases
  case (client_package c pkg)
  then show ?thesis by (intro fds_ok_package [OF _ _ _ assms(1,2)])
next
  case (client_leaves c)
  with assms(2) show ?thesis
    by (auto simp: fds_ok_def hang_up_def subscribed_clean dest: notin_set_remove1)
next
  case (receiver_runs ts)
  with assms(2) show ?thesis by (elim receiver_round_cases) (simp add: fds_ok_def)
next
  case worker_runs
  from assms(1) have cb: "callbacks_ok (can_ipc_receiver ctl)" by (simp add: service_inv_def)
  obtain round r where "work_queue_task_round (can_ipc_receiver ctl) = (round, r)"
    by (cases "work_queue_task_round (can_ipc_receiver ctl)")
  from worker_round_eq [OF cb this] worker_runs assms(2) show ?thesis by (auto simp: fds_ok_def)
qed (use assms(2) in \<open>auto simp: fds_ok_def stop_def Let_def\<close>)

lemma disciplined_inv_step:
  assumes "disciplined_inv ctl" and "service_step h disciplined ctl ctl'"
  shows "disciplined_inv ctl'"
proof -
  from assms(1) have inv: "service_inv ctl" "counts_cover ctl" by (simp_all add: disciplined_inv_def)
  from assms(2) have "counts_cover ctl'"
  proof cases
    case (client_connects c)
    with inv show ?thesis by (simp add: counts_cover_def)
  next
    case (client_package c pkg)
    with assms(1) show ?thesis by (intro counts_cover_package)
  next
    case (client_leaves c)
    have wf: "wf_index (socket_client_index (socket_client_manager ctl))"
      using inv by (simp add: service_inv_def manager_inv_def)
    have "card (clients_of (socket_client_manager ctl) i - {c}) \<le>
        card (clients_of (socket_client_manager ctl) i)" for i
      by (rule card_mono) (auto intro: finite_clients_of inv(1))
    then have "card (clients_of (socket_client_manager ctl) i - {c}) \<le>
        count (port_registered (can_ipc_receiver ctl) Slot_5) i" for i
      using inv(2) unfolding counts_cover_def by (meson order_trans)
    with client_leaves show ?thesis
      by (simp add: counts_cover_def hang_up_def clients_of_ops [OF wf])
  next
    case (receiver_runs ts)
    then obtain r w where "ctl' = ctl\<lparr>can_ipc_receiver := r, hal_world := w\<rparr>"
      and "receive_ipc_can_task h 1 ts (can_ipc_receiver ctl) (hal_world ctl) = Inr (r, w)"
      by (rule receiver_round_cases)
    with receive_filter [OF this(2)] show ?thesis
      using inv(2) by (auto simp del: receive_ipc_can_task.simps intro!: counts_cover_frame [OF inv(2)])
  next
    case worker_runs
    from worker_round_frame [OF this inv(1)] show ?thesis
      using counts_cover_frame [OF inv(2)] by blast
  next
    case service_stops
    then show ?thesis
      using counts_cover_frame [OF inv(2), of ctl'] by (simp add: stop_def Let_def split: if_splits)
  qed
  with service_inv_step [OF inv(1) assms(2)] fds_ok_step [OF inv(1) _ assms(2)] assms(1)
  show ?thesis by (simp add: disciplined_inv_def)
qed

lemma disciplined_inv_init: "service_init ctl \<Longrightarrow> disciplined_inv ctl"
proof -
  assume init: "service_init ctl"
  then obtain sys w where "start_controller sys [] (empty_controller w) = (True, ctl)"
    by (auto simp: service_init_def)
  note ctl = start_controller_success [OF this]
  then have "clients_of (socket_client_manager ctl) i = {}" for i
    by (simp add: clients_of_def)
  moreover from ctl have "fds_ok ctl"
    by (simp add: fds_ok_def) (simp add: empty_controller_def new_controller_def)
  ultimately show ?thesis
    using service_inv_init [OF init] by (simp add: disciplined_inv_def counts_cover_def)
qed

interpretation orderly: invariant_system service_init "service_step h disciplined" disciplined_inv for h
  by unfold_locales (auto intro: disciplined_inv_init disciplined_inv_step)

section \<open>Delivery\<close>

text \<open>The worker runs several rounds.\<close>

fun worker_rounds :: "nat \<Rightarrow> 'w controller \<Rightarrow> 'w controller res" where
  "worker_rounds 0 ctl = Inr ctl"
| "worker_rounds (Suc n) ctl = res_bind (worker_round ctl) (worker_rounds n)"

definition worker_ready :: "rx_callback CAN_IPC_RECEIVER \<Rightarrow> bool" where
  "worker_ready r \<longleftrightarrow> work_task_queue_running r \<and> \<not> work_task_queue_paused r \<and>
     \<not> stopped (work_queue_handle r)"

lemma worker_round_task:
  assumes "worker_ready (can_ipc_receiver ctl)"
    and "work_queue (work_queue_handle (can_ipc_receiver ctl)) = t # ts"
    and "fst t = Some Socket_Receive_Callback"
  shows "worker_round ctl = Inr (io (frame_writes (socket_client_manager ctl) (snd t))
    (ctl\<lparr>can_ipc_receiver := (can_ipc_receiver ctl)
       \<lparr>work_queue_handle := (work_queue_handle (can_ipc_receiver ctl))\<lparr>work_queue := ts\<rparr>\<rparr>\<rparr>))"
  using assms by (simp add: worker_round_def work_queue_task_round_def worker_ready_def
      dequeue_blocking_def)

lemma worker_rounds_drain:
  assumes "worker_ready (can_ipc_receiver ctl)"
    and "work_queue (work_queue_handle (can_ipc_receiver ctl)) = ts @ us"
    and "\<forall>t \<in> set ts. fst t = Some Socket_Receive_Callback"
  shows "worker_rounds (length ts) ctl =
    Inr (io (concat (map (\<lambda>t. frame_writes (socket_client_manager ctl) (snd t)) ts))
      (ctl\<lparr>can_ipc_receiver := (can_ipc_receiver ctl)
         \<lparr>work_queue_handle := (work_queue_handle (can_ipc_receiver ctl))\<lparr>work_queue := us\<rparr>\<rparr>\<rparr>))"
  using assms
proof (induction ts arbitrary: ctl)
  case Nil
  then show ?case by (simp add: io_def)
next
  case (Cons t ts)
  let ?r = "(can_ipc_receiver ctl)
    \<lparr>work_queue_handle := (work_queue_handle (can_ipc_receiver ctl))\<lparr>work_queue := ts @ us\<rparr>\<rparr>"
  let ?ctl = "io (frame_writes (socket_client_manager ctl) (snd t)) (ctl\<lparr>can_ipc_receiver := ?r\<rparr>)"
  have "worker_round ctl = Inr ?ctl"
    using Cons.prems by (simp add: worker_round_task)
  moreover have "worker_ready ?r" using Cons.prems(1) by (simp add: worker_ready_def)
  ultimately show ?case
    using Cons.IH [of ?ctl] Cons.prems by (simp add: io_def)
qed

text \<open>The tasks of a batch, when every registered callback is that of the service.\<close>

lemma tasks_for_callbacks:
  assumes "callbacks_ok r"
  shows "tasks_for (receiver_filter r s) fs =
    map (\<lambda>f. (Some Socket_Receive_Callback, f))
      (filter (\<lambda>f. can_ipc_filter_map (receiver_filter r s) (frame_id f) \<noteq> None) fs)"
  using assms by (induction fs) (auto simp: callbacks_ok_def split: option.splits)

lemma match_all_ready:
  assumes "worker_ready r" and "work_queue (work_queue_handle r) = []" and "length fs \<le> MAX_WORK_QUEUE_TASKS"
  shows "worker_ready (match_all (slot_port s) fs r) \<and>
    work_queue (work_queue_handle (match_all (slot_port s) fs r)) = tasks_for (receiver_filter r s) fs"
proof -
  have len: "length (tasks_for t xs) \<le> length xs" for t :: "rx_callback CAN_IPC_RECEIVER_FILTER_T" and xs
    by (induction xs) (auto split: option.splits)
  have flags: "work_task_queue_running (match_all p fs r) = work_task_queue_running r \<and>
      work_task_queue_paused (match_all p fs r) = work_task_queue_paused r" for p
    by (induction fs arbitrary: r) (simp_all add: match_can_filter_def split: option.splits)
  from assms len [of "receiver_filter r s" fs] show ?thesis
    using wq.fold_enq [of "work_queue_handle r" "tasks_for (receiver_filter r s) fs"] flags
    by (simp add: worker_ready_def match_all_queue)
qed

text \<open>What the service should write for a frame: one package to each subscriber, in order.\<close>

definition expected_writes :: "(int \<times> u32) set \<Rightarrow> can_frame_t \<Rightarrow> io_event list" where
  "expected_writes subs f =
     map (\<lambda>c. Io_Write c (encode_package (receive_package f)))
       (sorted_list_of_set {c. (c, frame_id f) \<in> subs})"

lemma frame_writes_expected:
  assumes "fds_ok ctl" and "reverse_ok (socket_client_manager ctl)"
  shows "frame_writes (socket_client_manager ctl) f =
    expected_writes (subscribed (socket_client_manager ctl)) f"
proof -
  let ?R = "receivers (socket_client_manager ctl) (frame_id f)"
  have set: "set ?R = {c. (c, frame_id f) \<in> subscribed (socket_client_manager ctl)}"
    using assms(2) by (rule set_receivers)
  with assms(1) have pos: "filter (\<lambda>fd. 0 \<le> fd) ?R = ?R"
    by (intro filter_True) (auto simp: fds_ok_def)
  have "oset ?R" using assms(2) by (simp add: reverse_ok_def)
  then have "sorted_list_of_set (set ?R) = ?R"
    by (simp add: oset_def sorted_list_of_set.idem_if_sorted_distinct)
  with set pos show ?thesis by (simp add: frame_writes_def expected_writes_def)
qed

text \<open>The tasks of a batch write what is expected: frames without a task have no subscriber.\<close>

lemma tasks_write_expected:
  assumes inv: "disciplined_inv ctl" and rev: "reverse_ok (socket_client_manager ctl)"
  shows "concat (map (\<lambda>t. frame_writes (socket_client_manager ctl) (snd t))
      (tasks_for (receiver_filter (can_ipc_receiver ctl) Slot_5) fs)) =
    concat (map (expected_writes (subscribed (socket_client_manager ctl))) fs)"
proof -
  let ?m = "socket_client_manager ctl" and ?r = "can_ipc_receiver ctl"
  from inv have sinv: "service_inv ctl" and fds: "fds_ok ctl" and counts: "counts_cover ctl"
    by (simp_all add: disciplined_inv_def)
  from sinv have tab: "wf_table (receiver_filter ?r Slot_5)"
    by (simp add: service_inv_def layer_inv_def wf_receiverD)
  have skip: "frame_writes ?m f = []" if "can_ipc_filter_map (receiver_filter ?r Slot_5) (frame_id f) = None" for f
  proof -
    from that have "count (port_registered ?r Slot_5) (frame_id f) = 0"
      using registered_iff [OF tab, of "frame_id f"] by (simp add: port_registered_def not_in_iff)
    with counts have "card (clients_of ?m (frame_id f)) = 0"
      unfolding counts_cover_def by (metis le_zero_eq)
    with finite_clients_of [OF sinv] have "{c. (c, frame_id f) \<in> subscribed ?m} = {}"
      unfolding clients_of_def [symmetric] by (metis card_eq_0_iff)
    then show ?thesis by (simp add: frame_writes_expected [OF fds rev] expected_writes_def)
  qed
  have "concat (map (\<lambda>t. frame_writes ?m (snd t)) (tasks_for (receiver_filter ?r Slot_5) fs)) =
      concat (map (frame_writes ?m) fs)"
    using skip by (induction fs) (auto split: option.splits)
  then show ?thesis by (simp add: frame_writes_expected [OF fds rev] cong: map_cong)
qed

lemma delivery:
  assumes inv: "disciplined_inv ctl" and rev: "reverse_ok (socket_client_manager ctl)"
    and ready: "worker_ready (can_ipc_receiver ctl)"
    and empty: "work_queue (work_queue_handle (can_ipc_receiver ctl)) = []"
    and len: "length fs \<le> MAX_WORK_QUEUE_TASKS"
  shows "\<exists>n ctl'. worker_rounds n
      (ctl\<lparr>can_ipc_receiver := match_all CAN_DEV_PORT_5 fs (can_ipc_receiver ctl)\<rparr>) = Inr ctl' \<and>
    io_log ctl' = io_log ctl @
      concat (map (expected_writes (subscribed (socket_client_manager ctl))) fs)"
proof -
  let ?r = "can_ipc_receiver ctl"
  let ?r' = "match_all (slot_port Slot_5) fs ?r"
  let ?ts = "tasks_for (receiver_filter ?r Slot_5) fs"
  have cb: "callbacks_ok ?r" using inv by (simp add: disciplined_inv_def service_inv_def)
  have q: "worker_ready ?r'" "work_queue (work_queue_handle ?r') = ?ts @ []"
    using match_all_ready [OF ready empty len, of Slot_5] by simp_all
  have "\<forall>t \<in> set ?ts. fst t = Some Socket_Receive_Callback"
    unfolding tasks_for_callbacks [OF cb] by auto
  then show ?thesis
    using worker_rounds_drain [of "ctl\<lparr>can_ipc_receiver := ?r'\<rparr>" ?ts "[]"] q
      tasks_write_expected [OF inv rev, of fs]
    by (intro exI [of _ "length ?ts"]) simp
qed

text \<open>
  Every subscriber gets every frame, from the table of filters to the bytes on its socket. In
  every state that clients keeping to the discipline can reach, with the worker idle and no
  disconnected client left in the reverse index, let a batch of at most 10000 frames come in on
  port 5: after finitely many rounds of the worker the service has written, for each frame in turn
  and each client subscribed to its identifier in ascending order, the package with that frame, and
  nothing else.
\<close>

theorem subscribers_get_every_frame:
  assumes "reach service_init (service_step h disciplined) ctl"
    and "reverse_ok (socket_client_manager ctl)"
    and "worker_ready (can_ipc_receiver ctl)"
    and "work_queue (work_queue_handle (can_ipc_receiver ctl)) = []"
    and "length fs \<le> MAX_WORK_QUEUE_TASKS"
  shows "\<exists>n ctl'. worker_rounds n
      (ctl\<lparr>can_ipc_receiver := match_all CAN_DEV_PORT_5 fs (can_ipc_receiver ctl)\<rparr>) = Inr ctl' \<and>
    io_log ctl' = io_log ctl @ concat (map (\<lambda>f.
      map (\<lambda>c. Io_Write c (encode_package (receive_package f)))
        (sorted_list_of_set {c. (c, frame_id f) \<in> subscribed (socket_client_manager ctl)})) fs)"
  using delivery [OF orderly.reach_inv [OF assms(1)] assms(2-5)]
  unfolding expected_writes_def by simp

text \<open>A service with one client that has added identifier 2, reached by steps.\<close>

definition serving :: "'w \<Rightarrow> 'w controller" where
  "serving w =
     (let pkg = filter_package SOCKET_ORDER_AS_ADD_FILTER [2];
          ctl = accept_connections [Accepted 7] (started w)
      in acked 7 pkg (ctl\<lparr>
           socket_client_manager := manager_add 7 [2] (socket_client_manager ctl),
           can_ipc_receiver := registered_receiver pkg
             (lib_pause_can_ipc_receiver (can_ipc_receiver ctl)) (Some Socket_Receive_Callback)\<rparr>))"

lemma started_sel:
  "ctl_is_running (started w)"
  "socket_client_manager (started w) = socket_client_manager (empty_controller w)"
  "can_ipc_receiver (started w) =
     lib_start_can_ipc_receiver (lib_enable_can_receiver_port CAN_PORT_5 new_CAN_IPC_RECEIVER)"
  by (simp_all add: started_def start_controller_def good_syscalls_def Let_def direct_receiver
      empty_controller_def new_controller_def split: option.split)

lemma reach_serving: "reach service_init (service_step h disciplined) (serving w)"
proof -
  let ?p = "filter_package SOCKET_ORDER_AS_ADD_FILTER [2]"
  let ?ctl = "accept_connections [Accepted 7] (started w)"
  have reach: "reach service_init (service_step h disciplined) ?ctl"
    by (rule reach_step [OF reach_started client_connects]) (simp_all add: started_sel)
  have orderly: "disciplined 7 ?p ?ctl"
    using empty_controller_ok(3) [of w]
    by (simp add: disciplined_def filter_package_ids started_sel)
  have handled: "handle_package h 7 ?p ?ctl = Inr (serving w)"
    by (simp add: serving_def Let_def handle_orders wf_filter_package filter_package_ids)
  have thread: "7 \<in> set (client_threads ?ctl)" by (simp add: started_sel)
  have wf: "wf_package ?p" by (simp add: wf_filter_package)
  from reach show ?thesis
    by (rule reach_step) (rule client_package [where allowed = disciplined, OF thread wf orderly handled])
qed

lemma serving_sel:
  "reverse_ok (socket_client_manager (serving w))"
  "subscribed (socket_client_manager (serving w)) = {(7, 2)}"
  "worker_ready (can_ipc_receiver (serving w))"
  "work_queue (work_queue_handle (can_ipc_receiver (serving w))) = []"
  using empty_controller_ok [of w]
  by (simp_all add: serving_def Let_def started_sel reverse_ok_operations cm.subs_add)
    (simp_all add: worker_ready_def registered_receiver_def set_table_def lib_control
      receiver_control clear_queue_eq new_CAN_IPC_RECEIVER_def init_can_filter_def
      static_CAN_IPC_RECEIVER_def new_WORK_QUEUE_def)

theorem subscribers_get_every_frame_witness:
  "\<exists>n ctl'. worker_rounds n ((serving ([] :: (string \<times> canframe) list))\<lparr>can_ipc_receiver :=
       match_all CAN_DEV_PORT_5 [zero_frame\<lparr>frame_id := 2\<rparr>, zero_frame\<lparr>frame_id := 3\<rparr>]
         (can_ipc_receiver (serving ([] :: (string \<times> canframe) list)))\<rparr>) = Inr ctl' \<and>
     io_log ctl' = io_log (serving ([] :: (string \<times> canframe) list)) @
       [Io_Write 7 (encode_package (receive_package (zero_frame\<lparr>frame_id := 2\<rparr>)))]"
  using subscribers_get_every_frame [OF reach_serving [of recording_hal "[]"] serving_sel(1,3,4),
      of "[zero_frame\<lparr>frame_id := 2\<rparr>, zero_frame\<lparr>frame_id := 3\<rparr>]"]
  by (simp add: serving_sel MAX_WORK_QUEUE_TASKS_def)

end
