(* ===== verification/Pause_Protocol.thy ===== *)
theory Pause_Protocol
  imports Ipc_Prelude
begin

text \<open>
  How the handlers of the clients keep the receive thread away from the tables while they change
  them: \<open>pause_receive_ipc_can_task\<close> and \<open>resume_receive_ipc_can_task\<close> of
  \<^verbatim>\<open>src/core/can_ipc_receiver.cpp\<close>, called around each change by \<open>handle_client\<close> of
  \<^verbatim>\<open>src/core/ipc_socket_controller.cpp\<close>, against the wait at the head of the loop of
  \<open>receive_ipc_can_task\<close>. The tables themselves have no lock.

  One step is one access to the shared flag: the evaluation of the predicate under the mutex, the
  store of a pause (without the mutex), the store of a resume (under the mutex), a notification; and
  the wait may end without one.
\<close>

section \<open>The threads\<close>

text \<open>The receive thread is about to evaluate the predicate, sleeps on the condition, or polls.\<close>

datatype receiver_pc = R_Test | R_Sleep | R_Pass

text \<open>A handler reads from its client, changes the tables, or is about to notify the receiver.\<close>

datatype handler_pc = H_Read | H_Change | H_Notify

record pause_sys =
  task_paused :: bool
  receiver_at :: receiver_pc
  handlers :: "nat \<Rightarrow> handler_pc"

definition pause_start :: pause_sys where
  "pause_start = \<lparr>task_paused = False, receiver_at = R_Test, handlers = (\<lambda>_. H_Read)\<rparr>"

definition pause_init :: "pause_sys \<Rightarrow> bool" where
  "pause_init s \<longleftrightarrow> s = pause_start"

inductive pause_step :: "nat \<Rightarrow> pause_sys \<Rightarrow> pause_sys \<Rightarrow> bool" for n :: nat where
  receiver_tests: "receiver_at s = R_Test \<Longrightarrow>
     pause_step n s (s\<lparr>receiver_at := (if task_paused s then R_Sleep else R_Pass)\<rparr>)"
| receiver_done: "receiver_at s = R_Pass \<Longrightarrow> pause_step n s (s\<lparr>receiver_at := R_Test\<rparr>)"
| receiver_spurious: "receiver_at s = R_Sleep \<Longrightarrow> pause_step n s (s\<lparr>receiver_at := R_Test\<rparr>)"
| handler_pauses: "i < n \<Longrightarrow> handlers s i = H_Read \<Longrightarrow>
     pause_step n s (s\<lparr>task_paused := True, handlers := (handlers s)(i := H_Change)\<rparr>)"
| handler_resumes: "i < n \<Longrightarrow> handlers s i = H_Change \<Longrightarrow>
     pause_step n s (s\<lparr>task_paused := False, handlers := (handlers s)(i := H_Notify)\<rparr>)"
| handler_notifies: "i < n \<Longrightarrow> handlers s i = H_Notify \<Longrightarrow>
     pause_step n s (s\<lparr>receiver_at := (if receiver_at s = R_Sleep then R_Test else receiver_at s),
                       handlers := (handlers s)(i := H_Read)\<rparr>)"

inductive_cases pause_stepE: "pause_step n s t"

section \<open>The receiver is woken\<close>

definition wakeup_pending :: "nat \<Rightarrow> pause_sys \<Rightarrow> bool" where
  "wakeup_pending n s \<longleftrightarrow>
     (receiver_at s = R_Sleep \<and> \<not> task_paused s \<longrightarrow> (\<exists>i<n. handlers s i = H_Notify))"

lemma wakeup_pending_step:
  assumes "wakeup_pending n s" and "pause_step n s t"
  shows "wakeup_pending n t"
  using assms(2)
proof cases
  case (handler_resumes i)
  then have "handlers t i = H_Notify" by simp
  with handler_resumes(2) show ?thesis by (auto simp: wakeup_pending_def)
qed (use assms(1) in \<open>auto simp: wakeup_pending_def\<close>)

interpretation resume: invariant_system pause_init "pause_step n" "wakeup_pending n" for n
  by unfold_locales
    (simp add: pause_init_def pause_start_def wakeup_pending_def, rule wakeup_pending_step)

text \<open>
  A resume is not lost: in every reachable state, if the receive thread sleeps although the pause
  is over, some handler is still about to notify it. So when every handler is back at reading, the
  receive thread sleeps only during a pause.
\<close>

theorem resume_not_lost:
  assumes "reach pause_init (pause_step n) s"
    and "receiver_at s = R_Sleep" and "\<And>i. i < n \<Longrightarrow> handlers s i \<noteq> H_Notify"
  shows "task_paused s"
  using resume.reach_inv [OF assms(1)] assms(2,3) by (auto simp: wakeup_pending_def)

section \<open>What a pause does and does not guarantee\<close>

text \<open>With one client: while its handler changes the tables, the flag is set.\<close>

definition pause_holds :: "pause_sys \<Rightarrow> bool" where
  "pause_holds s \<longleftrightarrow> (handlers s 0 = H_Change \<longrightarrow> task_paused s)"

lemma pause_holds_step:
  assumes "pause_holds s" and "pause_step 1 s t"
  shows "pause_holds t"
  using assms(2) by cases (use assms(1) in \<open>auto simp: pause_holds_def\<close>)

interpretation single: invariant_system pause_init "pause_step 1" pause_holds
  by unfold_locales
    (simp add: pause_init_def pause_start_def pause_holds_def, rule pause_holds_step)

text \<open>
  With a single client no pass over the ports begins while its handler changes the tables: a
  pass that runs during the change was already running before.
\<close>

theorem single_client_excludes_new_pass:
  assumes "reach pause_init (pause_step 1) s" and "pause_step 1 s t"
    and "handlers s 0 = H_Change" and "receiver_at t = R_Pass"
  shows "receiver_at s = R_Pass"
proof -
  from single.reach_inv [OF assms(1)] assms(3) have "task_paused s" by (simp add: pause_holds_def)
  with assms(2-4) show ?thesis by (elim pause_stepE) (auto split: if_splits)
qed

lemma reach_start: "reach pause_init (pause_step n) pause_start"
  by (rule reach_init) (simp add: pause_init_def)

text \<open>The states of the scenarios: a pause by handler 0, with handler 1 at \<open>h\<close>.\<close>

definition changing :: "bool \<Rightarrow> receiver_pc \<Rightarrow> handler_pc \<Rightarrow> pause_sys" where
  "changing p r h =
     \<lparr>task_paused = p, receiver_at = r, handlers = (\<lambda>_. H_Read)(0 := H_Change, Suc 0 := h)\<rparr>"

lemma changing_sel [simp]:
  "task_paused (changing p r h) = p" "receiver_at (changing p r h) = r"
  "handlers (changing p r h) 0 = H_Change" "handlers (changing p r h) (Suc 0) = h"
  by (simp_all add: changing_def)

lemma handler_1_reads: "f (Suc 0) = h \<Longrightarrow> f(0 := x, Suc 0 := h) = f(0 := x)"
  by (rule ext) simp

lemma reach_changing:
  assumes "0 < n"
  shows "reach pause_init (pause_step n) (changing True R_Pass H_Read)"
proof -
  have "reach pause_init (pause_step n) (pause_start\<lparr>receiver_at := R_Pass\<rparr>)"
    by (rule reach_step [OF reach_start])
      (use receiver_tests [of pause_start n] in \<open>simp add: pause_start_def\<close>)
  then show ?thesis
    by (rule reach_step)
      (use handler_pauses [OF assms, of "pause_start\<lparr>receiver_at := R_Pass\<rparr>"] in
        \<open>simp add: pause_start_def changing_def handler_1_reads\<close>)
qed

lemma reach_changing_waits:
  assumes "0 < n"
  shows "reach pause_init (pause_step n) (changing True R_Test H_Read)"
  by (rule reach_step [OF reach_changing [OF assms]])
    (use receiver_done [of "changing True R_Pass H_Read" n] in \<open>simp add: changing_def\<close>)

lemma reach_changing_sleeps:
  assumes "0 < n"
  shows "reach pause_init (pause_step n) (changing True R_Sleep H_Read)"
  by (rule reach_step [OF reach_changing_waits [OF assms]])
    (use receiver_tests [of "changing True R_Test H_Read" n] in \<open>simp add: changing_def\<close>)

theorem resume_not_lost_witness:
  "receiver_at (changing True R_Sleep H_Read) = R_Sleep \<and> task_paused (changing True R_Sleep H_Read)"
  using resume_not_lost [OF reach_changing_sleeps [of 1]] by simp

theorem single_client_excludes_new_pass_witness:
  "\<exists>s t. reach pause_init (pause_step 1) s \<and> pause_step 1 s t \<and> handlers s 0 = H_Change \<and>
     receiver_at t = R_Pass \<and> receiver_at s = R_Pass"
proof -
  let ?s = "changing True R_Pass H_Read"
  let ?t = "?s\<lparr>task_paused := False, handlers := (handlers ?s)(0 := H_Notify)\<rparr>"
  have reach: "reach pause_init (pause_step 1) ?s" by (rule reach_changing) simp
  have step: "pause_step 1 ?s ?t" by (rule handler_resumes) simp_all
  from single_client_excludes_new_pass [OF reach step] reach step show ?thesis
    by (intro exI [of _ ?s] exI [of _ ?t]) simp
qed

text \<open>
  A pause does not wait for the receive thread: already with one client a state is reachable in
  which the handler changes the tables, which have no lock, while the receive thread is in the
  middle of a pass that reads them.
\<close>

theorem pause_does_not_wait:
  assumes "0 < n"
  shows "\<exists>s. reach pause_init (pause_step n) s \<and> task_paused s \<and> handlers s 0 = H_Change \<and>
    receiver_at s = R_Pass"
  using reach_changing [OF assms] by (intro exI [of _ "changing True R_Pass H_Read"]) simp

theorem pause_does_not_wait_witness:
  "\<exists>s. reach pause_init (pause_step 1) s \<and> task_paused s \<and> handlers s 0 = H_Change \<and>
    receiver_at s = R_Pass"
  using pause_does_not_wait [of 1] by simp

text \<open>
  Pauses do not nest: with two clients, the resume of one ends the pause of the other, so that
  the receive thread begins a new pass while the handler of the other changes the tables.
\<close>

theorem pauses_do_not_nest:
  assumes "1 < n"
  shows "\<exists>s t. reach pause_init (pause_step n) s \<and> handlers s 0 = H_Change \<and>
    receiver_at s \<noteq> R_Pass \<and> pause_step n s t \<and> handlers t 0 = H_Change \<and> receiver_at t = R_Pass"
proof -
  have n: "Suc 0 < n" using assms by simp
  then have "reach pause_init (pause_step n) (changing True R_Test H_Read)"
    by (intro reach_changing_waits) simp
  then have "reach pause_init (pause_step n) (changing True R_Test H_Change)"
    by (rule reach_step)
      (use handler_pauses [OF n, of "changing True R_Test H_Read"] in \<open>simp add: changing_def\<close>)
  then have "reach pause_init (pause_step n) (changing False R_Test H_Notify)"
    by (rule reach_step)
      (use handler_resumes [OF n, of "changing True R_Test H_Change"] in \<open>simp add: changing_def\<close>)
  moreover have "pause_step n (changing False R_Test H_Notify) (changing False R_Pass H_Notify)"
    using receiver_tests [of "changing False R_Test H_Notify" n] by (simp add: changing_def)
  ultimately show ?thesis
    by (intro exI [of _ "changing False R_Test H_Notify"] exI [of _ "changing False R_Pass H_Notify"])
      simp
qed

theorem pauses_do_not_nest_witness:
  "\<exists>s t. reach pause_init (pause_step 2) s \<and> handlers s 0 = H_Change \<and>
    receiver_at s \<noteq> R_Pass \<and> pause_step 2 s t \<and> handlers t 0 = H_Change \<and> receiver_at t = R_Pass"
  using pauses_do_not_nest [of 2] by simp

end
