(* ===== verification/Service_Threads.thy ===== *)
theory Service_Threads
  imports Service_System Pause_Protocol
begin

text \<open>
  The service at the granularity of its threads: the handlers of \<^verbatim>\<open>ipc_socket_controller.cpp\<close>
  and the two threads of \<^verbatim>\<open>can_ipc_receiver.cpp\<close>, each with a program counter, interleaved
  at every access to what they share: the pause flags and their conditions, the client manager, the
  filter tables, the work queue, the clients' sockets.

  A thread is a function from its place and the shared state to its next place and the new state.
  Run without interruption the steps of a thread come to the operations of \<open>Controller\<close>, which is
  what the last section shows; \<open>threads_step\<close> interleaves them.

  An operation on a table is one step although the tables have no lock. Where two threads may be
  inside such an operation at the same time the behaviour is undefined; the states in which this is
  about to happen are \<open>manager_race\<close> and \<open>table_race\<close>.
\<close>

section \<open>The handler of a client\<close>

text \<open>
  Where a handler is: it reads from its client, or it carries out an order to change the filters
  and is about to set the worker's pause flag, to change the client manager, to change the tables,
  to write the acknowledgement, to clear the worker's flag and notify it, to clear the receive
  thread's flag and notify it.
\<close>

datatype handler_place =
    At_Read
  | At_Pause_Worker SOCKET_PACKAGE_T
  | At_Manager SOCKET_PACKAGE_T
  | At_Filter SOCKET_PACKAGE_T
  | At_Ack SOCKET_PACKAGE_T int
  | At_Resume_Worker
  | At_Notify_Worker
  | At_Resume_Receiver
  | At_Notify_Receiver

text \<open>The switch over the order of a package, up to the first access to a flag.\<close>

definition handler_begins ::
  "'w hal \<Rightarrow> SOCKET_PACKAGE_T \<Rightarrow> 'w controller \<Rightarrow> (handler_place \<times> 'w controller) res" where
  "handler_begins h pkg ctl =
     (case socket_order pkg of
        SOCKET_ORDER_AS_SEND \<Rightarrow>
          res_bind (handle_send h pkg ctl) (\<lambda>ctl. Inr (At_Read, ctl))
      | SOCKET_ORDER_AS_ADD_FILTER \<Rightarrow>
          Inr (At_Pause_Worker pkg, on_receiver pause_receive_ipc_can_task ctl)
      | SOCKET_ORDER_AS_REMOVE_FILTER \<Rightarrow>
          Inr (At_Pause_Worker pkg, on_receiver pause_receive_ipc_can_task ctl)
      | _ \<Rightarrow> Inr (At_Read, ctl))"

text \<open>The cases of the two filter orders, from there on. They differ in two calls only.\<close>

definition change_manager ::
  "int \<Rightarrow> SOCKET_PACKAGE_T \<Rightarrow> 'w controller \<Rightarrow> 'w controller res" where
  "change_manager client_socket pkg ctl =
     res_bind
       (if socket_order pkg = SOCKET_ORDER_AS_ADD_FILTER
        then client_manager_register (package_filter pkg) client_socket (socket_client_manager ctl)
        else client_manager_deregister (package_filter pkg) client_socket (socket_client_manager ctl))
       (\<lambda>m. Inr (ctl\<lparr>socket_client_manager := m\<rparr>))"

definition change_filter :: "SOCKET_PACKAGE_T \<Rightarrow> 'w controller \<Rightarrow> (int \<times> 'w controller) res" where
  "change_filter pkg ctl =
     (if socket_order pkg = SOCKET_ORDER_AS_ADD_FILTER
      then direct_can_register_can_filter (package_filter pkg) (Some Socket_Receive_Callback) ctl
      else direct_can_deregister_can_filter (package_filter pkg) ctl)"

fun handler_goes ::
  "int \<Rightarrow> handler_place \<Rightarrow> 'w controller \<Rightarrow> (handler_place \<times> 'w controller) res" where
  "handler_goes c At_Read ctl = Inr (At_Read, ctl)"
| "handler_goes c (At_Pause_Worker pkg) ctl =
     Inr (At_Manager pkg, on_receiver pause_work_queue_task ctl)"
| "handler_goes c (At_Manager pkg) ctl =
     res_bind (change_manager c pkg ctl) (\<lambda>ctl. Inr (At_Filter pkg, ctl))"
| "handler_goes c (At_Filter pkg) ctl =
     res_bind (change_filter pkg ctl) (\<lambda>(ret, ctl). Inr (At_Ack pkg ret, ctl))"
| "handler_goes c (At_Ack pkg ret) ctl =
     Inr (At_Resume_Worker, write_package c (ack_package pkg ret) ctl)"
| "handler_goes c At_Resume_Worker ctl =
     Inr (At_Notify_Worker, on_receiver resume_work_queue_task ctl)"
| "handler_goes c At_Notify_Worker ctl = Inr (At_Resume_Receiver, ctl)"
| "handler_goes c At_Resume_Receiver ctl =
     Inr (At_Notify_Receiver, on_receiver resume_receive_ipc_can_task ctl)"
| "handler_goes c At_Notify_Receiver ctl = Inr (At_Read, ctl)"

section \<open>The receive thread\<close>

text \<open>
  The targets of the five ports, as the thread copies them when it starts, with the slot whose flag
  decides whether the port is polled.
\<close>

type_synonym targets = "(port_slot \<times> can_port_target_t) list"

text \<open>
  The thread starts, is at the head of its loop, sleeps on the condition of the pause, has ports
  left to poll, or is in the loop over received frames: so many of them, the buffer from the
  pointer on, the port, and the ports left.
\<close>

datatype receive_place =
    Rcv_Start
  | Rcv_Test targets
  | Rcv_Sleep targets
  | Rcv_Ports targets targets
  | Rcv_Frames targets targets nat "canframe list" CAN_DEV_PORT_E
  | Rcv_End

text \<open>The part of \<open>get_raw_can_data\<close> before the loop: what the HAL delivers, or no buffer.\<close>

definition receive_frames ::
  "'w hal \<Rightarrow> can_port_target_t \<Rightarrow> 'w \<Rightarrow> (nat \<times> canframe list) option \<times> 'w" where
  "receive_frames h can_port_target w =
     (let (soc, w) = system_clock_ms h w;
          (mcu, w) = system_clock_ms h w;
          frames = SINGLE_RX_BUF_SIZE div sizeof_canframe h;
          pack = \<lparr>soc_ts = soc, data_num = 0, mcu_ts = mcu, pk_length = frames,
                  unused = 0, unused_1 = 0\<rparr>
      in if \<not> malloc_succeeds h w then (None, w)
         else (case canRecvMsgFrame h (target_instance can_port_target)
                      (replicate frames (zero_canframe h)) pack w of
                 (rx_buf, pack, w) \<Rightarrow> (Some (data_num pack, rx_buf), w)))"

fun receive_goes ::
  "'w hal \<Rightarrow> receive_place \<Rightarrow> 'w controller \<Rightarrow> (receive_place \<times> 'w controller) res" where
  "receive_goes h Rcv_Start ctl =
     res_bind (receive_task_targets (can_ipc_receiver ctl)) (\<lambda>ts. Inr (Rcv_Test ts, ctl))"
| "receive_goes h (Rcv_Test ts) ctl =
     Inr (if \<not> receive_ipc_can_task_running (can_ipc_receiver ctl) then Rcv_End
          else if receive_ipc_can_task_paused (can_ipc_receiver ctl) then Rcv_Sleep ts
          else Rcv_Ports ts ts, ctl)"
| "receive_goes h (Rcv_Sleep ts) ctl = Inr (Rcv_Sleep ts, ctl)"
| "receive_goes h (Rcv_Ports ts []) ctl = Inr (Rcv_Test ts, ctl)"
| "receive_goes h (Rcv_Ports ts ((s, t) # us)) ctl =
     (if is_received_port (can_ipc_receiver ctl) s
      then (case receive_frames h t (hal_world ctl) of
              (None, w) \<Rightarrow> Inr (Rcv_Ports ts us, ctl\<lparr>hal_world := w\<rparr>)
            | (Some (n, buf), w) \<Rightarrow>
                Inr (Rcv_Frames ts us n buf (dev_port_of_raw (can_port_index t)), ctl\<lparr>hal_world := w\<rparr>))
      else Inr (Rcv_Ports ts us, ctl))"
| "receive_goes h (Rcv_Frames ts us 0 buf port) ctl = Inr (Rcv_Ports ts us, ctl)"
| "receive_goes h (Rcv_Frames ts us (Suc n) [] port) ctl = Inl Array_Bounds"
| "receive_goes h (Rcv_Frames ts us (Suc n) (f # fs) port) ctl =
     (if cf_len f = 0 then Inr (Rcv_Frames ts us n (f # fs) port, ctl)
      else res_bind (frame_of_canframe f) (\<lambda>can_frame.
             Inr (Rcv_Frames ts us n fs port,
                  on_receiver (\<lambda>r. snd (match_can_filter port can_frame r)) ctl)))"
| "receive_goes h Rcv_End ctl = Inr (Rcv_End, ctl)"

section \<open>The worker\<close>

text \<open>
  The thread is at the head of its loop, sleeps on the condition of the pause, is about to take a
  task, sleeps on the condition of the queue, is about to run a task, or is in the loop over the
  clients of a frame.
\<close>

datatype worker_place =
    Wrk_Test
  | Wrk_Sleep
  | Wrk_Dequeue
  | Wrk_Wait
  | Wrk_Run "rx_callback task"
  | Wrk_Write SOCKET_PACKAGE_T "int list"
  | Wrk_End

fun worker_goes :: "worker_place \<Rightarrow> 'w controller \<Rightarrow> (worker_place \<times> 'w controller) res" where
  "worker_goes Wrk_Test ctl =
     Inr (if \<not> work_task_queue_running (can_ipc_receiver ctl) then Wrk_End
          else if work_task_queue_paused (can_ipc_receiver ctl) then Wrk_Sleep
          else Wrk_Dequeue, ctl)"
| "worker_goes Wrk_Sleep ctl = Inr (Wrk_Sleep, ctl)"
| "worker_goes Wrk_Dequeue ctl =
     (case dequeue_blocking (work_queue_handle (can_ipc_receiver ctl)) of
        (d, q) \<Rightarrow>
          Inr (case d of
                 Deq_Waits \<Rightarrow> Wrk_Wait
               | Deq_Null \<Rightarrow> Wrk_Test
               | Deq_Task task \<Rightarrow>
                   if work_task_queue_running (can_ipc_receiver ctl) then Wrk_Run task else Wrk_Test,
               on_receiver (\<lambda>r. r\<lparr>work_queue_handle := q\<rparr>) ctl))"
| "worker_goes Wrk_Wait ctl = Inr (Wrk_Wait, ctl)"
| "worker_goes (Wrk_Run task) ctl =
     (case task of
        (None, _) \<Rightarrow> Inl Null_Pointer
      | (Some Socket_Receive_Callback, frame) \<Rightarrow>
          (case map_of (socket_client_reverse_index (socket_client_manager ctl)) (frame_id frame) of
             None \<Rightarrow> Inr (Wrk_Test, ctl)
           | Some clients \<Rightarrow> Inr (Wrk_Write (receive_package frame) clients, ctl)))"
| "worker_goes (Wrk_Write pkg []) ctl = Inr (Wrk_Test, ctl)"
| "worker_goes (Wrk_Write pkg (fd # fds)) ctl =
     Inr (Wrk_Write pkg fds, if fd < 0 then ctl else write_package fd pkg ctl)"
| "worker_goes Wrk_End ctl = Inr (Wrk_End, ctl)"

section \<open>All threads interleaved\<close>

record 'w threads =
  shared :: "'w controller"
  handler_at :: "nat \<Rightarrow> handler_place"
  receive_at :: receive_place
  worker_at :: worker_place

text \<open>Notifying one waiter of a condition.\<close>

fun wake_receiver :: "receive_place \<Rightarrow> receive_place" where
  "wake_receiver (Rcv_Sleep ts) = Rcv_Test ts"
| "wake_receiver p = p"

fun wake_worker :: "worker_place \<Rightarrow> worker_place" where
  "wake_worker Wrk_Sleep = Wrk_Test"
| "wake_worker p = p"

text \<open>\<open>enqueue\<close> notifies the worker that waits for a task.\<close>

fun notify_queue :: "worker_place \<Rightarrow> worker_place" where
  "notify_queue Wrk_Wait = Wrk_Dequeue"
| "notify_queue p = p"

definition queue_length :: "'w controller \<Rightarrow> nat" where
  "queue_length ctl = wq_size (work_queue_handle (can_ipc_receiver ctl))"

text \<open>
  \<open>n\<close> bounds the descriptors of the process, \<open>allowed\<close> restricts the packages of the clients. The
  kernel gives a new client a descriptor that no handler uses. A handler ends by its last lines
  (\<open>leaves\<close>) or by the early return for a wrong magic code (\<open>drops\<close>).
\<close>

inductive threads_step :: "'w hal \<Rightarrow> 'w policy \<Rightarrow> nat \<Rightarrow> 'w threads \<Rightarrow> 'w threads \<Rightarrow> bool"
  for h :: "'w hal" and allowed :: "'w policy" and n :: nat where
  connects: "ctl_is_running (shared s) \<Longrightarrow> i < n \<Longrightarrow> int i \<notin> set (client_threads (shared s)) \<Longrightarrow>
     threads_step h allowed n s (s\<lparr>shared := accept_connections [Accepted (int i)] (shared s)\<rparr>)"
| package: "i < n \<Longrightarrow> int i \<in> set (client_threads (shared s)) \<Longrightarrow> handler_at s i = At_Read \<Longrightarrow>
     wf_package pkg \<Longrightarrow> allowed (int i) pkg (shared s) \<Longrightarrow>
     handler_begins h pkg (shared s) = Inr (p, ctl) \<Longrightarrow>
     threads_step h allowed n s (s\<lparr>shared := ctl, handler_at := (handler_at s)(i := p)\<rparr>)"
| handler: "i < n \<Longrightarrow> handler_at s i \<noteq> At_Read \<Longrightarrow>
     handler_goes (int i) (handler_at s i) (shared s) = Inr (p, ctl) \<Longrightarrow>
     threads_step h allowed n s (s\<lparr>shared := ctl, handler_at := (handler_at s)(i := p),
       receive_at := (if handler_at s i = At_Notify_Receiver then wake_receiver (receive_at s)
                      else receive_at s),
       worker_at := (if handler_at s i = At_Notify_Worker then wake_worker (worker_at s)
                     else worker_at s)\<rparr>)"
| leaves: "i < n \<Longrightarrow> int i \<in> set (client_threads (shared s)) \<Longrightarrow> handler_at s i = At_Read \<Longrightarrow>
     threads_step h allowed n s (s\<lparr>shared := (hang_up (int i) (shared s))
       \<lparr>client_threads := remove1 (int i) (client_threads (shared s))\<rparr>\<rparr>)"
| drops: "i < n \<Longrightarrow> int i \<in> set (client_threads (shared s)) \<Longrightarrow> handler_at s i = At_Read \<Longrightarrow>
     threads_step h allowed n s (s\<lparr>shared := (shared s)
       \<lparr>client_threads := remove1 (int i) (client_threads (shared s))\<rparr>\<rparr>)"
| receiver: "receive_goes h (receive_at s) (shared s) = Inr (p, ctl) \<Longrightarrow>
     threads_step h allowed n s (s\<lparr>shared := ctl, receive_at := p,
       worker_at := (if queue_length (shared s) < queue_length ctl then notify_queue (worker_at s)
                     else worker_at s)\<rparr>)"
| worker: "worker_goes (worker_at s) (shared s) = Inr (p, ctl) \<Longrightarrow>
     threads_step h allowed n s (s\<lparr>shared := ctl, worker_at := p\<rparr>)"
| spurious_receiver: "threads_step h allowed n s (s\<lparr>receive_at := wake_receiver (receive_at s)\<rparr>)"
| spurious_worker: "threads_step h allowed n s
     (s\<lparr>worker_at := notify_queue (wake_worker (worker_at s))\<rparr>)"
| stops: "threads_step h allowed n s (s\<lparr>shared := stop (shared s)\<rparr>)"

inductive_cases threads_stepE: "threads_step h allowed n s t"

text \<open>What a policy allows, a wider one allows too.\<close>

lemma threads_step_mono:
  assumes "threads_step h allowed n s t" and "\<And>c pkg ctl. allowed c pkg ctl \<Longrightarrow> allowed' c pkg ctl"
  shows "threads_step h allowed' n s t"
  using assms(1)
proof cases
  case (package i pkg p ctl)
  show ?thesis unfolding package(1)
    by (rule threads_step.package) (fact package(2-5) package(7) | rule assms(2), fact package(6))+
next
  case connects
  show ?thesis unfolding connects(1) by (rule threads_step.connects) (fact connects)+
next
  case handler
  show ?thesis unfolding handler(1) by (rule threads_step.handler) (fact handler)+
next
  case leaves
  show ?thesis unfolding leaves(1) by (rule threads_step.leaves) (fact leaves)+
next
  case drops
  show ?thesis unfolding drops(1) by (rule threads_step.drops) (fact drops)+
next
  case receiver
  show ?thesis unfolding receiver(1) by (rule threads_step.receiver) (fact receiver)+
next
  case worker
  show ?thesis unfolding worker(1) by (rule threads_step.worker) (fact worker)+
qed (simp_all add: threads_step.spurious_receiver threads_step.spurious_worker threads_step.stops)

text \<open>The threads of a service that has started.\<close>

definition threads_start :: "'w controller \<Rightarrow> 'w threads" where
  "threads_start ctl =
     \<lparr>shared = ctl, handler_at = (\<lambda>_. At_Read), receive_at = Rcv_Start, worker_at = Wrk_Test\<rparr>"

definition threads_init :: "'w threads \<Rightarrow> bool" where
  "threads_init s \<longleftrightarrow> (\<exists>ctl. service_init ctl \<and> s = threads_start ctl)"

section \<open>A thread that runs alone\<close>

fun run_thread ::
  "('p \<Rightarrow> 'c \<Rightarrow> ('p \<times> 'c) res) \<Rightarrow> nat \<Rightarrow> 'p \<times> 'c \<Rightarrow> ('p \<times> 'c) res" where
  "run_thread go 0 x = Inr x"
| "run_thread go (Suc k) (p, ctl) = res_bind (go p ctl) (run_thread go k)"

lemma run_thread_add: "run_thread go (j + k) x = res_bind (run_thread go j x) (run_thread go k)"
proof (induction j arbitrary: x)
  case (Suc j)
  then show ?case by (cases x) (auto simp: res_bind_def split: sum.splits)
qed simp

subsection \<open>The handler\<close>

lemma on_receiver_on_receiver [simp]: "on_receiver f (on_receiver g ctl) = on_receiver (f \<circ> g) ctl"
  by (simp add: on_receiver_def)

lemma run_At_Read [simp]: "run_thread (handler_goes c) k (At_Read, ctl) = Inr (At_Read, ctl)"
  by (induction k) simp_all

text \<open>The steps of a handler from the order on.\<close>

lemma handler_runs:
  "res_bind (handler_begins h pkg ctl) (run_thread (handler_goes c) 8) =
     res_bind (handle_package h c pkg ctl) (\<lambda>ctl. Inr (At_Read, ctl))"
proof -
  have eight: "(8 :: nat) = Suc (Suc (Suc (Suc (Suc (Suc (Suc (Suc 0)))))))" by simp
  have pause: "direct_pause_can_ipc_receiver ctl =
      on_receiver pause_work_queue_task (on_receiver pause_receive_ipc_can_task ctl)" for ctl :: "'a controller"
    by (simp add: direct_receiver lib_control pause_can_ipc_receiver_def comp_def on_receiver_def)
  have resume: "direct_resume_can_ipc_receiver ctl =
      on_receiver resume_receive_ipc_can_task (on_receiver resume_work_queue_task ctl)" for ctl :: "'a controller"
    by (simp add: direct_receiver lib_control resume_can_ipc_receiver_def comp_def on_receiver_def)
  show ?thesis
    unfolding eight
    by (cases "socket_order pkg")
      (auto simp: handler_begins_def handle_package_def handle_add_filter_def handle_remove_filter_def
        handle_send_def pause resume Let_def change_manager_def change_filter_def res_bind_def
        simp del: on_receiver_on_receiver split: sum.splits prod.splits)
qed

subsection \<open>The receive thread\<close>

lemma get_raw_can_data_split:
  "get_raw_can_data h t r w =
     (case receive_frames h t w of
        (None, w) \<Rightarrow> Inr (r, w)
      | (Some (n, buf), w) \<Rightarrow>
          res_bind (rx_loop n buf (dev_port_of_raw (can_port_index t)) r) (\<lambda>r. Inr (r, w)))"
  by (simp add: get_raw_can_data_def receive_frames_def Let_def split: prod.splits)

lemma run_frames:
  "run_thread (receive_goes h) (Suc n) (Rcv_Frames ts us n buf port, ctl) =
     res_bind (rx_loop n buf port (can_ipc_receiver ctl)) (\<lambda>r.
       Inr (Rcv_Ports ts us, ctl\<lparr>can_ipc_receiver := r\<rparr>))"
proof (induction n buf port "can_ipc_receiver ctl" arbitrary: ctl rule: rx_loop.induct)
  case (3 n f fs port)
  show ?case
  proof (cases "cf_len f = 0")
    case True
    with 3(1) show ?thesis by simp
  next
    case False
    show ?thesis
    proof (cases "frame_of_canframe f")
      case (Inr frame)
      let ?ctl = "on_receiver (\<lambda>r. snd (match_can_filter port frame r)) ctl"
      from 3(2) [OF False, of frame ?ctl] False Inr show ?thesis by (simp add: on_receiver_def)
    qed (use False in simp)
  qed
qed simp_all

lemma run_ports:
  "\<exists>k. run_thread (receive_goes h) k (Rcv_Ports ts us, ctl) =
     res_bind (receive_pass h us (can_ipc_receiver ctl) (hal_world ctl)) (\<lambda>(r, w).
       Inr (Rcv_Test ts, ctl\<lparr>can_ipc_receiver := r, hal_world := w\<rparr>))"
proof (induction us arbitrary: ctl)
  case Nil
  have "run_thread (receive_goes h) (Suc 0) (Rcv_Ports ts [], ctl) = Inr (Rcv_Test ts, ctl)" by simp
  then show ?case by (intro exI [of _ "Suc 0"]) simp
next
  case (Cons u us)
  obtain s t where u: "u = (s, t)" by (cases u)
  let ?r = "can_ipc_receiver ctl"
  have "\<exists>k. run_thread (receive_goes h) k (Rcv_Ports ts (u # us), ctl) =
      res_bind (if is_received_port ?r s then get_raw_can_data h t ?r (hal_world ctl)
                else Inr (?r, hal_world ctl))
        (\<lambda>(r, w). Inr (Rcv_Ports ts us, ctl\<lparr>can_ipc_receiver := r, hal_world := w\<rparr>))"
  proof (cases "is_received_port ?r s")
    case True
    obtain got w where rec: "receive_frames h t (hal_world ctl) = (got, w)"
      by (cases "receive_frames h t (hal_world ctl)")
    show ?thesis
    proof (cases got)
      case None
      with True rec u show ?thesis
        by (intro exI [of _ "Suc 0"]) (simp add: get_raw_can_data_split)
    next
      case (Some nb)
      obtain n buf where nb: "nb = (n, buf)" by (cases nb)
      from True rec Some nb u show ?thesis
        using run_frames [of h n ts us buf "dev_port_of_raw (can_port_index t)" "ctl\<lparr>hal_world := w\<rparr>"]
        by (intro exI [of _ "Suc (Suc n)"])
          (simp add: get_raw_can_data_split res_bind_def split: sum.splits)
    qed
  next
    case False
    with u show ?thesis by (intro exI [of _ "Suc 0"]) simp
  qed
  then obtain j where j: "run_thread (receive_goes h) j (Rcv_Ports ts (u # us), ctl) =
      res_bind (if is_received_port ?r s then get_raw_can_data h t ?r (hal_world ctl)
                else Inr (?r, hal_world ctl))
        (\<lambda>(r, w). Inr (Rcv_Ports ts us, ctl\<lparr>can_ipc_receiver := r, hal_world := w\<rparr>))" (is "_ = res_bind ?m _") ..
  show ?case
  proof (cases ?m)
    case (Inl e)
    with j u show ?thesis by (intro exI [of _ j]) (simp split: if_splits)
  next
    case (Inr rw)
    obtain r w where rw: "rw = (r, w)" by (cases rw)
    let ?ctl = "ctl\<lparr>can_ipc_receiver := r, hal_world := w\<rparr>"
    from Cons [of ?ctl] obtain k where "run_thread (receive_goes h) k (Rcv_Ports ts us, ?ctl) =
        res_bind (receive_pass h us r w) (\<lambda>(r, w).
          Inr (Rcv_Test ts, ctl\<lparr>can_ipc_receiver := r, hal_world := w\<rparr>))"
      by auto
    with j Inr rw u show ?thesis
      by (intro exI [of _ "j + k"]) (auto simp: run_thread_add split: if_splits)
  qed
qed

text \<open>The steps of the receive thread from the head of its loop back to it.\<close>

lemma receiver_runs:
  assumes "receive_ipc_can_task_running (can_ipc_receiver ctl)"
    and "\<not> receive_ipc_can_task_paused (can_ipc_receiver ctl)"
  shows "\<exists>k. run_thread (receive_goes h) k (Rcv_Test ts, ctl) =
    res_bind (receiver_round h ts ctl) (\<lambda>ctl. Inr (Rcv_Test ts, ctl))"
proof -
  from run_ports [of h ts ts ctl] obtain k where "run_thread (receive_goes h) k (Rcv_Ports ts ts, ctl) =
      res_bind (receive_pass h ts (can_ipc_receiver ctl) (hal_world ctl)) (\<lambda>(r, w).
        Inr (Rcv_Test ts, ctl\<lparr>can_ipc_receiver := r, hal_world := w\<rparr>))" ..
  with assms show ?thesis
    by (intro exI [of _ "Suc k"]) (simp add: receiver_round_def res_bind_def split: sum.splits prod.splits)
qed

subsection \<open>The worker\<close>

lemma run_writes:
  "run_thread worker_goes (Suc (length fds)) (Wrk_Write pkg fds, ctl) =
     Inr (Wrk_Test, write_clients fds pkg ctl)"
  by (induction fds arbitrary: ctl) simp_all

text \<open>Where a round of the worker ends.\<close>

definition worker_rests :: "'w controller \<Rightarrow> worker_place" where
  "worker_rests ctl =
     (let r = can_ipc_receiver ctl
      in if \<not> work_task_queue_running r then Wrk_End
         else if work_task_queue_paused r then Wrk_Sleep
         else if is_queue_empty (work_queue_handle r) then Wrk_Wait
         else Wrk_Test)"

lemma run_task_steps:
  "\<exists>k. run_thread worker_goes k (Wrk_Run task, ctl) =
     res_bind (run_task task ctl) (\<lambda>ctl. Inr (Wrk_Test, ctl))"
proof -
  obtain cb frame where task: "task = (cb, frame)" by (cases task)
  let ?i = "socket_client_reverse_index (socket_client_manager ctl)"
  show ?thesis
  proof (cases cb)
    case None
    with task show ?thesis by (intro exI [of _ "Suc 0"]) (simp add: run_task_def)
  next
    case (Some c)
    have c: "c = Socket_Receive_Callback" by (cases c)
    show ?thesis
    proof (cases "map_of ?i (frame_id frame)")
      case None
      with task Some c show ?thesis
        by (intro exI [of _ "Suc 0"]) (simp add: run_task_def socket_receive_callback_def)
    next
      case (Some fds)
      with task \<open>cb = Some c\<close> c show ?thesis
        by (intro exI [of _ "Suc (Suc (length fds))"])
          (simp add: run_task_def socket_receive_callback_def run_writes del: run_thread.simps(2)
            add: run_thread.simps(2) [of _ "Suc (length fds)"])
    qed
  qed
qed

text \<open>The steps of the worker from the head of its loop to where it rests or back to it.\<close>

lemma worker_runs:
  "\<exists>k. run_thread worker_goes k (Wrk_Test, ctl) =
     res_bind (worker_round ctl) (\<lambda>ctl'. Inr (worker_rests ctl, ctl'))"
proof -
  let ?r = "can_ipc_receiver ctl"
  have id: "on_receiver (\<lambda>r. r\<lparr>work_queue_handle := work_queue_handle r\<rparr>) ctl = ctl" by (simp add: on_receiver_def)
  show ?thesis
  proof (cases "work_task_queue_running ?r \<and> \<not> work_task_queue_paused ?r")
    case False
    then show ?thesis
      by (intro exI [of _ "Suc 0"])
        (auto simp: worker_round_def work_queue_task_round_def worker_rests_def Let_def)
  next
    case True
    show ?thesis
    proof (cases "work_queue (work_queue_handle ?r)")
      case Nil
      with True show ?thesis
        by (intro exI [of _ "Suc (Suc 0)"])
          (simp add: worker_round_def work_queue_task_round_def worker_rests_def Let_def
            is_queue_empty_def dequeue_blocking_def on_receiver_def)
    next
      case (Cons t q)
      show ?thesis
      proof (cases "stopped (work_queue_handle ?r)")
        case stop: True
        with True Cons show ?thesis
          by (intro exI [of _ "Suc (Suc 0)"])
            (simp add: worker_round_def work_queue_task_round_def worker_rests_def Let_def
              is_queue_empty_def dequeue_blocking_def on_receiver_def)
      next
        case live: False
        let ?ctl = "ctl\<lparr>can_ipc_receiver := ?r\<lparr>work_queue_handle := (work_queue_handle ?r)\<lparr>work_queue := q\<rparr>\<rparr>\<rparr>"
        obtain k where "run_thread worker_goes k (Wrk_Run t, ?ctl) =
            res_bind (run_task t ?ctl) (\<lambda>ctl. Inr (Wrk_Test, ctl))"
          using run_task_steps by blast
        with True Cons live show ?thesis
          by (intro exI [of _ "Suc (Suc k)"])
            (simp add: worker_round_def work_queue_task_round_def worker_rests_def Let_def
              is_queue_empty_def dequeue_blocking_def on_receiver_def)
      qed
    qed
  qed
qed

text \<open>
  C11. Run without interruption, the steps of each thread come to the operation of the controller
  that models it, its faults included: a handler's steps to the handling of a package, the steps of
  the receive thread to a pass over the ports, the steps of the worker to a round, which leaves it
  at rest or at the head of its loop.
\<close>

theorem threads_alone:
  assumes "receive_ipc_can_task_running (can_ipc_receiver ctl)"
    and "\<not> receive_ipc_can_task_paused (can_ipc_receiver ctl)"
  shows "res_bind (handler_begins h pkg ctl) (run_thread (handler_goes c) 8) =
      res_bind (handle_package h c pkg ctl) (\<lambda>ctl. Inr (At_Read, ctl)) \<and>
    (\<exists>k. run_thread (receive_goes h) k (Rcv_Test ts, ctl) =
      res_bind (receiver_round h ts ctl) (\<lambda>ctl. Inr (Rcv_Test ts, ctl))) \<and>
    (\<exists>k. run_thread worker_goes k (Wrk_Test, ctl) =
      res_bind (worker_round ctl) (\<lambda>ctl'. Inr (worker_rests ctl, ctl')))"
  using handler_runs receiver_runs [OF assms] worker_runs by blast

theorem threads_alone_witness:
  "res_bind (handler_begins recording_hal (filter_package SOCKET_ORDER_AS_ADD_FILTER [5]) (started []))
      (run_thread (handler_goes 7) 8) =
    res_bind (handle_package recording_hal 7 (filter_package SOCKET_ORDER_AS_ADD_FILTER [5]) (started []))
      (\<lambda>ctl. Inr (At_Read, ctl))"
proof -
  have "receive_ipc_can_task_running (can_ipc_receiver (started ([] :: (string \<times> canframe) list)))"
    "\<not> receive_ipc_can_task_paused (can_ipc_receiver (started ([] :: (string \<times> canframe) list)))"
    by (simp_all add: started_sel lib_control receiver_control)
  from threads_alone [OF this] show ?thesis by blast
qed

end
