(* ===== verification/Service_Threads_Inv.thy ===== *)
theory Service_Threads_Inv
  imports Service_Threads
begin

text \<open>
  What each step of the threads does to the shared state, and the invariant of the interleaved
  service: that of \<open>Service_System\<close> holds between any two steps, the handlers carry out well-formed
  orders, the worker runs tasks with the service's callback, and the receive thread's loop has its
  frames in the buffer. From it follows that no thread faults.
\<close>

section \<open>What the steps of the threads do\<close>

definition filter_order :: "SOCKET_PACKAGE_T \<Rightarrow> bool" where
  "filter_order pkg \<longleftrightarrow>
     socket_order pkg \<in> {SOCKET_ORDER_AS_ADD_FILTER, SOCKET_ORDER_AS_REMOVE_FILTER}"

definition ordered_manager ::
  "int \<Rightarrow> SOCKET_PACKAGE_T \<Rightarrow> CAN_IPC_SOCKET_CLIENT_MANAGER_T \<Rightarrow> CAN_IPC_SOCKET_CLIENT_MANAGER_T" where
  "ordered_manager c pkg m =
     (if socket_order pkg = SOCKET_ORDER_AS_ADD_FILTER then manager_add c (package_ids pkg) m
      else removed_manager c (package_ids pkg) m)"

definition ordered_receiver ::
  "SOCKET_PACKAGE_T \<Rightarrow> rx_callback CAN_IPC_RECEIVER \<Rightarrow> rx_callback CAN_IPC_RECEIVER" where
  "ordered_receiver pkg r =
     (if socket_order pkg = SOCKET_ORDER_AS_ADD_FILTER
      then registered_receiver pkg r (Some Socket_Receive_Callback)
      else deregistered_receiver pkg r)"

lemma change_manager_eq:
  assumes "wf_package pkg" and "unat (can_filter_cnt pkg) \<le> 32"
  shows "change_manager c pkg ctl =
    Inr (ctl\<lparr>socket_client_manager := ordered_manager c pkg (socket_client_manager ctl)\<rparr>)"
  using assms by (auto simp: change_manager_def ordered_manager_def client_manager_register_def
      client_manager_deregister_def filter_ids_package removed_manager_def)

lemma change_manager_Inr:
  assumes "wf_package pkg" and "change_manager c pkg ctl = Inr ctl'"
  shows "ctl' = ctl\<lparr>socket_client_manager := ordered_manager c pkg (socket_client_manager ctl)\<rparr>"
  using assms by (auto simp: change_manager_def ordered_manager_def client_manager_register_def
      client_manager_deregister_def filter_ids_package removed_manager_def split: if_splits)

lemma change_filter_eq:
  assumes "wf_package pkg"
  shows "change_filter pkg ctl =
    (if unat (can_filter_cnt pkg) \<le> 32
     then Inr (filter_ret pkg, on_receiver (ordered_receiver pkg) ctl) else Inl Array_Bounds)"
  using assms by (simp add: change_filter_def direct_can_register_can_filter_def on_receiver_def
      direct_can_deregister_can_filter_def register_package deregister_package ordered_receiver_def)

text \<open>The flags of the receiver, which no invariant of the tables or the queue mentions.\<close>

lemma flag_steps [simp]:
  "receiver_filter (pause_receive_ipc_can_task r) = receiver_filter r"
  "receiver_filter (pause_work_queue_task r) = receiver_filter r"
  "receiver_filter (resume_receive_ipc_can_task r) = receiver_filter r"
  "receiver_filter (resume_work_queue_task r) = receiver_filter r"
  "work_queue_handle (pause_receive_ipc_can_task r) = work_queue_handle r"
  "work_queue_handle (pause_work_queue_task r) = work_queue_handle r"
  "work_queue_handle (resume_receive_ipc_can_task r) = work_queue_handle r"
  "work_queue_handle (resume_work_queue_task r) = work_queue_handle r"
  "port_instance (pause_receive_ipc_can_task r) = port_instance r"
  "port_instance (pause_work_queue_task r) = port_instance r"
  "port_instance (resume_receive_ipc_can_task r) = port_instance r"
  "port_instance (resume_work_queue_task r) = port_instance r"
  "is_received_port (pause_receive_ipc_can_task r) = is_received_port r"
  "is_received_port (pause_work_queue_task r) = is_received_port r"
  "is_received_port (resume_receive_ipc_can_task r) = is_received_port r"
  "is_received_port (resume_work_queue_task r) = is_received_port r"
  by (simp_all add: receiver_control)

text \<open>
  Every step of the receive thread hands the HAL's state on or matches one frame, and every step of
  the worker leaves the state alone, takes a task or writes to one client.
\<close>

lemma receive_goes_cases:
  assumes "receive_goes h p ctl = Inr (p', ctl')"
  obtains (stays) "ctl' = ctl"
  | (hal) w where "ctl' = ctl\<lparr>hal_world := w\<rparr>"
  | (match) ts us k f fs port where "p = Rcv_Frames ts us (Suc k) (f # fs) port"
      "p' = Rcv_Frames ts us k fs port" "cf_len f \<noteq> 0" "frame_in_bounds f"
      "ctl' = on_receiver (\<lambda>r. snd (match_can_filter port (rx_frame f) r)) ctl"
  using assms
proof (induction h p ctl rule: receive_goes.induct)
  case (8 h ts us k f fs port ctl)
  show ?case
  proof (cases "cf_len f = 0")
    case True
    with 8(1,4) show ?thesis by simp
  next
    case False
    with 8(4) have "isOK (frame_of_canframe f)" by (auto simp: res_simps)
    then have "frame_in_bounds f" using frame_of_canframe_fault [of f] by blast
    with 8(3) [of ts us k f fs port] 8(4) False show ?thesis by (simp add: frame_of_canframe_ok)
  qed
qed (auto simp: res_simps split: if_splits prod.splits option.splits)

lemma worker_goes_cases:
  assumes "worker_goes p ctl = Inr (p', ctl')"
  obtains (other) "ctl' = ctl"
  | (dequeue) "p = Wrk_Dequeue" "ctl' = on_receiver (\<lambda>r. r\<lparr>work_queue_handle :=
      snd (dequeue_blocking (work_queue_handle (can_ipc_receiver ctl)))\<rparr>) ctl"
  | (writes) pkg fd fds where "p = Wrk_Write pkg (fd # fds)" "p' = Wrk_Write pkg fds" "0 \<le> fd"
      "ctl' = write_package fd pkg ctl"
  using assms
proof (induction p ctl rule: worker_goes.induct)
  case (7 pkg fd fds ctl)
  then show ?case by (auto simp: not_less split: if_splits)
qed (auto split: prod.splits option.splits rx_callback.splits)

text \<open>The targets that the receive thread copies when it starts.\<close>

definition port_target :: "'cb CAN_IPC_RECEIVER \<Rightarrow> port_slot \<Rightarrow> can_port_target_t" where
  "port_target r s =
     \<lparr>target_instance = can_port_instance (port_instance r s),
      can_port_index = uint (dev_port_u8 (can_dev_port (port_instance r s)))\<rparr>"

lemma targets_eq:
  assumes "layer_inv r"
  shows "receive_task_targets r = Inr (map (\<lambda>s. (s, port_target r s)) all_slots)"
proof -
  have "make_target (port_instance r s) = Inr (port_target r s)" for s
    using assms by (simp add: layer_inv_defs make_target_def port_target_def)
  then show ?thesis by (simp add: receive_task_targets_def all_slots_def)
qed

section \<open>The invariant\<close>

text \<open>The order that a handler is carrying out, where it still needs it.\<close>

fun order_at :: "handler_place \<Rightarrow> SOCKET_PACKAGE_T option" where
  "order_at (At_Pause_Worker pkg) = Some pkg"
| "order_at (At_Manager pkg) = Some pkg"
| "order_at (At_Filter pkg) = Some pkg"
| "order_at (At_Ack pkg ret) = Some pkg"
| "order_at _ = None"

text \<open>What the loop over the received frames still has in front of it is in the buffer.\<close>

fun frames_ok :: "receive_place \<Rightarrow> bool" where
  "frames_ok (Rcv_Frames ts us k buf port) \<longleftrightarrow>
     k \<le> length buf \<and> list_all frame_in_bounds (take k buf)"
| "frames_ok _ \<longleftrightarrow> True"

definition threads_inv :: "nat \<Rightarrow> 'w threads \<Rightarrow> bool" where
  "threads_inv n s \<longleftrightarrow> service_inv (shared s) \<and>
     (\<forall>i pkg. order_at (handler_at s i) = Some pkg \<longrightarrow> wf_package pkg \<and> filter_order pkg) \<and>
     (\<forall>i. handler_at s i \<noteq> At_Read \<longrightarrow> i < n \<and> int i \<in> set (client_threads (shared s))) \<and>
     (\<forall>t. worker_at s = Wrk_Run t \<longrightarrow> fst t = Some Socket_Receive_Callback) \<and>
     distinct (client_threads (shared s)) \<and>
     (\<forall>c \<in> set (client_threads (shared s)). 0 \<le> c \<and> c < int n)"

lemma threads_invD:
  assumes "threads_inv n s"
  shows "service_inv (shared s)"
    and "order_at (handler_at s i) = Some pkg \<Longrightarrow> wf_package pkg"
    and "order_at (handler_at s i) = Some pkg \<Longrightarrow> filter_order pkg"
    and "handler_at s i \<noteq> At_Read \<Longrightarrow> i < n \<and> int i \<in> set (client_threads (shared s))"
    and "worker_at s = Wrk_Run t \<Longrightarrow> fst t = Some Socket_Receive_Callback"
    and "distinct (client_threads (shared s))"
  using assms unfolding threads_inv_def by blast+

lemma service_inv_receiver:
  assumes "service_inv ctl" and "layer_inv (f (can_ipc_receiver ctl))"
    and "callbacks_ok (f (can_ipc_receiver ctl))"
  shows "service_inv (on_receiver f ctl)"
  using assms by (simp add: service_inv_def)

lemma service_inv_flags:
  assumes inv: "service_inv ctl"
  shows "service_inv (on_receiver pause_receive_ipc_can_task ctl)"
    and "service_inv (on_receiver pause_work_queue_task ctl)"
    and "service_inv (on_receiver resume_receive_ipc_can_task ctl)"
    and "service_inv (on_receiver resume_work_queue_task ctl)"
proof -
  let ?r = "can_ipc_receiver ctl"
  from inv have r: "layer_inv ?r" "callbacks_ok ?r" "queue_ok (work_queue_handle ?r)"
    by (simp_all add: service_inv_def layer_inv_def)
  have "service_inv (on_receiver f ctl)"
    if "receiver_filter (f ?r) = receiver_filter ?r" "port_instance (f ?r) = port_instance ?r"
      "is_received_port (f ?r) = is_received_port ?r" "work_queue_handle (f ?r) = work_queue_handle ?r"
    for f
    using that r by (intro service_inv_receiver [OF inv] layer_inv_frame [OF r(1)])
      (simp_all add: callbacks_ok_def)
  then show "service_inv (on_receiver pause_receive_ipc_can_task ctl)"
    "service_inv (on_receiver pause_work_queue_task ctl)"
    "service_inv (on_receiver resume_receive_ipc_can_task ctl)"
    "service_inv (on_receiver resume_work_queue_task ctl)"
    by simp_all
qed

lemma service_inv_manager:
  assumes "service_inv ctl"
  shows "service_inv (ctl\<lparr>socket_client_manager := ordered_manager c pkg (socket_client_manager ctl)\<rparr>)"
  using assms manager_inv_ops [of "socket_client_manager ctl"]
  by (simp add: service_inv_def ordered_manager_def)

lemma service_inv_filter:
  assumes "service_inv ctl"
  shows "service_inv (on_receiver (ordered_receiver pkg) ctl)"
proof -
  have r: "layer_inv (can_ipc_receiver ctl)" "callbacks_ok (can_ipc_receiver ctl)"
    using assms by (simp_all add: service_inv_def)
  then have "wf_receiver (can_ipc_receiver ctl)" by (simp add: layer_inv_def)
  with r show ?thesis
    by (intro service_inv_receiver [OF assms])
      (simp_all add: ordered_receiver_def layer_inv_package callbacks_ok_package)
qed

lemma service_inv_hal [simp]: "service_inv (ctl\<lparr>hal_world := w\<rparr>) = service_inv ctl"
  by (simp add: service_inv_def)

lemma service_inv_match:
  "service_inv ctl \<Longrightarrow> service_inv (on_receiver (\<lambda>r. snd (match_can_filter port f r)) ctl)"
  by (rule service_inv_receiver) (simp_all add: service_inv_def layer_inv_match callbacks_ok_match)

lemma service_inv_dequeue:
  assumes "service_inv ctl"
  shows "service_inv (on_receiver (\<lambda>r. r\<lparr>work_queue_handle :=
    snd (dequeue_blocking (work_queue_handle (can_ipc_receiver ctl)))\<rparr>) ctl)"
proof -
  let ?r = "can_ipc_receiver ctl" and ?q = "snd (dequeue_blocking (work_queue_handle (can_ipc_receiver ctl)))"
  from assms have inv: "layer_inv ?r" "callbacks_ok ?r" by (simp_all add: service_inv_def)
  have "set (work_queue ?q) \<subseteq> set (work_queue (work_queue_handle ?r))"
    by (auto simp: dequeue_blocking_def split: list.splits)
  with inv queue_ok_dequeue [of "work_queue_handle ?r"] show ?thesis
    by (intro service_inv_receiver [OF assms] layer_inv_frame [OF inv(1)])
      (auto simp: callbacks_ok_def layer_inv_def)
qed

lemma service_inv_io [simp]: "service_inv (io es ctl) = service_inv ctl"
  by (simp add: service_inv_def)

lemma service_inv_write [simp]: "service_inv (write_package fd pkg ctl) = service_inv ctl"
  by (simp add: write_package_def service_inv_io)

lemma handler_begins_cases:
  assumes "handler_begins h pkg ctl = Inr (p, ctl')"
  obtains (other) w where "\<not> filter_order pkg" "p = At_Read" "ctl' = ctl\<lparr>hal_world := w\<rparr>"
  | (pause) "filter_order pkg" "p = At_Pause_Worker pkg" "ctl' = on_receiver pause_receive_ipc_can_task ctl"
  using assms other [of "hal_world ctl"]
  by (cases "socket_order pkg")
    (auto simp: handler_begins_def filter_order_def handle_send_def direct_can_send_def res_simps)

text \<open>The effect of a handler's step on the shared state.\<close>

fun handler_effect :: "int \<Rightarrow> handler_place \<Rightarrow> 'w controller \<Rightarrow> 'w controller" where
  "handler_effect c (At_Pause_Worker pkg) ctl = on_receiver pause_work_queue_task ctl"
| "handler_effect c (At_Manager pkg) ctl =
     ctl\<lparr>socket_client_manager := ordered_manager c pkg (socket_client_manager ctl)\<rparr>"
| "handler_effect c (At_Filter pkg) ctl = on_receiver (ordered_receiver pkg) ctl"
| "handler_effect c (At_Ack pkg ret) ctl = write_package c (ack_package pkg ret) ctl"
| "handler_effect c At_Resume_Worker ctl = on_receiver resume_work_queue_task ctl"
| "handler_effect c At_Resume_Receiver ctl = on_receiver resume_receive_ipc_can_task ctl"
| "handler_effect c _ ctl = ctl"

fun handler_next :: "handler_place \<Rightarrow> handler_place" where
  "handler_next (At_Pause_Worker pkg) = At_Manager pkg"
| "handler_next (At_Manager pkg) = At_Filter pkg"
| "handler_next (At_Filter pkg) = At_Ack pkg (filter_ret pkg)"
| "handler_next (At_Ack pkg ret) = At_Resume_Worker"
| "handler_next At_Resume_Worker = At_Notify_Worker"
| "handler_next At_Notify_Worker = At_Resume_Receiver"
| "handler_next At_Resume_Receiver = At_Notify_Receiver"
| "handler_next _ = At_Read"

lemma handler_goes_Inr:
  assumes "handler_goes c p ctl = Inr (p', ctl')" and "\<And>pkg. order_at p = Some pkg \<Longrightarrow> wf_package pkg"
  shows "p' = handler_next p \<and> ctl' = handler_effect c p ctl"
  using assms by (cases p) (auto simp: res_simps change_manager_Inr change_filter_eq split: if_splits)

lemma order_at_next: "order_at (handler_next p) = Some pkg \<Longrightarrow> order_at p = Some pkg"
  by (cases p) auto

lemma service_inv_effect: "service_inv ctl \<Longrightarrow> service_inv (handler_effect c p ctl)"
  by (cases p) (simp_all add: service_inv_flags service_inv_manager service_inv_filter service_inv_write)

lemma effect_frame [simp]:
  "client_threads (handler_effect c p ctl) = client_threads ctl"
  "ctl_is_running (handler_effect c p ctl) = ctl_is_running ctl"
  "hal_world (handler_effect c p ctl) = hal_world ctl"
  by (cases p; simp add: write_package_def)+

lemma wake_worker_run: "wake_worker p = Wrk_Run t \<longleftrightarrow> p = Wrk_Run t"
  "notify_queue p = Wrk_Run t \<longleftrightarrow> p = Wrk_Run t"
  by (cases p; simp)+

lemma worker_goes_run:
  assumes "worker_goes p ctl = Inr (Wrk_Run t, ctl')" and "callbacks_ok (can_ipc_receiver ctl)"
  shows "fst t = Some Socket_Receive_Callback"
  using assms
  by (cases p; cases "work_queue (work_queue_handle (can_ipc_receiver ctl))")
    (auto simp: dequeue_blocking_def callbacks_ok_def
      split: if_splits prod.splits option.splits rx_callback.splits list.splits
      elim: worker_goes.elims)

lemma threads_inv_step:
  assumes inv: "threads_inv n s" and "threads_step h allowed n s t"
  shows "threads_inv n t"
proof -
  note invD = threads_invD [OF inv]
  from assms(2) show ?thesis
  proof cases
    case (connects i)
    with inv show ?thesis by (auto simp: threads_inv_def service_inv_def)
  next
    case (package i pkg p ctl)
    from package(7) show ?thesis
    proof (cases rule: handler_begins_cases)
      case (other w)
      with inv package show ?thesis by (auto simp: threads_inv_def service_inv_hal)
    next
      case pause
      with inv package show ?thesis by (auto simp: threads_inv_def service_inv_flags)
    qed
  next
    case (handler i p ctl)
    from handler_goes_Inr [OF handler(4) invD(2)]
    have p: "p = handler_next (handler_at s i)" and ctl: "ctl = handler_effect (int i) (handler_at s i) (shared s)"
      by simp_all
    from inv handler(1-3) show ?thesis
      unfolding p ctl
      by (auto simp: threads_inv_def service_inv_effect wake_worker_run dest: order_at_next)
  next
    case (leaves i)
    have "service_inv (hang_up (int i) (shared s))"
      using invD(1) by (simp add: service_inv_def hang_up_def manager_inv_ops)
    then have "service_inv (shared t)"
      using leaves(1) by (simp add: service_inv_def)
    with inv leaves show ?thesis
      by (auto simp: threads_inv_def dest: notin_set_remove1)
  next
    case (drops i)
    have "service_inv (shared t)"
      using invD(1) drops(1) by (simp add: service_inv_def)
    with inv drops show ?thesis
      by (auto simp: threads_inv_def dest: notin_set_remove1)
  next
    case (receiver p ctl)
    from receiver(2) show ?thesis
      by (cases rule: receive_goes_cases)
        (use inv receiver(1) in \<open>auto simp: threads_inv_def service_inv_hal service_inv_match wake_worker_run\<close>)
  next
    case (worker p ctl)
    have cb: "callbacks_ok (can_ipc_receiver (shared s))" using invD(1) by (simp add: service_inv_def)
    note run = worker_goes_run [OF _ cb]
    from worker(2) have "service_inv ctl \<and> client_threads ctl = client_threads (shared s)"
      by (cases rule: worker_goes_cases)
        (use invD(1) in \<open>auto simp: service_inv_dequeue service_inv_write write_package_def\<close>)
    with inv worker run show ?thesis by (auto simp: threads_inv_def)
  next
    case spurious_receiver
    with inv show ?thesis by (simp add: threads_inv_def)
  next
    case spurious_worker
    with inv show ?thesis by (simp add: threads_inv_def wake_worker_run)
  next
    case stops
    have "client_threads (stop (shared s)) = client_threads (shared s)"
      by (simp add: stop_def Let_def)
    with inv stops show ?thesis by (simp add: threads_inv_def service_inv_stop)
  qed
qed

lemma service_init_no_clients:
  assumes "service_init ctl"
  shows "client_threads ctl = []"
proof -
  from assms obtain sys w where "start_controller sys [] (empty_controller w) = (True, ctl)"
    by (auto simp: service_init_def)
  from start_controller_success(3) [OF this] show ?thesis
    by (simp add: empty_controller_def new_controller_def)
qed

lemma threads_inv_init: "threads_init s \<Longrightarrow> threads_inv n s"
  by (auto simp: threads_init_def threads_inv_def threads_start_def service_inv_init
      service_init_no_clients)

interpretation threads: invariant_system threads_init "threads_step h allowed n" "threads_inv n" for h allowed n
  by unfold_locales (auto intro: threads_inv_init threads_inv_step)

text \<open>With a HAL that keeps its contract.\<close>

lemma receive_frames_ok:
  assumes "hal_frames_ok h" and "receive_frames h t w = (Some (k, buf), w')"
  shows "k \<le> length buf \<and> list_all frame_in_bounds (take k buf)"
proof -
  obtain target b p0 w0 p where call: "canRecvMsgFrame h target b p0 w0 = (buf, p, w')" and k: "k = data_num p"
    using assms(2) by (auto simp: receive_frames_def Let_def split: prod.splits if_splits)
  from hal_frames_ok_call [OF assms(1) call] k show ?thesis by (simp add: list_all_iff)
qed

lemma frames_ok_goes:
  assumes "hal_frames_ok h" and "receive_goes h p ctl = Inr (p', ctl')" and "frames_ok p"
  shows "frames_ok p'"
  using assms(2,3)
proof (cases "(h, p, ctl)" rule: receive_goes.cases)
  case (5 _ ts s t us ctl)
  obtain got w where rec: "receive_frames h t (hal_world ctl) = (got, w)"
    by (cases "receive_frames h t (hal_world ctl)")
  with 5 assms(1,2) show ?thesis
    by (cases got) (auto dest: receive_frames_ok split: if_splits)
next
  case (8 _ ts us k f fs port ctl)
  have "list_all frame_in_bounds (take (k - 1) fs)" if "list_all frame_in_bounds (take k fs)"
    using that set_take_subset_set_take [of "k - 1" k fs] by (auto simp: list_all_iff)
  with 8 assms(2,3) show ?thesis
    by (cases k) (auto simp: res_simps split: if_splits)
qed (use assms(2) in \<open>auto simp: res_simps\<close>)

lemma frames_ok_wake: "frames_ok p \<Longrightarrow> frames_ok (wake_receiver p)"
  by (cases p) simp_all

definition framed_inv :: "'w hal \<Rightarrow> nat \<Rightarrow> 'w threads \<Rightarrow> bool" where
  "framed_inv h n s \<longleftrightarrow> threads_inv n s \<and> (hal_frames_ok h \<longrightarrow> frames_ok (receive_at s))"

lemma framed_inv_step:
  assumes "framed_inv h n s" and "threads_step h allowed n s t"
  shows "framed_inv h n t"
proof -
  have "frames_ok (receive_at t)" if "hal_frames_ok h" "frames_ok (receive_at s)"
    using assms(2) by cases (use that in \<open>auto intro: frames_ok_goes frames_ok_wake\<close>)
  with assms threads_inv_step [OF _ assms(2)] show ?thesis by (simp add: framed_inv_def)
qed

interpretation framed: invariant_system threads_init "threads_step h allowed n" "framed_inv h n" for h allowed n
proof unfold_locales
  fix s :: "'a threads"
  assume "threads_init s"
  then show "framed_inv h n s"
    using threads_inv_init [of s n] by (auto simp: framed_inv_def threads_init_def threads_start_def)
qed (rule framed_inv_step)

lemma isOK_receive_goes:
  assumes "layer_inv (can_ipc_receiver ctl)" and "frames_ok p"
  shows "isOK (receive_goes h p ctl)"
proof (cases "(h, p, ctl)" rule: receive_goes.cases)
  case (1 _ ctl')
  with targets_eq [OF assms(1)] show ?thesis by simp
next
  case (8 _ ts us k f fs port ctl')
  with assms(2) show ?thesis by (simp add: frame_of_canframe_ok)
qed (use assms(2) in \<open>auto split: prod.splits option.splits\<close>)

lemma isOK_worker_goes:
  assumes "\<And>t. p = Wrk_Run t \<Longrightarrow> fst t = Some Socket_Receive_Callback"
  shows "isOK (worker_goes p ctl)"
  using assms by (cases "(p, ctl)" rule: worker_goes.cases) (auto split: prod.splits option.splits rx_callback.splits)

lemma isOK_handler_goes:
  assumes "\<And>pkg. order_at p = Some pkg \<Longrightarrow> wf_package pkg \<and> unat (can_filter_cnt pkg) \<le> 32"
  shows "isOK (handler_goes c p ctl)"
  using assms by (cases p) (simp_all add: change_manager_eq change_filter_eq)


lemma reach_threads_started:
  "reach threads_init (threads_step h allowed n) (threads_start (started w))"
  by (rule reach_init, unfold threads_init_def, intro exI conjI, rule service_init_started, rule refl)


section \<open>Ports enabled late\<close>

lemma all_slots_complete [simp]: "s \<in> set all_slots"
  using all_slots_ascending by simp

lemma targets_of:
  assumes "receive_task_targets r = Inr ts"
  shows "\<exists>t. (s, t) \<in> set ts \<and> make_target (port_instance r s) = Inr t"
proof -
  have "s \<in> set xs \<Longrightarrow> foldr (\<lambda>s acc. res_bind (make_target (port_instance r s)) (\<lambda>t.
      res_bind acc (\<lambda>ts. Inr ((s, t) # ts)))) xs (Inr []) = Inr ts \<Longrightarrow>
      \<exists>t. (s, t) \<in> set ts \<and> make_target (port_instance r s) = Inr t" for xs
    by (induction xs arbitrary: ts) (auto simp: res_simps)
  from this [of all_slots] assms show ?thesis by (simp add: receive_task_targets_def)
qed

text \<open>
  The receive thread copies the configurations of the ports when it starts and looks at their
  flags each time. A port that still had its initial configuration then and is enabled later is
  polled from the next pass on, but on the channel of port 5, and what arrives is looked up among
  the filters of port 5.
\<close>

theorem late_port_polls_port_5:
  assumes "receive_goes h Rcv_Start ctl = Inr (Rcv_Test ts, ctl)"
    and "port_instance (can_ipc_receiver ctl) s = default_CAN_IPC_CONFIG_T"
    and "can_dev_port (lib_set_can_ipc_handle p) = slot_port s"
  shows "\<exists>t. (s, t) \<in> set ts \<and>
    is_received_port (can_ipc_receiver (direct_enable_can_receiver_port p ctl)) s \<and>
    target_instance t = CAN_IPC_INS0_CAN5_CHAN4 \<and>
    dev_port_of_raw (can_port_index t) = CAN_DEV_PORT_5"
proof -
  from assms(1) have "receive_task_targets (can_ipc_receiver ctl) = Inr ts" by (auto simp: res_simps)
  from targets_of [OF this, of s] assms(2) obtain t where "(s, t) \<in> set ts"
    and t: "make_target default_CAN_IPC_CONFIG_T = Inr t" by auto
  moreover have "is_received_port (can_ipc_receiver (direct_enable_can_receiver_port p ctl)) s"
    using assms(3) by (cases s; simp add: direct_receiver lib_control receiver_control Let_def)
  moreover have "target_instance t = CAN_IPC_INS0_CAN5_CHAN4 \<and> can_port_index t = 5"
    using t by (auto simp: make_target_def default_CAN_IPC_CONFIG_T_def channel_names dev_port_u8_def split: if_splits)
  ultimately show ?thesis by (intro exI [of _ t]) (simp add: dev_port_of_raw_def)
qed

theorem late_port_polls_port_5_witness:
  "\<exists>ts t. receive_goes recording_hal Rcv_Start (started []) = Inr (Rcv_Test ts, started []) \<and>
     (Slot_7, t) \<in> set ts \<and> target_instance t = CAN_IPC_INS0_CAN5_CHAN4"
proof -
  let ?ctl = "started ([] :: (string \<times> canframe) list)"
  have inv: "layer_inv (can_ipc_receiver ?ctl)"
    using service_inv_init [OF service_init_started [of "[] :: (string \<times> canframe) list"]]
    by (simp add: service_inv_def)
  obtain ts where ts: "receive_goes recording_hal Rcv_Start ?ctl = Inr (Rcv_Test ts, ?ctl)"
    by (simp add: targets_eq [OF inv])
  have "port_instance (can_ipc_receiver ?ctl) Slot_7 = default_CAN_IPC_CONFIG_T"
    by (simp add: started_sel lib_control receiver_control new_CAN_IPC_RECEIVER_def
        static_CAN_IPC_RECEIVER_def init_can_filter_def Let_def)
  from late_port_polls_port_5 [OF ts this, of CAN_PORT_7] ts show ?thesis by auto
qed

end
