(* ===== verification/Service_Threads_Orderly.thy ===== *)
theory Service_Threads_Orderly
  imports Service_Threads_Inv
begin

text \<open>
  The interleaved service with clients that keep to the discipline of \<open>Service_System\<close>: when a flag
  is set there is a handler that will clear it, and the counts of the filters cover the subscribed
  clients up to the handlers that are between the client manager and the tables. When no handler is
  at work the state is one that the coarse system describes.
\<close>

section \<open>Flags\<close>

text \<open>The places of a handler between its store of a pause and its store of the end of it.\<close>

fun pauses_worker :: "handler_place \<Rightarrow> bool" where
  "pauses_worker (At_Manager pkg) \<longleftrightarrow> True"
| "pauses_worker (At_Filter pkg) \<longleftrightarrow> True"
| "pauses_worker (At_Ack pkg ret) \<longleftrightarrow> True"
| "pauses_worker At_Resume_Worker \<longleftrightarrow> True"
| "pauses_worker _ \<longleftrightarrow> False"

fun pauses_receiver :: "handler_place \<Rightarrow> bool" where
  "pauses_receiver (At_Pause_Worker pkg) \<longleftrightarrow> True"
| "pauses_receiver At_Notify_Worker \<longleftrightarrow> True"
| "pauses_receiver At_Resume_Receiver \<longleftrightarrow> True"
| "pauses_receiver p \<longleftrightarrow> pauses_worker p"

definition flags_inv :: "nat \<Rightarrow> 'w threads \<Rightarrow> bool" where
  "flags_inv n s \<longleftrightarrow>
     receive_ipc_can_task_running (can_ipc_receiver (shared s)) \<and>
     work_task_queue_running (can_ipc_receiver (shared s)) \<and>
     (receive_ipc_can_task_paused (can_ipc_receiver (shared s)) \<longrightarrow>
        (\<exists>i<n. pauses_receiver (handler_at s i))) \<and>
     (work_task_queue_paused (can_ipc_receiver (shared s)) \<longrightarrow>
        (\<exists>i<n. pauses_worker (handler_at s i)))"

text \<open>The flags of a receiver, as one value.\<close>

definition flags :: "'cb CAN_IPC_RECEIVER \<Rightarrow> bool \<times> bool \<times> bool \<times> bool" where
  "flags r = (receive_ipc_can_task_running r, work_task_queue_running r,
     receive_ipc_can_task_paused r, work_task_queue_paused r)"

lemma flags_match [simp]: "flags (snd (match_can_filter p f r)) = flags r"
  by (simp add: flags_def match_can_filter_def split: option.split)

lemma flags_ordered [simp]: "flags (ordered_receiver pkg r) = flags r"
  by (simp add: flags_def ordered_receiver_def registered_receiver_def deregistered_receiver_def set_table_def)

lemma flags_frame:
  assumes "flags_inv n s" and "flags (can_ipc_receiver (shared t)) = flags (can_ipc_receiver (shared s))"
    and "handler_at t = handler_at s"
  shows "flags_inv n t"
  using assms by (simp add: flags_inv_def flags_def)

lemma flags_effect:
  "receive_ipc_can_task_running (can_ipc_receiver (handler_effect c p ctl)) =
     receive_ipc_can_task_running (can_ipc_receiver ctl)"
  "work_task_queue_running (can_ipc_receiver (handler_effect c p ctl)) =
     work_task_queue_running (can_ipc_receiver ctl)"
  "receive_ipc_can_task_paused (can_ipc_receiver (handler_effect c p ctl)) \<longleftrightarrow>
     p \<noteq> At_Resume_Receiver \<and> receive_ipc_can_task_paused (can_ipc_receiver ctl)"
  "work_task_queue_paused (can_ipc_receiver (handler_effect c p ctl)) \<longleftrightarrow>
     p \<noteq> At_Resume_Worker \<and> (work_task_queue_paused (can_ipc_receiver ctl) \<or> (\<exists>pkg. p = At_Pause_Worker pkg))"
  using flags_ordered [of _ "can_ipc_receiver ctl"]
  by (cases p; simp add: receiver_control write_package_def flags_def)+

lemma pauses_next:
  "pauses_receiver p \<Longrightarrow> p \<noteq> At_Resume_Receiver \<Longrightarrow> pauses_receiver (handler_next p)"
  "pauses_worker p \<Longrightarrow> p \<noteq> At_Resume_Worker \<Longrightarrow> pauses_worker (handler_next p)"
  by (cases p; simp)+

lemma flags_inv_step:
  assumes "flags_inv n s" and "threads_inv n s" and "threads_step h allowed n s t"
  shows "flags_inv n t"
  using assms(3)
proof cases
  case (package i pkg p ctl)
  from package(7) show ?thesis
  proof (cases rule: handler_begins_cases)
    case (other w)
    then show ?thesis
      using package(1,4) by (intro flags_frame [OF assms(1)]) (auto simp: fun_upd_idem)
  next
    case pause
    have "work_task_queue_paused (can_ipc_receiver (shared s)) \<Longrightarrow>
        \<exists>j<n. j \<noteq> i \<and> pauses_worker (handler_at s j)"
      using assms(1) package(4) by (auto simp: flags_inv_def)
    with assms(1) package(1,2) pause show ?thesis
      by (auto simp: flags_inv_def receiver_control)
  qed
next
  case (handler i p ctl)
  from handler_goes_Inr [OF handler(4) threads_invD(2) [OF assms(2)]]
  have p: "p = handler_next (handler_at s i)" and ctl: "ctl = handler_effect (int i) (handler_at s i) (shared s)"
    by simp_all
  have "\<exists>j<n. pauses_receiver (handler_at t j)"
    if "receive_ipc_can_task_paused (can_ipc_receiver (shared t))"
  proof -
    from that assms(1) handler(1) ctl obtain j where "j < n" "pauses_receiver (handler_at s j)"
      and "handler_at s i \<noteq> At_Resume_Receiver"
      by (auto simp: flags_inv_def flags_effect)
    then show ?thesis
      using handler(1) p pauses_next(1) [of "handler_at s i"] by (cases "j = i") (auto intro: exI [of _ j])
  qed
  moreover have "\<exists>j<n. pauses_worker (handler_at t j)"
    if "work_task_queue_paused (can_ipc_receiver (shared t))"
  proof (cases "\<exists>pkg. handler_at s i = At_Pause_Worker pkg")
    case True
    then show ?thesis using handler(1,2) p by (auto intro!: exI [of _ i])
  next
    case False
    with that assms(1) handler(1) ctl obtain j where "j < n" "pauses_worker (handler_at s j)"
      and "handler_at s i \<noteq> At_Resume_Worker"
      by (auto simp: flags_inv_def flags_effect)
    then show ?thesis
      using handler(1) p pauses_next(2) [of "handler_at s i"] by (cases "j = i") (auto intro: exI [of _ j])
  qed
  ultimately show ?thesis
    using assms(1) handler(1) ctl by (simp add: flags_inv_def flags_effect)
next
  case (receiver p ctl)
  from receiver(2) show ?thesis
    by (cases rule: receive_goes_cases)
      (use receiver(1) in \<open>auto intro!: flags_frame [OF assms(1)]\<close>)
next
  case (worker p ctl)
  from worker(2) show ?thesis
    by (cases rule: worker_goes_cases)
      (use worker(1) in \<open>auto intro!: flags_frame [OF assms(1)] simp: flags_def write_package_def\<close>)
qed (auto intro!: flags_frame [OF assms(1)] simp: hang_up_def stop_def Let_def)

section \<open>Counting under interleaving\<close>

text \<open>
  The handlers that have changed the client manager and not yet the tables, by what they are about
  to do to the count of an identifier.
\<close>

definition about_to :: "SOCKET_ORDER_E \<Rightarrow> nat \<Rightarrow> 'w threads \<Rightarrow> u32 \<Rightarrow> nat set" where
  "about_to order n s i =
     {k. k < n \<and> (\<exists>pkg. handler_at s k = At_Filter pkg \<and> socket_order pkg = order \<and> i \<in> set (package_ids pkg))}"

definition counts_due :: "nat \<Rightarrow> 'w threads \<Rightarrow> bool" where
  "counts_due n s \<longleftrightarrow>
     (\<forall>i. card (clients_of (socket_client_manager (shared s)) i) +
            card (about_to SOCKET_ORDER_AS_REMOVE_FILTER n s i) \<le>
          count (port_registered (can_ipc_receiver (shared s)) Slot_5) i +
            card (about_to SOCKET_ORDER_AS_ADD_FILTER n s i))"

text \<open>A disciplined order stays one until the handler carries it out.\<close>

definition orders_disciplined :: "'w threads \<Rightarrow> bool" where
  "orders_disciplined s \<longleftrightarrow>
     (\<forall>k pkg. handler_at s k \<in> {At_Pause_Worker pkg, At_Manager pkg} \<longrightarrow>
        disciplined (int k) pkg (shared s)) \<and>
     (\<forall>k pkg. handler_at s k = At_Filter pkg \<longrightarrow> distinct (package_ids pkg))"

definition orderly_inv :: "nat \<Rightarrow> 'w threads \<Rightarrow> bool" where
  "orderly_inv n s \<longleftrightarrow> threads_inv n s \<and> flags_inv n s \<and> counts_due n s \<and> orders_disciplined s \<and>
     fds_ok (shared s)"

lemma about_to_finite [simp]: "finite (about_to order n s i)"
  by (simp add: about_to_def)

lemma about_to_cong:
  assumes "\<And>k pkg. handler_at t k = At_Filter pkg \<longleftrightarrow> handler_at s k = At_Filter pkg"
  shows "about_to order n t i = about_to order n s i"
  using assms by (simp add: about_to_def)

lemma about_to_upd:
  assumes "k < n"
  shows "about_to order n (s\<lparr>shared := ctl, handler_at := (handler_at s)(k := p), receive_at := rp, worker_at := wp\<rparr>) i =
    (if \<exists>pkg. p = At_Filter pkg \<and> socket_order pkg = order \<and> i \<in> set (package_ids pkg)
     then insert k (about_to order n s i) else about_to order n s i - {k})"
  using assms by (auto simp: about_to_def)

text \<open>What a step leaves alone when no handler gets to or from the tables.\<close>

lemma counts_due_frame:
  assumes "counts_due n s" and "\<And>k pkg. handler_at t k = At_Filter pkg \<longleftrightarrow> handler_at s k = At_Filter pkg"
    and "\<And>i. card (clients_of (socket_client_manager (shared t)) i) \<le>
      card (clients_of (socket_client_manager (shared s)) i)"
    and "receiver_filter (can_ipc_receiver (shared t)) Slot_5 = receiver_filter (can_ipc_receiver (shared s)) Slot_5"
  shows "counts_due n t"
  unfolding counts_due_def
proof
  fix i
  from assms(1) have "card (clients_of (socket_client_manager (shared s)) i) +
      card (about_to SOCKET_ORDER_AS_REMOVE_FILTER n s i) \<le>
    count (port_registered (can_ipc_receiver (shared s)) Slot_5) i +
      card (about_to SOCKET_ORDER_AS_ADD_FILTER n s i)" by (simp add: counts_due_def)
  with assms(3) [of i] about_to_cong [of t s, OF assms(2)] assms(4)
  show "card (clients_of (socket_client_manager (shared t)) i) +
      card (about_to SOCKET_ORDER_AS_REMOVE_FILTER n t i) \<le>
    count (port_registered (can_ipc_receiver (shared t)) Slot_5) i +
      card (about_to SOCKET_ORDER_AS_ADD_FILTER n t i)"
    by (simp add: port_registered_def)
qed

text \<open>The two steps of an order that the counts see.\<close>

lemma counts_due_manager:
  assumes "counts_due n s" and inv: "threads_inv n s" and k: "k < n" and at: "handler_at s k = At_Manager pkg"
    and disc: "disciplined (int k) pkg (shared s)"
    and t: "shared t = (shared s)\<lparr>socket_client_manager := ordered_manager (int k) pkg (socket_client_manager (shared s))\<rparr>"
      "handler_at t = (handler_at s)(k := At_Filter pkg)"
  shows "counts_due n t"
  unfolding counts_due_def
proof
  fix i
  let ?C = "clients_of (socket_client_manager (shared s)) i"
  let ?a = "\<lambda>order s. about_to order n s i"
  have fo: "filter_order pkg" and sinv: "service_inv (shared s)"
    using threads_invD(1) [OF inv] threads_invD(3) [OF inv, of k pkg] at by simp_all
  then have wf: "wf_index (socket_client_index (socket_client_manager (shared s)))"
    by (simp add: service_inv_def manager_inv_def)
  have fin: "finite ?C" using sinv by (rule finite_clients_of)
  have a: "?a order t = (if socket_order pkg = order \<and> i \<in> set (package_ids pkg) then insert k (?a order s) else ?a order s)"
    "k \<notin> ?a order s" for order
    using k at t(2) by (auto simp: about_to_def)
  have le: "card ?C + card (?a SOCKET_ORDER_AS_REMOVE_FILTER s) \<le>
      count (port_registered (can_ipc_receiver (shared s)) Slot_5) i + card (?a SOCKET_ORDER_AS_ADD_FILTER s)"
    using assms(1) by (simp add: counts_due_def)
  show "card (clients_of (socket_client_manager (shared t)) i) + card (?a SOCKET_ORDER_AS_REMOVE_FILTER t) \<le>
      count (port_registered (can_ipc_receiver (shared t)) Slot_5) i + card (?a SOCKET_ORDER_AS_ADD_FILTER t)"
  proof (cases "socket_order pkg = SOCKET_ORDER_AS_ADD_FILTER")
    case True
    with le a(2) show ?thesis
      by (simp add: t(1) ordered_manager_def clients_of_ops [OF wf] a(1) card_insert_if fin)
  next
    case False
    with fo have order: "socket_order pkg = SOCKET_ORDER_AS_REMOVE_FILTER" by (simp add: filter_order_def)
    with disc have "i \<in> set (package_ids pkg) \<Longrightarrow> int k \<in> ?C"
      by (auto simp: disciplined_def clients_of_def list_all_iff)
    moreover from fin have "int k \<in> ?C \<Longrightarrow> Suc (card (?C - {int k})) = card ?C" by (rule card_Suc_Diff1)
    ultimately show ?thesis
      using order le a(2) by (auto simp: t(1) ordered_manager_def clients_of_ops [OF wf] a(1))
  qed
qed

lemma counts_due_filter:
  assumes "counts_due n s" and inv: "threads_inv n s" and k: "k < n" and at: "handler_at s k = At_Filter pkg"
    and disc: "distinct (package_ids pkg)"
    and t: "shared t = on_receiver (ordered_receiver pkg) (shared s)"
      "\<exists>p. handler_at t = (handler_at s)(k := p) \<and> (\<forall>pkg. p \<noteq> At_Filter pkg)"
  shows "counts_due n t"
  unfolding counts_due_def
proof
  fix i
  let ?R = "port_registered (can_ipc_receiver (shared s)) Slot_5"
  let ?a = "\<lambda>order s. about_to order n s i"
  have fo: "filter_order pkg" and "service_inv (shared s)"
    using threads_invD(1) [OF inv] threads_invD(3) [OF inv, of k pkg] at by simp_all
  then have wf: "wf_receiver (can_ipc_receiver (shared s))"
    by (simp add: service_inv_def layer_inv_def)
  have a: "?a order t = ?a order s - {k}"
    "k \<in> ?a order s \<longleftrightarrow> socket_order pkg = order \<and> i \<in> set (package_ids pkg)" for order
    using k at t(2) by (auto simp: about_to_def split: if_splits)
  have due: "k \<in> ?a order s \<Longrightarrow> Suc (card (?a order s - {k})) = card (?a order s)" for order
    by (rule card_Suc_Diff1) simp_all
  have single: "count (mset (package_ids pkg)) i = (if i \<in> set (package_ids pkg) then 1 else 0)"
    using disc by (simp add: distinct_count_atmost_1)
  have le: "card (clients_of (socket_client_manager (shared s)) i) + card (?a SOCKET_ORDER_AS_REMOVE_FILTER s) \<le>
      count ?R i + card (?a SOCKET_ORDER_AS_ADD_FILTER s)"
    using assms(1) by (simp add: counts_due_def)
  show "card (clients_of (socket_client_manager (shared t)) i) + card (?a SOCKET_ORDER_AS_REMOVE_FILTER t) \<le>
      count (port_registered (can_ipc_receiver (shared t)) Slot_5) i + card (?a SOCKET_ORDER_AS_ADD_FILTER t)"
  proof (cases "i \<in> set (package_ids pkg)")
    case True
    then show ?thesis
      using fo le due [of SOCKET_ORDER_AS_ADD_FILTER] due [of SOCKET_ORDER_AS_REMOVE_FILTER]
      by (auto simp: t(1) a ordered_receiver_def filter_order_def port_registered_package [OF wf] single)
  next
    case False
    then show ?thesis
      using fo le
      by (auto simp: t(1) a ordered_receiver_def filter_order_def port_registered_package [OF wf] single)
  qed
qed

lemma subscribed_ordered:
  assumes "wf_index (socket_client_index m)"
  shows "subscribed (ordered_manager c pkg m) =
    (if socket_order pkg = SOCKET_ORDER_AS_ADD_FILTER then subscribed m \<union> {c} \<times> set (package_ids pkg)
     else subscribed m - {c} \<times> set (package_ids pkg))"
  using cm.subs_add [OF assms] subscribed_removed [OF assms] by (auto simp: ordered_manager_def)

lemma disciplined_cong:
  assumes "\<And>i. (c, i) \<in> subscribed (socket_client_manager ctl') \<longleftrightarrow>
      (c, i) \<in> subscribed (socket_client_manager ctl)"
  shows "disciplined c pkg ctl' = disciplined c pkg ctl"
  using assms by (simp add: disciplined_def list_all_iff split: SOCKET_ORDER_E.split)

lemma orders_disciplined_frame:
  assumes "orders_disciplined s" and "handler_at t = handler_at s"
    and "\<And>k i. handler_at s k \<noteq> At_Read \<Longrightarrow>
      (int k, i) \<in> subscribed (socket_client_manager (shared t)) \<longleftrightarrow>
      (int k, i) \<in> subscribed (socket_client_manager (shared s))"
  shows "orders_disciplined t"
  unfolding orders_disciplined_def
proof (intro conjI allI impI)
  fix k pkg
  assume "handler_at t k \<in> {At_Pause_Worker pkg, At_Manager pkg}"
  then have at: "handler_at s k \<in> {At_Pause_Worker pkg, At_Manager pkg}" by (simp add: assms(2))
  then have "handler_at s k \<noteq> At_Read" by auto
  then have "disciplined (int k) pkg (shared t) = disciplined (int k) pkg (shared s)"
    by (intro disciplined_cong assms(3))
  with at assms(1) show "disciplined (int k) pkg (shared t)" by (auto simp: orders_disciplined_def)
next
  fix k pkg
  assume "handler_at t k = At_Filter pkg"
  with assms(1,2) show "distinct (package_ids pkg)" by (simp add: orders_disciplined_def)
qed

lemma effect_subscribed:
  assumes "wf_index (socket_client_index (socket_client_manager ctl))" and "c \<noteq> d"
  shows "(d, i) \<in> subscribed (socket_client_manager (handler_effect c p ctl)) \<longleftrightarrow>
    (d, i) \<in> subscribed (socket_client_manager ctl)"
  using assms by (cases p) (auto simp: subscribed_ordered write_package_def)

lemma effect_manager:
  "\<forall>pkg. p \<noteq> At_Manager pkg \<Longrightarrow>
     socket_client_manager (handler_effect c p ctl) = socket_client_manager ctl"
  "\<forall>pkg. p \<noteq> At_Filter pkg \<Longrightarrow>
     receiver_filter (can_ipc_receiver (handler_effect c p ctl)) = receiver_filter (can_ipc_receiver ctl)"
  by (cases p; simp add: write_package_def)+

lemma orders_disciplined_handler:
  assumes "orders_disciplined s" and inv: "threads_inv n s" and k: "k < n" and at: "handler_at s k \<noteq> At_Read"
    and t: "shared t = handler_effect (int k) (handler_at s k) (shared s)"
      "handler_at t = (handler_at s)(k := handler_next (handler_at s k))"
  shows "orders_disciplined t"
  unfolding orders_disciplined_def
proof (intro conjI allI impI)
  fix j pkg
  assume j: "handler_at t j \<in> {At_Pause_Worker pkg, At_Manager pkg}"
  from threads_invD(1) [OF inv] have wf: "wf_index (socket_client_index (socket_client_manager (shared s)))"
    by (simp add: service_inv_def manager_inv_def)
  have "disciplined (int j) pkg (shared s) \<and>
      (\<forall>i. (int j, i) \<in> subscribed (socket_client_manager (shared t)) \<longleftrightarrow>
           (int j, i) \<in> subscribed (socket_client_manager (shared s)))"
  proof (cases "j = k")
    case True
    with j t(2) have "handler_at s k = At_Pause_Worker pkg"
      by (cases "handler_at s k") auto
    with True assms(1) t(1) show ?thesis by (auto simp: orders_disciplined_def)
  next
    case False
    with j t(2) assms(1) have "disciplined (int j) pkg (shared s)"
      by (auto simp: orders_disciplined_def)
    with False show ?thesis by (simp add: t(1) effect_subscribed [OF wf])
  qed
  then show "disciplined (int j) pkg (shared t)"
    using disciplined_cong [of "int j" "shared t" "shared s" pkg] by blast
next
  fix j pkg
  assume j: "handler_at t j = At_Filter pkg"
  show "distinct (package_ids pkg)"
  proof (cases "j = k")
    case True
    with j t(2) have at': "handler_at s k = At_Manager pkg" by (cases "handler_at s k") auto
    with assms(1) have "disciplined (int k) pkg (shared s)" by (simp add: orders_disciplined_def)
    moreover have "filter_order pkg" using threads_invD(3) [OF inv, of k pkg] at' by simp
    ultimately show ?thesis by (auto simp: disciplined_def filter_order_def)
  next
    case False
    with j t(2) assms(1) show ?thesis by (auto simp: orders_disciplined_def)
  qed
qed

lemma fds_ok_frame:
  assumes "fds_ok ctl" and "set (client_threads ctl') \<subseteq> set (client_threads ctl)"
    and "subscribed (socket_client_manager ctl') \<subseteq> subscribed (socket_client_manager ctl)"
  shows "fds_ok ctl'"
  using assms unfolding fds_ok_def by blast

lemma fds_ok_effect:
  assumes "fds_ok ctl" and "wf_index (socket_client_index (socket_client_manager ctl))" and "0 \<le> c"
  shows "fds_ok (handler_effect c p ctl)"
  using assms by (cases p) (auto simp: fds_ok_def subscribed_ordered write_package_def split: if_splits)

text \<open>The steps that touch neither table nor change any handler's place.\<close>

lemma orderly_frame:
  assumes inv: "orderly_inv n s" and "threads_inv n t" and "flags_inv n t" and "handler_at t = handler_at s"
    and "socket_client_manager (shared t) = socket_client_manager (shared s)"
    and "receiver_filter (can_ipc_receiver (shared t)) = receiver_filter (can_ipc_receiver (shared s))"
    and "set (client_threads (shared t)) \<subseteq> set (client_threads (shared s))"
  shows "orderly_inv n t"
proof -
  from inv have "counts_due n s" "orders_disciplined s" "fds_ok (shared s)"
    by (simp_all add: orderly_inv_def)
  with assms show ?thesis
    by (auto simp: orderly_inv_def intro: counts_due_frame orders_disciplined_frame fds_ok_frame)
qed

lemma orderly_handler:
  assumes inv: "orderly_inv n s" and "threads_inv n t" and "flags_inv n t"
    and k: "k < n" and at: "handler_at s k \<noteq> At_Read"
    and t: "shared t = handler_effect (int k) (handler_at s k) (shared s)"
      "handler_at t = (handler_at s)(k := handler_next (handler_at s k))"
  shows "orderly_inv n t"
proof -
  let ?p = "handler_at s k"
  from inv have tinv: "threads_inv n s" and counts: "counts_due n s" and disc: "orders_disciplined s"
    and fds: "fds_ok (shared s)" by (simp_all add: orderly_inv_def)
  have wf: "wf_index (socket_client_index (socket_client_manager (shared s)))"
    using threads_invD(1) [OF tinv] by (simp add: service_inv_def manager_inv_def)
  have "counts_due n t"
  proof -
    consider (manager) pkg where "?p = At_Manager pkg" | (filter) pkg where "?p = At_Filter pkg"
      | (other) "\<forall>pkg. ?p \<noteq> At_Manager pkg \<and> ?p \<noteq> At_Filter pkg" by blast
    then show ?thesis
    proof cases
      case manager
      with disc have "disciplined (int k) pkg (shared s)" by (simp add: orders_disciplined_def)
      with manager t show ?thesis by (intro counts_due_manager [OF counts tinv k manager]) simp_all
    next
      case filter
      with disc have "distinct (package_ids pkg)" by (simp add: orders_disciplined_def)
      with filter t show ?thesis by (intro counts_due_filter [OF counts tinv k filter]) auto
    next
      case other
      have "handler_next ?p \<noteq> At_Filter pkg" for pkg using other by (cases ?p) simp_all
      with other t effect_manager [of ?p "int k" "shared s"] show ?thesis
        by (intro counts_due_frame [OF counts]) (auto split: if_splits)
    qed
  qed
  moreover have "orders_disciplined t" by (rule orders_disciplined_handler [OF disc tinv k at t])
  moreover have "fds_ok (shared t)" using fds_ok_effect [OF fds wf, of "int k"] by (simp add: t)
  ultimately show ?thesis using assms(2,3) by (simp add: orderly_inv_def)
qed

lemma orderly_begins:
  assumes inv: "orderly_inv n s" and "threads_inv n t" and "flags_inv n t"
    and at: "handler_at s k = At_Read" and "disciplined (int k) pkg (shared s)"
    and begins: "handler_begins h pkg (shared s) = Inr (p, ctl)"
    and t: "shared t = ctl" "handler_at t = (handler_at s)(k := p)"
  shows "orderly_inv n t"
  using begins
proof (cases rule: handler_begins_cases)
  case (other w)
  with at t have "handler_at t = handler_at s" by (simp add: fun_upd_idem)
  then show ?thesis using other t by (intro orderly_frame [OF inv assms(2,3)]) simp_all
next
  case pause
  from inv have counts: "counts_due n s" and disc: "orders_disciplined s" and fds: "fds_ok (shared s)"
    by (simp_all add: orderly_inv_def)
  have "counts_due n t"
    by (rule counts_due_frame [OF counts]) (use pause at t in \<open>auto split: if_splits\<close>)
  moreover have "orders_disciplined t"
    unfolding orders_disciplined_def
  proof (intro conjI allI impI)
    fix j pkg'
    assume j: "handler_at t j \<in> {At_Pause_Worker pkg', At_Manager pkg'}"
    have "disciplined (int j) pkg' (shared s)"
      using j pause(2) t(2) disc assms(5)
      by (cases "j = k") (auto simp: orders_disciplined_def)
    then show "disciplined (int j) pkg' (shared t)"
      using disciplined_cong [of "int j" "shared t" "shared s" pkg'] pause(3) t(1) by simp
  qed (use pause(2) t(2) disc in \<open>auto simp: orders_disciplined_def split: if_splits\<close>)
  moreover have "fds_ok (shared t)"
    by (rule fds_ok_frame [OF fds]) (use pause t in simp_all)
  ultimately show ?thesis using assms(2,3) by (simp add: orderly_inv_def)
qed

lemma match_filter [simp]: "receiver_filter (snd (match_can_filter p f r)) = receiver_filter r"
  by (simp add: match_can_filter_def split: option.split)

lemma orderly_inv_step:
  assumes inv: "orderly_inv n s" and step: "threads_step h disciplined n s t"
  shows "orderly_inv n t"
proof -
  from inv have tinv: "threads_inv n s" and finv: "flags_inv n s" by (simp_all add: orderly_inv_def)
  note tinv' = threads_inv_step [OF tinv step] and finv' = flags_inv_step [OF finv tinv step]
  note frame = orderly_frame [OF inv tinv' finv']
  from step show ?thesis
  proof cases
    case (connects i)
    from inv have "counts_due n s" "orders_disciplined s" "fds_ok (shared s)"
      by (simp_all add: orderly_inv_def)
    with connects tinv' finv' show ?thesis
      by (auto simp: orderly_inv_def fds_ok_def intro: counts_due_frame orders_disciplined_frame)
  next
    case (package i pkg p ctl)
    then show ?thesis by (intro orderly_begins [OF inv tinv' finv' package(4,6,7)]) simp_all
  next
    case (handler i p ctl)
    from handler_goes_Inr [OF handler(4) threads_invD(2) [OF tinv]] handler
    show ?thesis by (intro orderly_handler [OF inv tinv' finv' handler(2,3)]) simp_all
  next
    case (leaves i)
    let ?m = "socket_client_manager (shared s)"
    from inv have counts: "counts_due n s" and disc: "orders_disciplined s" and fds: "fds_ok (shared s)"
      by (simp_all add: orderly_inv_def)
    have sinv: "service_inv (shared s)" using threads_invD(1) [OF tinv] .
    then have wf: "wf_index (socket_client_index ?m)" by (simp add: service_inv_def manager_inv_def)
    have m: "socket_client_manager (shared t) = clean_socket_client_index (int i) ?m"
      using leaves(1) by (simp add: hang_up_def)
    have "card (clients_of ?m j - {int i}) \<le> card (clients_of ?m j)" for j
      by (rule card_mono) (auto intro: finite_clients_of sinv)
    then have "counts_due n t"
      by (intro counts_due_frame [OF counts]) (use leaves(1) in \<open>simp_all add: hang_up_def clients_of_ops [OF wf]\<close>)
    moreover have "orders_disciplined t"
      using leaves(1,4)
      by (intro orders_disciplined_frame [OF disc]) (auto simp: hang_up_def subscribed_clean)
    moreover have "fds_ok (shared t)"
      by (rule fds_ok_frame [OF fds])
        (use leaves(1) in \<open>auto simp: hang_up_def subscribed_clean dest: subsetD [OF set_remove1_subset]\<close>)
    ultimately show ?thesis using tinv' finv' by (simp add: orderly_inv_def)
  next
    case (drops i)
    then show ?thesis by (intro frame) (auto dest: subsetD [OF set_remove1_subset])
  next
    case (receiver p ctl)
    from receiver(2) show ?thesis
      by (cases rule: receive_goes_cases; intro frame) (use receiver(1) in simp_all)
  next
    case (worker p ctl)
    from worker(2) show ?thesis
      by (cases rule: worker_goes_cases; intro frame) (use worker(1) in \<open>simp_all add: write_package_def\<close>)
  qed (intro frame; simp add: stop_def Let_def)+
qed

lemma orderly_inv_init: "threads_init s \<Longrightarrow> orderly_inv n s"
proof -
  assume init: "threads_init s"
  then obtain ctl where ctl: "service_init ctl" and s: "s = threads_start ctl"
    by (auto simp: threads_init_def)
  from disciplined_inv_init [OF ctl] have "counts_cover ctl" "fds_ok ctl"
    by (simp_all add: disciplined_inv_def)
  moreover have "about_to order n s i = {}" for order i
    by (simp add: about_to_def s threads_start_def)
  moreover from ctl obtain sys w where "start_controller sys [] (empty_controller w) = (True, ctl)"
    by (auto simp: service_init_def)
  from start_controller_success(2) [OF this] have "flags (can_ipc_receiver ctl) = (True, True, False, False)"
    by (simp add: flags_def lib_control receiver_control)
  ultimately show ?thesis
    using threads_inv_init [OF init]
    by (simp add: orderly_inv_def counts_due_def counts_cover_def orders_disciplined_def flags_inv_def
        flags_def s threads_start_def)
qed

interpretation orderly_threads: invariant_system threads_init "threads_step h disciplined n" "orderly_inv n" for h n
  by unfold_locales (auto intro: orderly_inv_init orderly_inv_step)

text \<open>
  Between the orders the state of the service is as the coarse system has it, with both threads
  free to run.
\<close>

lemma orderly_idle:
  assumes "orderly_inv n s" and "\<And>i. i < n \<Longrightarrow> handler_at s i = At_Read"
  shows "disciplined_inv (shared s)" and "worker_ready (can_ipc_receiver (shared s))"
proof -
  have "about_to order n s i = {}" for order i
    using assms(2) by (auto simp: about_to_def)
  with assms(1) show "disciplined_inv (shared s)"
    by (simp add: orderly_inv_def disciplined_inv_def threads_inv_def counts_due_def counts_cover_def)
  from assms have "\<not> work_task_queue_paused (can_ipc_receiver (shared s))"
    by (auto simp: orderly_inv_def flags_inv_def)
  with assms(1) show "worker_ready (can_ipc_receiver (shared s))"
    by (simp add: worker_ready_def orderly_inv_def flags_inv_def threads_inv_def service_inv_def
        layer_inv_def queue_ok_def)
qed

end
