(* ===== verification/Service_Threads_Delivery.thy ===== *)
theory Service_Threads_Delivery
  imports Service_Threads_Orderly
begin

text \<open>
  The delivery of a batch of frames under every interleaving of the receive thread and the worker.
  What the two threads still owe the clients is a list of writes; each of their steps either moves
  something within it or pays its first element, and a measure decreases, so that when no step is
  left everything has been written, in order.
\<close>

section \<open>What the two threads still owe the clients\<close>

fun worker_owes :: "CAN_IPC_SOCKET_CLIENT_MANAGER_T \<Rightarrow> worker_place \<Rightarrow> io_event list" where
  "worker_owes m (Wrk_Run task) = frame_writes m (snd task)"
| "worker_owes m (Wrk_Write pkg fds) =
     map (\<lambda>fd. Io_Write fd (encode_package pkg)) (filter (\<lambda>fd. 0 \<le> fd) fds)"
| "worker_owes m _ = []"

definition tasks_owe :: "CAN_IPC_SOCKET_CLIENT_MANAGER_T \<Rightarrow> rx_callback task list \<Rightarrow> io_event list" where
  "tasks_owe m ts = concat (map (\<lambda>t. frame_writes m (snd t)) ts)"

fun batch_tasks :: "rx_callback CAN_IPC_RECEIVER \<Rightarrow> receive_place \<Rightarrow> rx_callback task list" where
  "batch_tasks r (Rcv_Frames ts us k buf port) =
     (case return_can_ipc_receiver_filter port of
        None \<Rightarrow> []
      | Some s \<Rightarrow> tasks_for (receiver_filter r s) (map rx_frame (reached_frames k buf)))"
| "batch_tasks r _ = []"

definition owed :: "'w threads \<Rightarrow> io_event list" where
  "owed s =
     worker_owes (socket_client_manager (shared s)) (worker_at s) @
     tasks_owe (socket_client_manager (shared s))
       (work_queue (work_queue_handle (can_ipc_receiver (shared s))) @
        batch_tasks (can_ipc_receiver (shared s)) (receive_at s))"

section \<open>The steps of one batch\<close>

text \<open>
  The receive thread goes through the frames it has received, and the worker takes and runs tasks,
  in any order. A step at which a thread blocks is none.
\<close>

inductive batch_step :: "'w hal \<Rightarrow> 'w threads \<Rightarrow> 'w threads \<Rightarrow> bool" for h :: "'w hal" where
  batch_receive: "receive_at s = Rcv_Frames ts us k buf port \<Longrightarrow>
     receive_goes h (receive_at s) (shared s) = Inr (p, ctl) \<Longrightarrow>
     batch_step h s (s\<lparr>shared := ctl, receive_at := p,
       worker_at := (if queue_length (shared s) < queue_length ctl then notify_queue (worker_at s)
                     else worker_at s)\<rparr>)"
| batch_work: "worker_at s \<noteq> Wrk_Wait \<Longrightarrow> worker_goes (worker_at s) (shared s) = Inr (p, ctl) \<Longrightarrow>
     batch_step h s (s\<lparr>shared := ctl, worker_at := p\<rparr>)"

lemma batch_step_is_step:
  assumes "batch_step h s t"
  shows "threads_step h allowed n s t"
  using assms
proof cases
  case (batch_receive ts us k buf port p ctl)
  show ?thesis unfolding batch_receive(1) by (rule threads_step.receiver [OF batch_receive(3)])
next
  case (batch_work p ctl)
  show ?thesis unfolding batch_work(1) by (rule threads_step.worker [OF batch_work(3)])
qed

fun frames_left :: "receive_place \<Rightarrow> nat" where
  "frames_left (Rcv_Frames ts us k buf port) = k"
| "frames_left _ = 0"

definition batch_inv :: "'w threads \<Rightarrow> bool" where
  "batch_inv s \<longleftrightarrow> callbacks_ok (can_ipc_receiver (shared s)) \<and>
     worker_ready (can_ipc_receiver (shared s)) \<and> frames_ok (receive_at s) \<and>
     queue_length (shared s) + frames_left (receive_at s) \<le> MAX_WORK_QUEUE_TASKS \<and>
     (worker_at s = Wrk_Wait \<longrightarrow> is_queue_empty (work_queue_handle (can_ipc_receiver (shared s)))) \<and>
     (\<forall>t. worker_at s = Wrk_Run t \<longrightarrow> fst t = Some Socket_Receive_Callback) \<and>
     worker_at s \<noteq> Wrk_Sleep \<and> worker_at s \<noteq> Wrk_End"

text \<open>What a batch leaves alone, and the account: what is written and what is owed stay the same.\<close>

definition settles :: "'w threads \<Rightarrow> 'w threads \<Rightarrow> bool" where
  "settles s t \<longleftrightarrow> socket_client_manager (shared t) = socket_client_manager (shared s) \<and>
     io_log (shared t) @ owed t = io_log (shared s) @ owed s"

lemma settles_refl: "settles s s"
  by (simp add: settles_def)

lemma settles_trans: "settles s t \<Longrightarrow> settles t u \<Longrightarrow> settles s u"
  by (simp add: settles_def)

lemma match_in_room:
  assumes "\<not> stopped (work_queue_handle r)" and "wq_size (work_queue_handle r) < MAX_WORK_QUEUE_TASKS"
  shows "work_queue (work_queue_handle (snd (match_can_filter port f r))) =
      work_queue (work_queue_handle r) @
        (case return_can_ipc_receiver_filter port of None \<Rightarrow> [] | Some s \<Rightarrow> tasks_for (receiver_filter r s) [f])"
    and "stopped (work_queue_handle (snd (match_can_filter port f r))) \<longleftrightarrow> stopped (work_queue_handle r)"
  using assms by (auto simp: match_can_filter_def queue_ops split: option.split)

lemma tasks_for_Cons: "tasks_for t (f # fs) = tasks_for t [f] @ tasks_for t fs"
  by (simp split: option.split)

lemma ready_match: "worker_ready r \<Longrightarrow> worker_ready (snd (match_can_filter p f r))"
  by (auto simp: worker_ready_def match_can_filter_def queue_ops split: option.split)

lemma batch_receive_settles:
  assumes inv: "batch_inv s" and at: "receive_at s = Rcv_Frames ts us k buf port"
    and goes: "receive_goes h (receive_at s) (shared s) = Inr (p, ctl)"
    and t: "t = s\<lparr>shared := ctl, receive_at := p,
       worker_at := (if queue_length (shared s) < queue_length ctl then notify_queue (worker_at s)
                     else worker_at s)\<rparr>"
  shows "batch_inv t \<and> settles s t"
proof (cases k)
  case 0
  with inv goes t at show ?thesis
    by (auto simp: batch_inv_def settles_def owed_def reached_frames_def split: option.splits)
next
  case (Suc j)
  with inv at obtain f fs where buf: "buf = f # fs" and fb: "frame_in_bounds f"
    and left: "queue_length (shared s) + Suc j \<le> MAX_WORK_QUEUE_TASKS"
    by (cases buf) (auto simp: batch_inv_def)
  show ?thesis
  proof (cases "cf_len f = 0")
    case True
    with Suc buf goes at have p: "p = Rcv_Frames ts us j (f # fs) port" "ctl = shared s"
      by simp_all
    have "reached_frames i (f # fs) = []" for i
      using True by (cases i) (simp_all add: reached_frames_def)
    moreover have "frames_ok p"
    proof -
      have "list_all frame_in_bounds (take j buf)" if "list_all frame_in_bounds (take k buf)"
        using that set_take_subset_set_take [of j k buf] Suc by (auto simp: list_all_iff)
      with inv at Suc buf p show ?thesis by (auto simp: batch_inv_def)
    qed
    ultimately show ?thesis
      using inv at Suc buf p t by (auto simp: batch_inv_def settles_def owed_def split: option.splits)
  next
    case False
    let ?r = "can_ipc_receiver (shared s)"
    let ?r' = "snd (match_can_filter port (rx_frame f) ?r)"
    from False Suc buf goes at fb have p: "p = Rcv_Frames ts us j fs port"
      and ctl: "ctl = on_receiver (\<lambda>r. snd (match_can_filter port (rx_frame f) r)) (shared s)"
      by (simp_all add: frame_of_canframe_ok)
    have rf: "reached_frames (Suc j) (f # fs) = f # reached_frames j fs"
      using False by (simp add: reached_frames_def)
    have ready: "worker_ready ?r" using inv by (simp add: batch_inv_def)
    then have q: "work_queue (work_queue_handle ?r') = work_queue (work_queue_handle ?r) @
        (case return_can_ipc_receiver_filter port of None \<Rightarrow> []
         | Some s \<Rightarrow> tasks_for (receiver_filter ?r s) [rx_frame f])"
      using left match_in_room(1) [of ?r port "rx_frame f"] by (simp add: worker_ready_def queue_length_def)
    have tasks: "work_queue (work_queue_handle ?r') @ batch_tasks ?r' p =
        work_queue (work_queue_handle ?r) @ batch_tasks ?r (receive_at s)"
      using at Suc buf p rf tasks_for_Cons [of _ "rx_frame f"] by (simp add: q split: option.split)
    have one: "length (work_queue (work_queue_handle ?r')) \<le> Suc (length (work_queue (work_queue_handle ?r)))"
      by (auto simp: q split: option.split)
    have owes: "worker_owes m (notify_queue (worker_at s)) = worker_owes m (worker_at s)" for m
      by (cases "worker_at s") simp_all
    have "settles s t"
      using tasks by (simp add: settles_def owed_def t ctl owes)
    moreover have "batch_inv t"
    proof -
      have "is_queue_empty (work_queue_handle ?r')"
        if "worker_at t = Wrk_Wait"
      proof -
        from that have "worker_at s = Wrk_Wait" and le: "\<not> queue_length (shared s) < queue_length ctl"
          by (cases "worker_at s"; auto simp: t split: if_splits)+
        with inv have "is_queue_empty (work_queue_handle ?r)" by (simp add: batch_inv_def)
        with le show ?thesis by (simp add: ctl queue_length_def is_queue_empty_def wq_size_def)
      qed
      moreover have "frames_ok p" using inv at Suc buf p by (simp add: batch_inv_def)
      moreover have "worker_at t \<noteq> Wrk_Sleep \<and> worker_at t \<noteq> Wrk_End \<and>
          (\<forall>u. worker_at t = Wrk_Run u \<longrightarrow> fst u = Some Socket_Receive_Callback)"
        using inv by (cases "worker_at s") (auto simp: batch_inv_def t split: if_splits)
      ultimately show ?thesis
        using inv one left ready_match [OF ready] callbacks_ok_match [of ?r]
        by (auto simp: batch_inv_def t ctl p queue_length_def wq_size_def)
    qed
    ultimately show ?thesis by simp
  qed
qed

lemma batch_work_settles:
  assumes inv: "batch_inv s" and goes: "worker_goes (worker_at s) (shared s) = Inr (p, ctl)"
    and t: "t = s\<lparr>shared := ctl, worker_at := p\<rparr>"
  shows "batch_inv t \<and> settles s t"
proof -
  let ?r = "can_ipc_receiver (shared s)"
  from inv have ready: "worker_ready ?r" and cb: "callbacks_ok ?r" by (simp_all add: batch_inv_def)
  show ?thesis
  proof (cases "(worker_at s, shared s)" rule: worker_goes.cases)
    case (3 ctl')
    show ?thesis
    proof (cases "work_queue (work_queue_handle ?r)")
      case Nil
      with 3 inv goes t show ?thesis
        by (auto simp: dequeue_blocking_def batch_inv_def settles_def owed_def is_queue_empty_def
            queue_length_def on_receiver_def)
    next
      case (Cons u us)
      let ?q = "(work_queue_handle ?r)\<lparr>work_queue := us\<rparr>"
      from 3 Cons goes ready have p: "p = Wrk_Run u"
        and ctl: "ctl = on_receiver (\<lambda>r. r\<lparr>work_queue_handle := ?q\<rparr>) (shared s)"
        by (simp_all add: dequeue_blocking_def worker_ready_def)
      have "batch_tasks (?r\<lparr>work_queue_handle := ?q\<rparr>) x = batch_tasks ?r x" for x
        by (cases x) (simp_all split: option.split)
      moreover have "callbacks_ok (?r\<lparr>work_queue_handle := ?q\<rparr>)" "fst u = Some Socket_Receive_Callback"
        using cb Cons by (auto simp: callbacks_ok_def)
      ultimately show ?thesis
        using inv Cons 3 ready
        by (auto simp: t p ctl batch_inv_def settles_def owed_def tasks_owe_def worker_ready_def
            queue_length_def wq_size_def)
    qed
  next
    case (5 task ctl')
    obtain frame where task: "task = (Some Socket_Receive_Callback, frame)"
      using inv 5 by (cases task) (auto simp: batch_inv_def)
    with 5 inv goes t show ?thesis
      by (auto simp: batch_inv_def settles_def owed_def frame_writes_def receivers_def umap_at_def
          split: option.splits)
  qed (use inv goes t ready in \<open>auto simp: batch_inv_def settles_def owed_def worker_ready_def write_package_def
      queue_length_def split: if_splits\<close>)
qed

lemma batch_step_settles:
  assumes "batch_inv s" and "batch_step h s t"
  shows "batch_inv t \<and> settles s t"
  using assms(2)
proof cases
  case (batch_receive ts us k buf port p ctl)
  from batch_receive_settles [OF assms(1) this(2,3,1)] show ?thesis .
next
  case (batch_work p ctl)
  from batch_work_settles [OF assms(1) this(3,1)] show ?thesis .
qed

lemma batch_steps_settle:
  assumes "(batch_step h)\<^sup>*\<^sup>* s t" and "batch_inv s"
  shows "batch_inv t \<and> settles s t"
  using assms
  by (induction rule: rtranclp_induct) (auto intro: settles_refl dest: batch_step_settles settles_trans)

section \<open>A batch ends\<close>

text \<open>What still has to be done: frames, tasks, the stage of the worker, the clients of a frame.\<close>

fun receive_stage :: "receive_place \<Rightarrow> nat" where
  "receive_stage (Rcv_Frames ts us k buf port) = Suc k"
| "receive_stage _ = 0"

fun worker_stage :: "worker_place \<Rightarrow> nat" where
  "worker_stage Wrk_Dequeue = 1"
| "worker_stage Wrk_Test = 2"
| "worker_stage (Wrk_Write pkg fds) = 3"
| "worker_stage (Wrk_Run task) = 4"
| "worker_stage _ = 0"

fun clients_left :: "worker_place \<Rightarrow> nat" where
  "clients_left (Wrk_Write pkg fds) = length fds"
| "clients_left _ = 0"

definition batch_order :: "('w threads \<times> 'w threads) set" where
  "batch_order = measures
     [\<lambda>s. receive_stage (receive_at s), \<lambda>s. queue_length (shared s),
      \<lambda>s. worker_stage (worker_at s), \<lambda>s. clients_left (worker_at s)]"

lemma receive_stage_decreases:
  assumes "receive_goes h (Rcv_Frames ts us k buf port) ctl = Inr (p, ctl')"
  shows "receive_stage p < Suc k"
proof (cases k)
  case (Suc j)
  with assms show ?thesis by (cases buf) (auto simp: res_simps split: if_splits)
qed (use assms in auto)

lemma batch_step_decreases:
  assumes inv: "batch_inv s" and "batch_step h s t"
  shows "(t, s) \<in> batch_order"
  using assms(2)
proof cases
  case (batch_receive ts us k buf port p ctl)
  then have "receive_goes h (Rcv_Frames ts us k buf port) (shared s) = Inr (p, ctl)" by simp
  from receive_stage_decreases [OF this] batch_receive(1,2) show ?thesis
    by (simp add: batch_order_def)
next
  case (batch_work p ctl)
  let ?r = "can_ipc_receiver (shared s)"
  from inv have ready: "worker_ready ?r" and place: "worker_at s \<noteq> Wrk_Sleep" "worker_at s \<noteq> Wrk_End"
    by (simp_all add: batch_inv_def)
  show ?thesis
  proof (cases "worker_at s")
    case Wrk_Test
    with batch_work ready show ?thesis by (auto simp: batch_order_def worker_ready_def)
  next
    case Wrk_Dequeue
    with batch_work ready show ?thesis
      by (cases "work_queue (work_queue_handle ?r)")
        (auto simp: batch_order_def worker_ready_def dequeue_blocking_def queue_length_def wq_size_def)
  next
    case (Wrk_Run task)
    with batch_work show ?thesis
      by (auto simp: batch_order_def split: prod.splits option.splits rx_callback.splits)
  next
    case (Wrk_Write pkg fds)
    with batch_work show ?thesis
      by (cases fds) (auto simp: batch_order_def write_package_def queue_length_def)
  qed (use place batch_work in simp_all)
qed

lemma batch_terminates:
  assumes "batch_inv (f 0)"
  shows "\<exists>i. \<not> batch_step h (f i) (f (Suc i))"
proof (rule ccontr)
  assume *: "\<not> ?thesis"
  have "batch_inv (f i)" for i
    by (induction i) (use assms * in \<open>auto dest: batch_step_settles\<close>)
  with * have "(f (Suc i), f i) \<in> batch_order" for i
    by (auto intro: batch_step_decreases)
  then show False
    using wf_measures [of "[\<lambda>s. receive_stage (receive_at s), \<lambda>s. queue_length (shared s),
        \<lambda>s. worker_stage (worker_at s), \<lambda>s. clients_left (worker_at s)]"]
    unfolding batch_order_def wf_iff_no_infinite_down_chain by blast
qed

text \<open>Where no step is left everything is paid.\<close>

lemma batch_done:
  assumes inv: "batch_inv s" and last: "\<And>t. \<not> batch_step h s t"
  shows "owed s = []"
proof -
  from inv have ready: "worker_ready (can_ipc_receiver (shared s))" by (simp add: batch_inv_def)
  have "isOK (worker_goes (worker_at s) (shared s))"
    by (rule isOK_worker_goes) (use inv in \<open>simp add: batch_inv_def\<close>)
  then have wait: "worker_at s = Wrk_Wait"
    using last batch_work [of s _ _ h] unfolding isOK_iff by (metis surj_pair)
  have "batch_tasks (can_ipc_receiver (shared s)) (receive_at s) = []"
  proof (cases "receive_at s")
    case (Rcv_Frames ts us k buf port)
    then have "isOK (receive_goes h (receive_at s) (shared s))"
      using inv by (cases k; cases buf) (auto simp: batch_inv_def frame_of_canframe_ok)
    then obtain p ctl where "receive_goes h (receive_at s) (shared s) = Inr (p, ctl)"
      by (auto simp: isOK_iff)
    with last batch_receive [OF Rcv_Frames this] show ?thesis by blast
  qed simp_all
  with wait inv show ?thesis
    by (simp add: owed_def batch_inv_def is_queue_empty_def tasks_owe_def)
qed

text \<open>
  C1. Every subscriber gets every frame, however the receive thread and the worker interleave. In
  every state that the interleaved service with disciplined clients can reach, let no handler be at
  work, the worker wait for a task, no disconnected client be left in the reverse index, and the
  receive thread hold a batch of at most 10000 frames from port 5. Then the two threads come to an
  end with the batch, and whenever they do, the service has written, for each frame in turn and each
  client subscribed to its identifier in ascending order, the package with that frame, and nothing
  else.
\<close>

theorem batch_delivered:
  assumes "reach threads_init (threads_step h disciplined n) s" and "hal_frames_ok h"
    and "\<And>i. i < n \<Longrightarrow> handler_at s i = At_Read"
    and "reverse_ok (socket_client_manager (shared s))"
    and "receive_at s = Rcv_Frames ts us k buf CAN_DEV_PORT_5" and "k \<le> MAX_WORK_QUEUE_TASKS"
    and "worker_at s = Wrk_Wait" and "is_queue_empty (work_queue_handle (can_ipc_receiver (shared s)))"
  shows "(\<forall>f. f 0 = s \<longrightarrow> (\<exists>i. \<not> batch_step h (f i) (f (Suc i)))) \<and>
    (\<forall>t. (batch_step h)\<^sup>*\<^sup>* s t \<longrightarrow> (\<forall>u. \<not> batch_step h t u) \<longrightarrow>
      io_log (shared t) = io_log (shared s) @ concat (map (\<lambda>f.
        map (\<lambda>c. Io_Write c (encode_package (receive_package f)))
          (sorted_list_of_set {c. (c, frame_id f) \<in> subscribed (socket_client_manager (shared s))}))
        (map rx_frame (reached_frames k buf))))"
proof -
  let ?m = "socket_client_manager (shared s)"
  have orderly: "orderly_inv n s" using assms(1) by (rule orderly_threads.reach_inv)
  note idle = orderly_idle [OF orderly assms(3)]
  have "frames_ok (receive_at s)"
    using framed.reach_inv [OF assms(1)] assms(2) by (simp add: framed_inv_def)
  moreover have "callbacks_ok (can_ipc_receiver (shared s))"
    using idle(1) by (simp add: disciplined_inv_def service_inv_def)
  ultimately have inv: "batch_inv s"
    using assms(5-8) idle(2) by (simp add: batch_inv_def queue_length_def is_queue_empty_def wq_size_def)
  have "owed s = concat (map (\<lambda>t. frame_writes ?m (snd t))
      (tasks_for (receiver_filter (can_ipc_receiver (shared s)) Slot_5) (map rx_frame (reached_frames k buf))))"
    using assms(5,7,8) by (simp add: owed_def tasks_owe_def is_queue_empty_def)
  then have owed: "owed s = concat (map (expected_writes (subscribed ?m)) (map rx_frame (reached_frames k buf)))"
    by (rule trans) (rule tasks_write_expected [OF idle(1) assms(4)])
  have "\<exists>i. \<not> batch_step h (f i) (f (Suc i))" if "f 0 = s" for f
    using batch_terminates [of f] inv that by simp
  moreover have "io_log (shared t) = io_log (shared s) @ owed s"
    if "(batch_step h)\<^sup>*\<^sup>* s t" "\<forall>u. \<not> batch_step h t u" for t
    using batch_steps_settle [OF that(1) inv] batch_done [of t h] that(2) by (simp add: settles_def)
  ultimately show ?thesis unfolding owed expected_writes_def by blast
qed

section \<open>A batch in a reachable state\<close>

text \<open>A handler that runs to its next read, whoever it wakes.\<close>

lemma wake_idem [simp]:
  "wake_receiver (wake_receiver p) = wake_receiver p" "wake_worker (wake_worker q) = wake_worker q"
  by (cases p; simp) (cases q; simp)

lemma reach_handler_wakes:
  assumes "reach threads_init (threads_step h allowed n) s" and "i < n"
    and "run_thread (handler_goes (int i)) k (handler_at s i, shared s) = Inr (p, ctl)"
  shows "\<exists>rp wp. rp \<in> {receive_at s, wake_receiver (receive_at s)} \<and>
    wp \<in> {worker_at s, wake_worker (worker_at s)} \<and>
    reach threads_init (threads_step h allowed n)
      (s\<lparr>shared := ctl, handler_at := (handler_at s)(i := p), receive_at := rp, worker_at := wp\<rparr>)"
  using assms
proof (induction k arbitrary: s)
  case 0
  then have "handler_at s i = p" "shared s = ctl" by simp_all
  then have "s\<lparr>shared := ctl, handler_at := (handler_at s)(i := p), receive_at := receive_at s,
      worker_at := worker_at s\<rparr> = s"
    by (cases s) auto
  with 0(1) show ?case by (metis insertI1)
next
  case (Suc k)
  from Suc.prems(3) obtain q ctl1 where go: "handler_goes (int i) (handler_at s i) (shared s) = Inr (q, ctl1)"
    and run: "run_thread (handler_goes (int i)) k (q, ctl1) = Inr (p, ctl)"
    by (auto simp: res_simps)
  show ?case
  proof (cases "handler_at s i = At_Read")
    case True
    with go have "q = At_Read" "ctl1 = shared s" by simp_all
    with Suc.IH [OF Suc.prems(1,2)] run True show ?thesis by simp
  next
    case False
    define rp where "rp = (if handler_at s i = At_Notify_Receiver then wake_receiver (receive_at s)
      else receive_at s)"
    define wp where "wp = (if handler_at s i = At_Notify_Worker then wake_worker (worker_at s)
      else worker_at s)"
    note reach = reach_step [OF Suc.prems(1) threads_step.handler [OF Suc.prems(2) False go],
        folded rp_def wp_def]
    have wakes: "rp \<in> {receive_at s, wake_receiver (receive_at s)}" "wp \<in> {worker_at s, wake_worker (worker_at s)}"
      by (simp_all add: rp_def wp_def)
    let ?t = "s\<lparr>shared := ctl1, handler_at := (handler_at s)(i := q), receive_at := rp, worker_at := wp\<rparr>"
    have "run_thread (handler_goes (int i)) k (handler_at ?t i, shared ?t) = Inr (p, ctl)"
      using run by simp
    from Suc.IH [OF reach Suc.prems(2) this] obtain rp' wp'
      where wakes': "rp' \<in> {receive_at ?t, wake_receiver (receive_at ?t)}"
          "wp' \<in> {worker_at ?t, wake_worker (worker_at ?t)}"
        and reach': "reach threads_init (threads_step h allowed n)
          (?t\<lparr>shared := ctl, handler_at := (handler_at ?t)(i := p), receive_at := rp', worker_at := wp'\<rparr>)"
      by blast
    have eq: "?t\<lparr>shared := ctl, handler_at := (handler_at ?t)(i := p), receive_at := rp', worker_at := wp'\<rparr> =
        s\<lparr>shared := ctl, handler_at := (handler_at s)(i := p), receive_at := rp', worker_at := wp'\<rparr>"
      by (cases s) simp
    have "rp' \<in> {receive_at s, wake_receiver (receive_at s)}" "wp' \<in> {worker_at s, wake_worker (worker_at s)}"
      using wakes wakes' by auto
    with reach' [unfolded eq] show ?thesis by blast
  qed
qed

text \<open>The steps of one thread, from a reachable state, while the others rest.\<close>

lemma reach_handler_runs:
  assumes "reach threads_init (threads_step h allowed n) s" and "i < n"
    and rests: "wake_receiver (receive_at s) = receive_at s" "wake_worker (worker_at s) = worker_at s"
    and "run_thread (handler_goes (int i)) k (handler_at s i, shared s) = Inr (p, ctl)"
  shows "reach threads_init (threads_step h allowed n) (s\<lparr>shared := ctl, handler_at := (handler_at s)(i := p)\<rparr>)"
proof -
  have "s\<lparr>shared := ctl, handler_at := (handler_at s)(i := p), receive_at := receive_at s,
      worker_at := worker_at s\<rparr> = s\<lparr>shared := ctl, handler_at := (handler_at s)(i := p)\<rparr>"
    by (cases s) simp
  with reach_handler_wakes [OF assms(1,2,5)] rests show ?thesis by auto
qed

lemma reach_receiver_runs:
  assumes "reach threads_init (threads_step h allowed n) s" and "notify_queue (worker_at s) = worker_at s"
    and "run_thread (receive_goes h) k (receive_at s, shared s) = Inr (p, ctl)"
  shows "reach threads_init (threads_step h allowed n) (s\<lparr>shared := ctl, receive_at := p\<rparr>)"
  using assms
proof (induction k arbitrary: s)
  case (Suc k)
  from Suc.prems(3) obtain q ctl1 where go: "receive_goes h (receive_at s) (shared s) = Inr (q, ctl1)"
    and run: "run_thread (receive_goes h) k (q, ctl1) = Inr (p, ctl)"
    by (auto simp: res_simps)
  let ?t = "s\<lparr>shared := ctl1, receive_at := q\<rparr>"
  have "reach threads_init (threads_step h allowed n) ?t"
  proof -
    have "s\<lparr>shared := ctl1, receive_at := q, worker_at := (if queue_length (shared s) < queue_length ctl1
        then notify_queue (worker_at s) else worker_at s)\<rparr> = ?t"
      using Suc.prems(2) by (cases s) simp
    with reach_step [OF Suc.prems(1) threads_step.receiver [OF go]] show ?thesis by simp
  qed
  from Suc.IH [OF this] Suc.prems(2) run show ?case by simp
qed (cases s, auto)

lemma reach_worker_runs:
  assumes "reach threads_init (threads_step h allowed n) s"
    and "run_thread worker_goes k (worker_at s, shared s) = Inr (p, ctl)"
  shows "reach threads_init (threads_step h allowed n) (s\<lparr>shared := ctl, worker_at := p\<rparr>)"
  using assms
proof (induction k arbitrary: s)
  case (Suc k)
  from Suc.prems(2) obtain q ctl1 where go: "worker_goes (worker_at s) (shared s) = Inr (q, ctl1)"
    and run: "run_thread worker_goes k (q, ctl1) = Inr (p, ctl)"
    by (auto simp: res_simps)
  from reach_step [OF Suc.prems(1) threads_step.worker [OF go]] Suc.IH [of "s\<lparr>shared := ctl1, worker_at := q\<rparr>"] run
  show ?case by simp
qed (cases s, auto)

text \<open>A service with one client, which has sent nothing yet.\<close>

definition connected :: "'w \<Rightarrow> 'w controller" where
  "connected w = accept_connections [Accepted 7] (started w)"

lemma connected_sel:
  "ctl_is_running (connected w)" "client_threads (connected w) = [7]"
  "socket_client_manager (connected w) = socket_client_manager (started w)"
  "can_ipc_receiver (connected w) = can_ipc_receiver (started w)"
  using service_init_no_clients [OF service_init_started [of w]]
  by (simp_all add: connected_def started_sel)

lemma step_connected:
  "threads_step h allowed 8 (threads_start (started w)) (threads_start (connected w))"
proof -
  let ?s0 = "threads_start (started w)"
  have no: "client_threads (started w) = []"
    by (rule service_init_no_clients) (rule service_init_started)
  have sh: "shared ?s0 = started w" by (simp add: threads_start_def)
  have "threads_step h allowed 8 ?s0 (?s0\<lparr>shared := accept_connections [Accepted (int 7)] (shared ?s0)\<rparr>)"
    by (rule threads_step.connects) (simp_all only: sh no started_sel(1) list.set, simp_all)
  moreover have "?s0\<lparr>shared := accept_connections [Accepted (int 7)] (shared ?s0)\<rparr> = threads_start (connected w)"
    by (simp add: threads_start_def connected_def del: accept_connections.simps)
  ultimately show ?thesis by simp
qed

lemma reach_connected:
  "reach threads_init (threads_step h allowed 8) (threads_start (connected w))"
  by (rule reach_step [OF reach_threads_started step_connected])

text \<open>The service of \<open>serving\<close>: client 7 has subscribed to identifier 2.\<close>

lemma reach_serving_threads:
  "reach threads_init (threads_step h disciplined 8) (threads_start (serving w))"
proof -
  let ?p = "filter_package SOCKET_ORDER_AS_ADD_FILTER [2]"
  let ?ctl = "accept_connections [Accepted 7] (started w)"
  note conn = reach_connected [of h disciplined w, unfolded connected_def]
  have orderly: "disciplined 7 ?p ?ctl"
    using empty_controller_ok(3) [of w]
    by (simp add: disciplined_def filter_package_ids started_sel)
  have handled: "handle_package h 7 ?p ?ctl = Inr (serving w)"
    by (simp add: serving_def Let_def handle_orders wf_filter_package filter_package_ids)
  from handler_runs [of h ?p ?ctl 7] handled
  obtain q ctl where begins: "handler_begins h ?p ?ctl = Inr (q, ctl)"
    and run: "run_thread (handler_goes 7) 8 (q, ctl) = Inr (At_Read, serving w)"
    by (auto simp: res_simps)
  let ?s = "threads_start ?ctl"
  have sh: "shared ?s = ?ctl" and at: "handler_at ?s 7 = At_Read" by (simp_all add: threads_start_def)
  have mem: "int 7 \<in> set (client_threads ?ctl)" by (simp add: started_sel)
  have "threads_step h disciplined 8 ?s (?s\<lparr>shared := ctl, handler_at := (handler_at ?s)(7 := q)\<rparr>)"
    by (rule threads_step.package [where pkg = ?p], unfold sh)
      (use mem at orderly begins in \<open>simp_all add: wf_filter_package del: accept_connections.simps\<close>)
  from reach_handler_runs [OF reach_step [OF conn this], of 7 8 At_Read "serving w"] run
  show ?thesis by (simp add: threads_start_def fun_upd_idem)
qed

lemma serving_receiver:
  "layer_inv (can_ipc_receiver (serving w))"
  "is_received_port (can_ipc_receiver (serving w)) Slot_5"
  "port_instance (can_ipc_receiver (serving w)) Slot_5 = lib_set_can_ipc_handle CAN_PORT_5"
  "flags (can_ipc_receiver (serving w)) = (True, True, False, False)"
proof -
  have "threads_inv 8 (threads_start (serving w))"
    by (rule threads.reach_inv [OF reach_serving_threads])
  then show "layer_inv (can_ipc_receiver (serving w))"
    by (simp add: threads_inv_def threads_start_def service_inv_def)
qed (simp_all add: serving_def Let_def started_sel lib_control receiver_control registered_receiver_def
    set_table_def flags_def)

text \<open>Frames with the identifiers 2 and 256, the second of which nobody has subscribed to.\<close>

definition two_frames :: "canframe list" where
  "two_frames = [(sample_canframe 8)\<lparr>canid := 2\<rparr>, sample_canframe 12]"

definition two_buffer :: "canframe list" where
  "two_buffer = two_frames @ replicate 198 (zero_canframe (replay_hal two_frames))"

lemma two_frames_ok: "hal_frames_ok (replay_hal two_frames)"
  by (rule replay_hal_ok) (simp add: two_frames_def frame_in_bounds_def sample_canframe_def CANFD_MAX_DLEN_def)

lemma receive_two_frames:
  "receive_frames (replay_hal two_frames) t w = (Some (2, two_buffer), w)"
  by (simp add: receive_frames_def replay_hal_def recording_hal_def SINGLE_RX_BUF_SIZE_def two_frames_def
      two_buffer_def)

definition batch_at_hand :: "(string \<times> canframe) list threads" where
  "batch_at_hand =
     (let ctl = serving []; ts = map (\<lambda>s. (s, port_target (can_ipc_receiver ctl) s)) all_slots
      in \<lparr>shared = ctl\<lparr>hal_world := hal_world ctl\<rparr>, handler_at = (\<lambda>_. At_Read),
          receive_at = Rcv_Frames ts (tl ts) 2 two_buffer CAN_DEV_PORT_5, worker_at = Wrk_Wait\<rparr>)"

lemma reach_batch_at_hand:
  "reach threads_init (threads_step (replay_hal two_frames) disciplined 8) batch_at_hand"
proof -
  let ?h = "replay_hal two_frames" and ?ctl = "serving ([] :: (string \<times> canframe) list)"
  let ?r = "can_ipc_receiver ?ctl"
  let ?ts = "map (\<lambda>s. (s, port_target ?r s)) all_slots"
  have port: "dev_port_of_raw (can_port_index (port_target ?r Slot_5)) = CAN_DEV_PORT_5"
    by (simp add: port_target_def serving_receiver(3) dev_port_u8_roundtrip)
  have three: "3 = Suc (Suc (Suc 0))" by simp
  have "run_thread (receive_goes ?h) 3 (Rcv_Start, ?ctl) =
      Inr (Rcv_Frames ?ts (tl ?ts) 2 two_buffer CAN_DEV_PORT_5, ?ctl\<lparr>hal_world := hal_world ?ctl\<rparr>)"
    using serving_receiver(2,4) [of "[] :: (string \<times> canframe) list"] port
    unfolding three
    by (simp add: targets_eq [OF serving_receiver(1)] flags_def all_slots_def receive_two_frames)
  with reach_receiver_runs [OF reach_serving_threads [of ?h "[]"], of 3]
  have *: "reach threads_init (threads_step ?h disciplined 8)
      (batch_at_hand\<lparr>worker_at := Wrk_Test\<rparr>)"
    by (simp add: threads_start_def batch_at_hand_def Let_def)
  have two: "2 = Suc (Suc 0)" by simp
  have "run_thread worker_goes 2 (Wrk_Test, shared batch_at_hand) = Inr (Wrk_Wait, shared batch_at_hand)"
    using serving_sel(3,4) [of "[] :: (string \<times> canframe) list"] unfolding two
    by (simp add: batch_at_hand_def Let_def worker_ready_def dequeue_blocking_def on_receiver_def)
  with reach_worker_runs [OF *, of 2 Wrk_Wait "shared batch_at_hand"] show ?thesis
    by (simp add: batch_at_hand_def Let_def)
qed

theorem batch_delivered_witness:
  "\<exists>t. (batch_step (replay_hal two_frames))\<^sup>*\<^sup>* batch_at_hand t \<and>
     io_log (shared t) = io_log (shared batch_at_hand) @
       [Io_Write 7 (encode_package (receive_package (rx_frame ((sample_canframe 8)\<lparr>canid := 2\<rparr>))))]"
proof -
  have frames: "reached_frames 2 two_buffer = two_frames"
    by (simp add: reached_frames_def two_buffer_def two_frames_def sample_canframe_def)
  have ids: "frame_id (rx_frame ((sample_canframe 8)\<lparr>canid := 2\<rparr>)) = 2"
    "frame_id (rx_frame (sample_canframe 12)) = 0x100"
    by (simp_all add: rx_frame_def sample_canframe_def)
  have sel: "socket_client_manager (shared batch_at_hand) = socket_client_manager (serving ([] :: (string \<times> canframe) list))"
    "can_ipc_receiver (shared batch_at_hand) = can_ipc_receiver (serving ([] :: (string \<times> canframe) list))"
    "handler_at batch_at_hand i = At_Read" "worker_at batch_at_hand = Wrk_Wait" for i
    by (simp_all add: batch_at_hand_def Let_def)
  obtain ts us where at: "receive_at batch_at_hand = Rcv_Frames ts us 2 two_buffer CAN_DEV_PORT_5"
    by (simp add: batch_at_hand_def Let_def)
  have empty: "is_queue_empty (work_queue_handle (can_ipc_receiver (shared batch_at_hand)))"
    by (simp add: sel is_queue_empty_def serving_sel)
  have rev: "reverse_ok (socket_client_manager (shared batch_at_hand))"
    by (simp add: sel serving_sel)
  have "2 \<le> MAX_WORK_QUEUE_TASKS" by (simp add: MAX_WORK_QUEUE_TASKS_def)
  note delivered = batch_delivered [OF reach_batch_at_hand two_frames_ok sel(3) rev at this sel(4) empty]
  from last_state [OF conjunct1 [OF delivered]] conjunct2 [OF delivered] show ?thesis
    unfolding frames by (auto simp: sel serving_sel two_frames_def ids)
qed

end
