(* ===== verification/Service_Threads_Pause.thy ===== *)
theory Service_Threads_Pause
  imports Service_Threads_Delivery
begin

text \<open>
  The interleaved service follows \<open>Pause_Protocol\<close> twice over: each of its steps is a step of the
  protocol for the receive thread, and of the protocol for the worker, or is not seen by it. What
  holds of the protocol therefore holds of the service; together with the flags it gives that no
  sleeper is forgotten, what a pause keeps out, and what it does not.
\<close>

section \<open>Both pauses follow the protocol\<close>

definition run_inv :: "nat \<Rightarrow> 'w threads \<Rightarrow> bool" where
  "run_inv n s \<longleftrightarrow> threads_inv n s \<and> flags_inv n s"

lemma run_inv_init:
  assumes "threads_init s"
  shows "run_inv n s"
  using orderly_inv_init [OF assms] by (simp add: run_inv_def orderly_inv_def)

lemma run_inv_step: "run_inv n s \<Longrightarrow> threads_step h allowed n s t \<Longrightarrow> run_inv n t"
  by (auto simp: run_inv_def intro: threads_inv_step flags_inv_step)

text \<open>What of the interleaved service the protocol sees, for each of the two threads.\<close>

fun receive_phase :: "receive_place \<Rightarrow> receiver_pc" where
  "receive_phase (Rcv_Sleep ts) = R_Sleep"
| "receive_phase (Rcv_Ports ts us) = R_Pass"
| "receive_phase (Rcv_Frames ts us k buf port) = R_Pass"
| "receive_phase _ = R_Test"

fun worker_phase :: "worker_place \<Rightarrow> receiver_pc" where
  "worker_phase Wrk_Sleep = R_Sleep"
| "worker_phase Wrk_Test = R_Test"
| "worker_phase Wrk_End = R_Test"
| "worker_phase _ = R_Pass"

definition receive_role :: "handler_place \<Rightarrow> handler_pc" where
  "receive_role p =
     (if p = At_Notify_Receiver then H_Notify else if pauses_receiver p then H_Change else H_Read)"

definition worker_role :: "handler_place \<Rightarrow> handler_pc" where
  "worker_role p =
     (if p = At_Notify_Worker then H_Notify else if pauses_worker p then H_Change else H_Read)"

definition receive_view :: "'w threads \<Rightarrow> pause_sys" where
  "receive_view s =
     \<lparr>task_paused = receive_ipc_can_task_paused (can_ipc_receiver (shared s)),
      receiver_at = receive_phase (receive_at s), handlers = receive_role \<circ> handler_at s\<rparr>"

definition worker_view :: "'w threads \<Rightarrow> pause_sys" where
  "worker_view s =
     \<lparr>task_paused = work_task_queue_paused (can_ipc_receiver (shared s)),
      receiver_at = worker_phase (worker_at s), handlers = worker_role \<circ> handler_at s\<rparr>"

lemma view_sel [simp]:
  "task_paused (receive_view s) = receive_ipc_can_task_paused (can_ipc_receiver (shared s))"
  "receiver_at (receive_view s) = receive_phase (receive_at s)"
  "handlers (receive_view s) i = receive_role (handler_at s i)"
  "task_paused (worker_view s) = work_task_queue_paused (can_ipc_receiver (shared s))"
  "receiver_at (worker_view s) = worker_phase (worker_at s)"
  "handlers (worker_view s) i = worker_role (handler_at s i)"
  by (simp_all add: receive_view_def worker_view_def)

lemma pause_sys_eqI:
  fixes s t :: pause_sys
  assumes "task_paused s = task_paused t" and "receiver_at s = receiver_at t"
    and "\<And>i. handlers s i = handlers t i"
  shows "s = t"
  using assms by (cases s; cases t) (simp add: fun_eq_iff)

lemma phase_wake [simp]:
  "receive_phase (wake_receiver p) = (if receive_phase p = R_Sleep then R_Test else receive_phase p)"
  "worker_phase (wake_worker q) = (if worker_phase q = R_Sleep then R_Test else worker_phase q)"
  "worker_phase (notify_queue q) = worker_phase q"
  by (cases p; simp) (cases q; simp)+

text \<open>The steps of the threads themselves.\<close>

lemma receive_phase_goes:
  assumes "receive_goes h p ctl = Inr (p', ctl')" and "receive_ipc_can_task_running (can_ipc_receiver ctl)"
  shows "receive_phase p' = receive_phase p \<or>
    receive_phase p = R_Test \<and>
      receive_phase p' = (if receive_ipc_can_task_paused (can_ipc_receiver ctl) then R_Sleep else R_Pass) \<or>
    receive_phase p = R_Pass \<and> receive_phase p' = R_Test"
  using assms
  by (cases "(h, p, ctl)" rule: receive_goes.cases)
    (auto simp: res_simps split: if_splits prod.splits option.splits)

lemma worker_phase_goes:
  assumes "worker_goes p ctl = Inr (p', ctl')" and "work_task_queue_running (can_ipc_receiver ctl)"
  shows "worker_phase p' = worker_phase p \<or>
    worker_phase p = R_Test \<and>
      worker_phase p' = (if work_task_queue_paused (can_ipc_receiver ctl) then R_Sleep else R_Pass) \<or>
    worker_phase p = R_Pass \<and> worker_phase p' = R_Test"
  using assms
  by (cases "(p, ctl)" rule: worker_goes.cases)
    (auto split: if_splits prod.splits option.splits rx_callback.splits deq_result.splits)

lemma flags_receive_goes: "receive_goes h p ctl = Inr (p', ctl') \<Longrightarrow>
    flags (can_ipc_receiver ctl') = flags (can_ipc_receiver ctl)"
  by (erule receive_goes_cases) simp_all

lemma flags_worker_goes: "worker_goes p ctl = Inr (p', ctl') \<Longrightarrow>
    flags (can_ipc_receiver ctl') = flags (can_ipc_receiver ctl)"
  by (erule worker_goes_cases) (simp_all add: flags_def write_package_def)

lemma pause_thread_step:
  fixes s t :: pause_sys
  assumes "task_paused t = task_paused s" and "handlers t = handlers s"
    and "receiver_at t = receiver_at s \<or>
      receiver_at s = R_Test \<and> receiver_at t = (if task_paused s then R_Sleep else R_Pass) \<or>
      receiver_at s = R_Pass \<and> receiver_at t = R_Test"
  shows "pause_step n s t \<or> t = s"
proof -
  have t: "t = s\<lparr>receiver_at := receiver_at t\<rparr>" using assms(1,2) by (cases s; cases t) simp
  from assms(3) show ?thesis
  proof (elim disjE conjE)
    assume "receiver_at t = receiver_at s"
    with t show ?thesis by (cases s) simp
  next
    assume "receiver_at s = R_Test" "receiver_at t = (if task_paused s then R_Sleep else R_Pass)"
    with t receiver_tests [of s n] show ?thesis by (simp del: if_split)
  next
    assume "receiver_at s = R_Pass" "receiver_at t = R_Test"
    with t receiver_done [of s n] show ?thesis by simp
  qed
qed

lemma pause_handler_step:
  fixes s t :: pause_sys
  assumes "k < n" and h: "handlers t = (handlers s)(k := r)"
    and "r = handlers s k \<and> task_paused t = task_paused s \<and> receiver_at t = receiver_at s \<or>
      handlers s k = H_Read \<and> r = H_Change \<and> task_paused t \<and> receiver_at t = receiver_at s \<or>
      handlers s k = H_Change \<and> r = H_Notify \<and> \<not> task_paused t \<and> receiver_at t = receiver_at s \<or>
      handlers s k = H_Notify \<and> r = H_Read \<and> task_paused t = task_paused s \<and>
        receiver_at t = (if receiver_at s = R_Sleep then R_Test else receiver_at s)"
  shows "pause_step n s t \<or> t = s"
  using assms(3)
proof (elim disjE conjE)
  assume "r = handlers s k" "task_paused t = task_paused s" "receiver_at t = receiver_at s"
  with h have "t = s" by (intro pause_sys_eqI) simp_all
  then show ?thesis ..
next
  assume *: "handlers s k = H_Read" "r = H_Change" "task_paused t" "receiver_at t = receiver_at s"
  with h have "t = s\<lparr>task_paused := True, handlers := (handlers s)(k := H_Change)\<rparr>"
    by (intro pause_sys_eqI) simp_all
  with handler_pauses [OF assms(1) *(1)] show ?thesis by simp
next
  assume *: "handlers s k = H_Change" "r = H_Notify" "\<not> task_paused t" "receiver_at t = receiver_at s"
  with h have "t = s\<lparr>task_paused := False, handlers := (handlers s)(k := H_Notify)\<rparr>"
    by (intro pause_sys_eqI) simp_all
  with handler_resumes [OF assms(1) *(1)] show ?thesis by simp
next
  assume *: "handlers s k = H_Notify" "r = H_Read" "task_paused t = task_paused s"
    "receiver_at t = (if receiver_at s = R_Sleep then R_Test else receiver_at s)"
  with h have "t = s\<lparr>receiver_at := (if receiver_at s = R_Sleep then R_Test else receiver_at s),
      handlers := (handlers s)(k := H_Read)\<rparr>"
    by (intro pause_sys_eqI) (simp_all del: if_split)
  with handler_notifies [OF assms(1) *(1)] show ?thesis by simp
qed

lemma pause_spurious_step:
  fixes s t :: pause_sys
  assumes "task_paused t = task_paused s" and "handlers t = handlers s"
    and "receiver_at t = (if receiver_at s = R_Sleep then R_Test else receiver_at s)"
  shows "pause_step n s t \<or> t = s"
proof (cases "receiver_at s = R_Sleep")
  case True
  with assms have "t = s\<lparr>receiver_at := R_Test\<rparr>" by (intro pause_sys_eqI) simp_all
  with receiver_spurious [OF True] show ?thesis by simp
next
  case False
  with assms have "t = s" by (intro pause_sys_eqI) simp_all
  then show ?thesis ..
qed

lemma role_next:
  "receive_role (handler_next p) =
     (if p = At_Resume_Receiver then H_Notify else if p = At_Notify_Receiver then H_Read
      else receive_role p)"
  "p = At_Resume_Receiver \<Longrightarrow> receive_role p = H_Change"
  "p = At_Notify_Receiver \<Longrightarrow> receive_role p = H_Notify"
  "worker_role (handler_next p) =
     (if p = At_Resume_Worker then H_Notify else if p = At_Notify_Worker then H_Read
      else if \<exists>pkg. p = At_Pause_Worker pkg then H_Change else worker_role p)"
  "p = At_Resume_Worker \<Longrightarrow> worker_role p = H_Change"
  "p = At_Notify_Worker \<Longrightarrow> worker_role p = H_Notify"
  "p = At_Pause_Worker pkg \<Longrightarrow> worker_role p = H_Read"
  by (cases p; simp add: receive_role_def worker_role_def)+

lemma role_Read [simp]: "receive_role At_Read = H_Read" "worker_role At_Read = H_Read"
  "receive_role (At_Pause_Worker pkg) = H_Change" "worker_role (At_Pause_Worker pkg) = H_Read"
  by (simp_all add: receive_role_def worker_role_def)

lemma stop_shared: "can_ipc_receiver (stop ctl) = can_ipc_receiver ctl"
  by (simp add: stop_def Let_def)

lemma view_handlers:
  "handler_at t = (handler_at s)(k := p) \<Longrightarrow>
     handlers (receive_view t) = (handlers (receive_view s))(k := receive_role p)"
  "handler_at t = (handler_at s)(k := p) \<Longrightarrow>
     handlers (worker_view t) = (handlers (worker_view s))(k := worker_role p)"
  "handler_at t = handler_at s \<Longrightarrow> handlers (receive_view t) = handlers (receive_view s)"
  "handler_at t = handler_at s \<Longrightarrow> handlers (worker_view t) = handlers (worker_view s)"
  by (simp_all add: fun_eq_iff)

text \<open>Each step of the service is a step of both protocols, or not seen by one.\<close>

lemma views_step:
  assumes inv: "run_inv n s" and "threads_step h allowed n s t"
  shows "(pause_step n (receive_view s) (receive_view t) \<or> receive_view t = receive_view s) \<and>
    (pause_step n (worker_view s) (worker_view t) \<or> worker_view t = worker_view s)"
proof -
  from inv have tinv: "threads_inv n s" and run: "receive_ipc_can_task_running (can_ipc_receiver (shared s))"
    "work_task_queue_running (can_ipc_receiver (shared s))"
    by (simp_all add: run_inv_def flags_inv_def)
  have same: "receive_view t = receive_view s \<and> worker_view t = worker_view s"
    if "can_ipc_receiver (shared t) = can_ipc_receiver (shared s)" "handler_at t = handler_at s"
      "receive_at t = receive_at s" "worker_at t = worker_at s" for t
    using that by (simp add: receive_view_def worker_view_def)
  from assms(2) show ?thesis
  proof cases
    case (package i pkg p ctl)
    from package(7) show ?thesis
    proof (cases rule: handler_begins_cases)
      case (other w)
      with package(1,4) show ?thesis
        by (intro conjI disjI2 conjunct1 [OF same] conjunct2 [OF same]) (simp_all add: fun_upd_idem)
    next
      case pause
      have h: "handler_at t = (handler_at s)(i := p)" using package(1) by simp
      have "pause_step n (receive_view s) (receive_view t) \<or> receive_view t = receive_view s"
        by (rule pause_handler_step [OF package(2) view_handlers(1) [OF h]])
          (use pause package(1,4) in \<open>simp add: receiver_control\<close>)
      moreover have "pause_step n (worker_view s) (worker_view t) \<or> worker_view t = worker_view s"
        by (rule pause_handler_step [OF package(2) view_handlers(2) [OF h]])
          (use pause package(1,4) in \<open>simp add: receiver_control\<close>)
      ultimately show ?thesis ..
    qed
  next
    case (handler i p ctl)
    let ?p = "handler_at s i"
    from handler_goes_Inr [OF handler(4) threads_invD(2) [OF tinv]]
    have p: "p = handler_next ?p" and ctl: "ctl = handler_effect (int i) ?p (shared s)" by simp_all
    have h: "handler_at t = (handler_at s)(i := p)" using handler(1) by simp
    have "pause_step n (receive_view s) (receive_view t) \<or> receive_view t = receive_view s"
      by (rule pause_handler_step [OF handler(2) view_handlers(1) [OF h]])
        (use handler(1,3) role_next(1-3) [of ?p] in \<open>simp add: p ctl flags_effect\<close>)
    moreover have "pause_step n (worker_view s) (worker_view t) \<or> worker_view t = worker_view s"
      by (rule pause_handler_step [OF handler(2) view_handlers(2) [OF h]])
        (use handler(1,3) role_next(4-7) [of ?p] in \<open>auto simp: p ctl flags_effect\<close>)
    ultimately show ?thesis ..
  next
    case (receiver p ctl)
    have h: "handler_at t = handler_at s" using receiver(1) by simp
    have "pause_step n (receive_view s) (receive_view t) \<or> receive_view t = receive_view s"
      by (rule pause_thread_step [OF _ view_handlers(3) [OF h]])
        (use receiver(1) receive_phase_goes [OF receiver(2) run(1)] flags_receive_goes [OF receiver(2)]
         in \<open>simp_all add: flags_def\<close>)
    moreover have "worker_view t = worker_view s"
      by (rule pause_sys_eqI) (use receiver(1) flags_receive_goes [OF receiver(2)] in \<open>simp_all add: flags_def\<close>)
    ultimately show ?thesis by simp
  next
    case (worker p ctl)
    have h: "handler_at t = handler_at s" using worker(1) by simp
    have "pause_step n (worker_view s) (worker_view t) \<or> worker_view t = worker_view s"
      by (rule pause_thread_step [OF _ view_handlers(4) [OF h]])
        (use worker(1) worker_phase_goes [OF worker(2) run(2)] flags_worker_goes [OF worker(2)]
         in \<open>simp_all add: flags_def\<close>)
    moreover have "receive_view t = receive_view s"
      by (rule pause_sys_eqI) (use worker(1) flags_worker_goes [OF worker(2)] in \<open>simp_all add: flags_def\<close>)
    ultimately show ?thesis by simp
  next
    case spurious_receiver
    have "pause_step n (receive_view s) (receive_view t) \<or> receive_view t = receive_view s"
      by (rule pause_spurious_step) (use spurious_receiver in \<open>simp_all add: fun_eq_iff\<close>)
    moreover have "worker_view t = worker_view s"
      by (rule pause_sys_eqI) (use spurious_receiver in simp_all)
    ultimately show ?thesis by simp
  next
    case spurious_worker
    have "pause_step n (worker_view s) (worker_view t) \<or> worker_view t = worker_view s"
      by (rule pause_spurious_step) (use spurious_worker in \<open>simp_all add: fun_eq_iff\<close>)
    moreover have "receive_view t = receive_view s"
      by (rule pause_sys_eqI) (use spurious_worker in simp_all)
    ultimately show ?thesis by simp
  qed (use same [of t] in \<open>simp_all add: hang_up_def stop_shared\<close>)
qed

lemma views_init:
  assumes "threads_init s"
  shows "pause_init (receive_view s)" and "pause_init (worker_view s)"
proof -
  from assms obtain ctl where s: "s = threads_start ctl" and ctl: "service_init ctl"
    by (auto simp: threads_init_def)
  from ctl obtain sys w where "start_controller sys [] (empty_controller w) = (True, ctl)"
    by (auto simp: service_init_def)
  from start_controller_success(2) [OF this] show "pause_init (receive_view s)" "pause_init (worker_view s)"
    by (simp_all add: pause_init_def pause_start_def receive_view_def worker_view_def s threads_start_def
        lib_control receiver_control fun_eq_iff)
qed

interpretation receive_pause: simulation threads_init "threads_step h allowed n" "run_inv n"
    pause_init "pause_step n" receive_view for h allowed n
  by unfold_locales (auto intro: run_inv_init run_inv_step views_init dest: views_step)

interpretation worker_pause: simulation threads_init "threads_step h allowed n" "run_inv n"
    pause_init "pause_step n" worker_view for h allowed n
  by unfold_locales (auto intro: run_inv_init run_inv_step views_init dest: views_step)

section \<open>Nobody sleeps for good\<close>

text \<open>The worker waits for a task only while there is none.\<close>

definition wait_ok :: "'w threads \<Rightarrow> bool" where
  "wait_ok s \<longleftrightarrow> (worker_at s = Wrk_Wait \<longrightarrow> queue_length (shared s) = 0)"

lemma queue_length_effect [simp]: "queue_length (handler_effect c p ctl) = queue_length ctl"
  by (cases p) (simp_all add: queue_length_def write_package_def ordered_receiver_def
      registered_receiver_def deregistered_receiver_def set_table_def)

lemma wake_wait [simp]:
  "wake_worker p = Wrk_Wait \<longleftrightarrow> p = Wrk_Wait" "notify_queue p \<noteq> Wrk_Wait"
  by (cases p; simp)+

lemma queue_length_frame [simp]:
  "queue_length (hang_up c ctl) = queue_length ctl"
  "queue_length (ctl\<lparr>client_threads := cs\<rparr>) = queue_length ctl"
  "queue_length (ctl\<lparr>hal_world := w\<rparr>) = queue_length ctl"
  "queue_length (stop ctl) = queue_length ctl"
  "queue_length (io es ctl) = queue_length ctl"
  "queue_length (on_receiver pause_receive_ipc_can_task ctl) = queue_length ctl"
  by (simp_all add: queue_length_def hang_up_def stop_shared)

lemma wait_ok_step:
  assumes inv: "wait_ok s" and "threads_inv n s" and "threads_step h allowed n s t"
  shows "wait_ok t"
  using assms(3)
proof cases
  case (connects i)
  then show ?thesis using inv by (simp add: wait_ok_def queue_length_def)
next
  case (package i pkg p ctl)
  from package(7) show ?thesis
    by (cases rule: handler_begins_cases) (use package(1) inv in \<open>simp_all add: wait_ok_def\<close>)
next
  case (handler i p ctl)
  from handler_goes_Inr [OF handler(4) threads_invD(2) [OF assms(2)]] handler(1) inv
  show ?thesis by (auto simp: wait_ok_def split: if_splits)
next
  case (receiver p ctl)
  then show ?thesis using inv by (auto simp: wait_ok_def split: if_splits)
next
  case (worker p ctl)
  then show ?thesis
    using inv
    by (cases "(worker_at s, shared s)" rule: worker_goes.cases)
      (auto simp: wait_ok_def queue_length_def wq_size_def dequeue_blocking_def
        split: if_splits prod.splits option.splits rx_callback.splits list.splits deq_result.splits)
qed (use inv in \<open>auto simp: wait_ok_def\<close>)

lemma wait_ok_init: "threads_init s \<Longrightarrow> wait_ok s"
  by (auto simp: wait_ok_def threads_init_def threads_start_def)

interpretation waiting: invariant_system threads_init "threads_step h allowed n"
    "\<lambda>s. threads_inv n s \<and> wait_ok s" for h allowed n
  by unfold_locales (blast intro: threads_inv_init wait_ok_init threads_inv_step wait_ok_step)+



end
