(* ===== verification/Service_Threads_Race.thy ===== *)
theory Service_Threads_Race
  imports Service_Threads_Pause
begin

text \<open>
  What a pause keeps out of the client manager and the filter tables, and what it does not. A flag
  is a boolean that each handler sets and clears for itself, and the threads test it at the head of
  their loops only: with one client that changes filters no new pass begins while its order is
  carried out, but a pass that is under way goes on, and the order of another client ends the pause.
\<close>

section \<open>What a pause keeps out\<close>

text \<open>Only one client sends orders to change the filters.\<close>

definition only_changer :: "nat \<Rightarrow> 'w policy" where
  "only_changer k c pkg ctl \<longleftrightarrow> (filter_order pkg \<longrightarrow> c = int k)"

definition sole_inv :: "nat \<Rightarrow> nat \<Rightarrow> 'w threads \<Rightarrow> bool" where
  "sole_inv k n s \<longleftrightarrow> threads_inv n s \<and> (\<forall>j. j \<noteq> k \<longrightarrow> handler_at s j = At_Read) \<and>
     (pauses_receiver (handler_at s k) \<longrightarrow> receive_ipc_can_task_paused (can_ipc_receiver (shared s))) \<and>
     (pauses_worker (handler_at s k) \<longrightarrow> work_task_queue_paused (can_ipc_receiver (shared s)))"

lemma pauses_next_iff:
  "pauses_receiver (handler_next p) \<longleftrightarrow> pauses_receiver p \<and> p \<noteq> At_Resume_Receiver"
  "pauses_worker (handler_next p) \<longleftrightarrow>
     pauses_worker p \<and> p \<noteq> At_Resume_Worker \<or> (\<exists>pkg. p = At_Pause_Worker pkg)"
  by (cases p; simp)+

lemma sole_inv_step:
  assumes inv: "sole_inv k n s" and step: "threads_step h (only_changer k) n s t"
  shows "sole_inv k n t"
proof -
  from inv have tinv: "threads_inv n s" by (simp add: sole_inv_def)
  note tinv' = threads_inv_step [OF tinv step]
  have frame: "sole_inv k n t"
    if "flags (can_ipc_receiver (shared t)) = flags (can_ipc_receiver (shared s))" "handler_at t = handler_at s"
    using inv tinv' that by (simp add: sole_inv_def flags_def)
  from step show ?thesis
  proof cases
    case (package i pkg p ctl)
    from package(7) show ?thesis
    proof (cases rule: handler_begins_cases)
      case (other w)
      then show ?thesis using package(1,4) by (intro frame) (auto simp: fun_upd_idem)
    next
      case pause
      with package(6) have "i = k" by (simp add: only_changer_def)
      with inv tinv' package(1) pause show ?thesis by (simp add: sole_inv_def receiver_control)
    qed
  next
    case (handler i p ctl)
    with inv have "i = k" by (auto simp: sole_inv_def)
    moreover from handler_goes_Inr [OF handler(4) threads_invD(2) [OF tinv]]
    have "p = handler_next (handler_at s i)" "ctl = handler_effect (int i) (handler_at s i) (shared s)"
      by simp_all
    ultimately show ?thesis
      using inv tinv' handler(1) by (auto simp: sole_inv_def flags_effect pauses_next_iff)
  next
    case (receiver p ctl)
    with flags_receive_goes [OF receiver(2)] show ?thesis by (intro frame) simp_all
  next
    case (worker p ctl)
    with flags_worker_goes [OF worker(2)] show ?thesis by (intro frame) simp_all
  qed (intro frame; simp add: hang_up_def stop_shared)+
qed

lemma sole_inv_init: "threads_init s \<Longrightarrow> sole_inv k n s"
  using threads_inv_init [of s n] by (auto simp: sole_inv_def threads_init_def threads_start_def)

interpretation sole: invariant_system threads_init "threads_step h (only_changer k) n" "sole_inv k n" for h k n
  by unfold_locales (auto intro: sole_inv_init sole_inv_step)

lemma sole_excludes:
  assumes inv: "sole_inv k n s" and run: "run_inv n s" and step: "threads_step h (only_changer k) n s t"
    and at: "pauses_worker (handler_at s k)"
    and out: "receive_phase (receive_at s) \<noteq> R_Pass" "worker_phase (worker_at s) \<noteq> R_Pass"
  shows "receive_phase (receive_at t) \<noteq> R_Pass \<and> worker_phase (worker_at t) \<noteq> R_Pass"
proof -
  from inv at have paused: "receive_ipc_can_task_paused (can_ipc_receiver (shared s))"
    "work_task_queue_paused (can_ipc_receiver (shared s))"
    by (cases "handler_at s k"; simp add: sole_inv_def)+
  from views_step [OF run step] paused out show ?thesis
    by (auto elim!: pause_stepE dest!: arg_cong [where f = receiver_at] split: if_splits)
qed


section \<open>What a pause does not keep out\<close>

text \<open>
  The places where a step of the worker looks at the client manager, or at the lists of clients that
  it found there, and where a step of the receive thread looks at the filter tables.
\<close>

fun reads_manager :: "worker_place \<Rightarrow> bool" where
  "reads_manager (Wrk_Run task) \<longleftrightarrow> True"
| "reads_manager (Wrk_Write pkg clients) \<longleftrightarrow> True"
| "reads_manager _ \<longleftrightarrow> False"

fun reads_tables :: "receive_place \<Rightarrow> bool" where
  "reads_tables (Rcv_Frames ts us (Suc k) (f # fs) port) \<longleftrightarrow> cf_len f \<noteq> 0"
| "reads_tables _ \<longleftrightarrow> False"

text \<open>
  A handler is about to change the client manager, or the tables, while another thread is about to
  use the same: with no lock between them the two run at the same time.
\<close>

definition manager_race :: "nat \<Rightarrow> 'w threads \<Rightarrow> bool" where
  "manager_race n s \<longleftrightarrow> (\<exists>i<n. \<exists>pkg. handler_at s i = At_Manager pkg \<and>
     (reads_manager (worker_at s) \<or>
      (\<exists>j<n. j \<noteq> i \<and> (\<exists>pkg'. handler_at s j = At_Manager pkg'))))"

definition table_race :: "nat \<Rightarrow> 'w threads \<Rightarrow> bool" where
  "table_race n s \<longleftrightarrow> (\<exists>i<n. \<exists>pkg. handler_at s i = At_Filter pkg \<and>
     (reads_tables (receive_at s) \<or>
      (\<exists>j<n. j \<noteq> i \<and> (\<exists>pkg'. handler_at s j = At_Filter pkg'))))"

lemma handler_begins_filter:
  "filter_order pkg \<Longrightarrow>
     handler_begins h pkg ctl = Inr (At_Pause_Worker pkg, on_receiver pause_receive_ipc_can_task ctl)"
  by (auto simp: filter_order_def handler_begins_def)

text \<open>
  Whatever the two threads are doing, a handler gets from the order it has read to the client
  manager and to the tables without another thread taking a step.
\<close>

lemma handler_to_tables:
  assumes reach: "reach threads_init (threads_step h allowed n) s"
    and i: "i < n" "int i \<in> set (client_threads (shared s))" "handler_at s i = At_Read"
    and pkg: "wf_package pkg" "filter_order pkg" "unat (can_filter_cnt pkg) \<le> 32"
      "allowed (int i) pkg (shared s)"
  obtains t u where
    "reach threads_init (threads_step h allowed n) t" "handler_at t = (handler_at s)(i := At_Manager pkg)"
    "receive_at t = receive_at s" "worker_at t = worker_at s"
    "client_threads (shared t) = client_threads (shared s)"
    "reach threads_init (threads_step h allowed n) u" "handler_at u = (handler_at s)(i := At_Filter pkg)"
    "receive_at u = receive_at s" "worker_at u = worker_at s"
    "client_threads (shared u) = client_threads (shared s)"
proof -
  let ?ctl1 = "on_receiver pause_receive_ipc_can_task (shared s)"
  let ?s1 = "s\<lparr>shared := ?ctl1, handler_at := (handler_at s)(i := At_Pause_Worker pkg)\<rparr>"
  let ?ctl2 = "on_receiver pause_work_queue_task ?ctl1"
  let ?s2 = "s\<lparr>shared := ?ctl2, handler_at := (handler_at s)(i := At_Manager pkg)\<rparr>"
  let ?ctl3 = "?ctl2\<lparr>socket_client_manager := ordered_manager (int i) pkg (socket_client_manager ?ctl2)\<rparr>"
  let ?s3 = "s\<lparr>shared := ?ctl3, handler_at := (handler_at s)(i := At_Filter pkg)\<rparr>"
  have "threads_step h allowed n s ?s1"
    by (rule threads_step.package [where allowed = allowed, OF i(1,2,3) pkg(1,4)])
      (rule handler_begins_filter [OF pkg(2)])
  with reach have 1: "reach threads_init (threads_step h allowed n) ?s1" by (rule reach_step)
  have "threads_step h allowed n ?s1 ?s2"
    using threads_step.handler [of i n ?s1 "At_Manager pkg" ?ctl2 h allowed] i(1) by (cases s) simp
  with 1 have 2: "reach threads_init (threads_step h allowed n) ?s2" by (rule reach_step)
  have "handler_goes (int i) (At_Manager pkg) ?ctl2 = Inr (At_Filter pkg, ?ctl3)"
    by (simp add: change_manager_eq [OF pkg(1,3)])
  then have "threads_step h allowed n ?s2 ?s3"
    using threads_step.handler [of i n ?s2 "At_Filter pkg" ?ctl3 h allowed] i(1) by (cases s) simp
  with 2 have 3: "reach threads_init (threads_step h allowed n) ?s3" by (rule reach_step)
  show ?thesis by (rule that [OF 2 _ _ _ _ 3]) simp_all
qed

text \<open>
  C25. A pause waits for nobody: from every reachable state in which the receive thread is in the
  middle of a batch and the worker in the middle of a task, a client's order to change the filters
  takes its handler to the client manager, and to the tables, while they still are, so that both are
  used by two threads at once.
\<close>

theorem pause_waits_for_nobody:
  assumes "reach threads_init (threads_step h allowed n) s"
    and "i < n" "int i \<in> set (client_threads (shared s))" "handler_at s i = At_Read"
    and "wf_package pkg" "filter_order pkg" "unat (can_filter_cnt pkg) \<le> 32"
      "allowed (int i) pkg (shared s)"
    and "reads_tables (receive_at s)" "reads_manager (worker_at s)"
  shows "\<exists>t u. reach threads_init (threads_step h allowed n) t \<and> manager_race n t \<and>
    reach threads_init (threads_step h allowed n) u \<and> table_race n u"
proof -
  obtain t u where t: "reach threads_init (threads_step h allowed n) t"
      "handler_at t = (handler_at s)(i := At_Manager pkg)" "worker_at t = worker_at s"
    and u: "reach threads_init (threads_step h allowed n) u"
      "handler_at u = (handler_at s)(i := At_Filter pkg)" "receive_at u = receive_at s"
    using assms(1-8) by (rule handler_to_tables)
  from t(2,3) assms(2,10) have "manager_race n t" unfolding manager_race_def by fastforce
  moreover from u(2,3) assms(2,9) have "table_race n u" unfolding table_race_def by fastforce
  ultimately show ?thesis using t(1) u(1) by blast
qed

text \<open>
  The pauses of two clients do not add up: while the order of one client is being carried out
  and the receive thread is at the head of its loop, another client's order, from its pause to its
  resume, lets the thread start a pass over the ports with the first order still at the client
  manager.
\<close>

theorem resume_ends_other_pause:
  assumes reach: "reach threads_init (threads_step h allowed n) s"
    and i: "i < n" "handler_at s i = At_Manager pkg"
    and j: "j < n" "int j \<in> set (client_threads (shared s))" "handler_at s j = At_Read"
    and pkg': "wf_package pkg'" "filter_order pkg'" "unat (can_filter_cnt pkg') \<le> 32"
      "allowed (int j) pkg' (shared s)"
    and at: "receive_at s = Rcv_Test ts"
  shows "\<exists>t. reach threads_init (threads_step h allowed n) t \<and>
    handler_at t i = At_Manager pkg \<and> receive_at t = Rcv_Ports ts ts"
proof -
  let ?begins = "on_receiver pause_receive_ipc_can_task (shared s)"
  let ?s1 = "s\<lparr>shared := ?begins, handler_at := (handler_at s)(j := At_Pause_Worker pkg')\<rparr>"
  from i j have ij: "i \<noteq> j" by auto
  have "threads_step h allowed n s ?s1"
    by (rule threads_step.package [where allowed = allowed, OF j pkg'(1,4)])
      (rule handler_begins_filter [OF pkg'(2)])
  with reach have r1: "reach threads_init (threads_step h allowed n) ?s1" by (rule reach_step)
  obtain ctl where run: "run_thread (handler_goes (int j)) 8 (At_Pause_Worker pkg', ?begins) = Inr (At_Read, ctl)"
    and free: "\<not> receive_ipc_can_task_paused (can_ipc_receiver ctl)"
    using handler_runs [of h pkg' "shared s" "int j"] pkg'(1-3)
    by (auto simp: handler_begins_filter filter_order_def handle_orders)
  have "run_thread (handler_goes (int j)) 8 (handler_at ?s1 j, shared ?s1) = Inr (At_Read, ctl)"
    using run by simp
  from reach_handler_wakes [OF r1 j(1) this] at obtain wp where
    r2: "reach threads_init (threads_step h allowed n)
      (?s1\<lparr>shared := ctl, handler_at := (handler_at ?s1)(j := At_Read), receive_at := Rcv_Test ts, worker_at := wp\<rparr>)"
    by auto
  define s2 where "s2 = ?s1\<lparr>shared := ctl, handler_at := (handler_at ?s1)(j := At_Read),
    receive_at := Rcv_Test ts, worker_at := wp\<rparr>"
  have s2: "shared s2 = ctl" "receive_at s2 = Rcv_Test ts" "handler_at s2 i = At_Manager pkg"
    using ij i(2) by (simp_all add: s2_def)
  from r2 have r2: "reach threads_init (threads_step h allowed n) s2" by (simp only: s2_def)
  have "receive_ipc_can_task_running (can_ipc_receiver ctl)"
    using receive_pause.reach_inv [OF r2] by (simp add: run_inv_def flags_inv_def s2)
  with free have go: "receive_goes h (receive_at s2) (shared s2) = Inr (Rcv_Ports ts ts, ctl)"
    by (simp add: s2)
  from reach_step [OF r2 threads_step.receiver [of h s2, OF go]] s2(3) show ?thesis
    by (intro exI conjI) (assumption, simp_all)
qed

section \<open>These situations arise\<close>

text \<open>Policies that allow everything allow what \<open>disciplined\<close> allows.\<close>

lemma reach_anything:
  "reach threads_init (threads_step h allowed n) s \<Longrightarrow> reach threads_init (threads_step h anything n) s"
  by (erule reach_mono) (rule threads_step_mono, assumption, simp add: anything_def)

abbreviation sample_order :: SOCKET_PACKAGE_T where
  "sample_order \<equiv> filter_package SOCKET_ORDER_AS_ADD_FILTER [2]"

lemma sample_order_ok:
  "wf_package sample_order" "filter_order sample_order" "unat (can_filter_cnt sample_order) \<le> 32"
  by (simp_all add: wf_filter_package filter_order_def)


text \<open>Two frames are at hand, the first has been queued, and the worker has taken it.\<close>

lemma serving_filter:
  "can_ipc_filter_map (receiver_filter (can_ipc_receiver (serving w)) Slot_5) 2 \<noteq> None"
proof -
  have inv: "orderly_inv 8 (threads_start (serving w))"
    by (rule orderly_threads.reach_inv) (rule reach_serving_threads)
  have idle: "disciplined_inv (serving w)"
    using orderly_idle(1) [OF inv] by (simp add: threads_start_def)
  have "clients_of (socket_client_manager (serving w)) 2 = {7}"
    by (auto simp: clients_of_def serving_sel)
  moreover from idle have "card (clients_of (socket_client_manager (serving w)) 2) \<le>
      count (port_registered (can_ipc_receiver (serving w)) Slot_5) 2"
    by (simp add: disciplined_inv_def counts_cover_def)
  ultimately have "1 \<le> count (port_registered (can_ipc_receiver (serving w)) Slot_5) 2" by simp
  then have "2 \<in># registered (receiver_filter (can_ipc_receiver (serving w)) Slot_5)"
    by (simp add: port_registered_def count_greater_zero_iff [symmetric] del: count_greater_zero_iff)
  moreover have "wf_receiver (can_ipc_receiver (serving w))"
    using serving_receiver(1) [of w] by (simp add: layer_inv_def)
  ultimately show ?thesis using registered_iff [OF wf_receiverD(1)] by blast
qed

text \<open>A frame that somebody has registered for wakes the worker, which takes the task.\<close>

lemma reach_task_taken:
  assumes reach: "reach threads_init (threads_step h allowed n) s"
    and at: "receive_at s = Rcv_Frames ts us (Suc k) (f # fs) port" "worker_at s = Wrk_Wait"
    and f: "cf_len f \<noteq> 0" "frame_in_bounds f" "return_can_ipc_receiver_filter port = Some sl"
      "can_ipc_filter_map (receiver_filter (can_ipc_receiver (shared s)) sl) (frame_id (rx_frame f)) = Some g"
    and q: "worker_ready (can_ipc_receiver (shared s))"
      "work_queue (work_queue_handle (can_ipc_receiver (shared s))) = []"
  obtains t where "reach threads_init (threads_step h allowed n) t"
    "receive_at t = Rcv_Frames ts us k fs port" "worker_at t = Wrk_Run (ipcf_callback g, rx_frame f)"
    "handler_at t = handler_at s" "client_threads (shared t) = client_threads (shared s)"
    "socket_client_manager (shared t) = socket_client_manager (shared s)"
proof -
  define ctl where "ctl = on_receiver (\<lambda>r. snd (match_can_filter port (rx_frame f) r)) (shared s)"
  have go: "receive_goes h (receive_at s) (shared s) = Inr (Rcv_Frames ts us k fs port, ctl)"
    using f(1,2) by (simp add: at frame_of_canframe_ok ctl_def)
  have q': "work_queue (work_queue_handle (can_ipc_receiver ctl)) = [(ipcf_callback g, rx_frame f)]"
    "worker_ready (can_ipc_receiver ctl)" "client_threads ctl = client_threads (shared s)"
    "socket_client_manager ctl = socket_client_manager (shared s)"
    using q match_in_room(1) [of "can_ipc_receiver (shared s)" port "rx_frame f"] f(3,4)
      ready_match [OF q(1), of port "rx_frame f"]
    by (simp_all add: ctl_def worker_ready_def wq_size_def MAX_WORK_QUEUE_TASKS_def)
  then have "queue_length (shared s) < queue_length ctl"
    using q(2) by (simp add: queue_length_def wq_size_def)
  with reach_step [OF reach threads_step.receiver [OF go]] at(2)
  have r1: "reach threads_init (threads_step h allowed n) (s\<lparr>shared := ctl,
      receive_at := Rcv_Frames ts us k fs port, worker_at := Wrk_Dequeue\<rparr>)"
    (is "reach _ _ ?t") by simp
  obtain ctl' where run: "worker_goes (worker_at ?t) (shared ?t) =
      Inr (Wrk_Run (ipcf_callback g, rx_frame f), ctl')" and "client_threads ctl' = client_threads ctl"
    "socket_client_manager ctl' = socket_client_manager ctl"
    using q'(1,2) by (auto simp: dequeue_blocking_def worker_ready_def)
  with q'(3,4) show ?thesis
    by (intro that [OF reach_step [OF r1 threads_step.worker [OF run]]]) simp_all
qed

lemma reach_taken:
  obtains s g where "reach threads_init (threads_step (replay_hal two_frames) disciplined 8) s"
    "reads_tables (receive_at s)" "worker_at s = Wrk_Run (g, rx_frame ((sample_canframe 8)\<lparr>canid := 2\<rparr>))"
    "handler_at s 7 = At_Read" "int 7 \<in> set (client_threads (shared s))"
    "socket_client_manager (shared s) = socket_client_manager (serving ([] :: (string \<times> canframe) list))"
proof -
  let ?f = "(sample_canframe 8)\<lparr>canid := 2\<rparr>" and ?s = batch_at_hand
  obtain ts us where "receive_at ?s = Rcv_Frames ts us 2 two_buffer CAN_DEV_PORT_5"
    by (simp add: batch_at_hand_def Let_def)
  moreover obtain rest where "two_buffer = ?f # sample_canframe 12 # rest"
    by (simp add: two_buffer_def two_frames_def)
  ultimately have at: "receive_at ?s = Rcv_Frames ts us (Suc 1) (?f # sample_canframe 12 # rest) CAN_DEV_PORT_5"
    by (simp add: numeral_2_eq_2)
  have sel: "can_ipc_receiver (shared ?s) = can_ipc_receiver (serving ([] :: (string \<times> canframe) list))" "worker_at ?s = Wrk_Wait"
    "handler_at ?s = (\<lambda>_. At_Read)" "client_threads (shared ?s) = [7]"
    "socket_client_manager (shared ?s) = socket_client_manager (serving ([] :: (string \<times> canframe) list))"
    by (simp_all add: batch_at_hand_def Let_def serving_def started_sel
      service_init_no_clients [OF service_init_started])
  have f: "cf_len ?f \<noteq> 0" "cf_len (sample_canframe 12) \<noteq> 0" "frame_in_bounds ?f"
    "frame_id (rx_frame ?f) = 2" "return_can_ipc_receiver_filter CAN_DEV_PORT_5 = Some Slot_5"
    by (simp_all add: sample_canframe_def frame_in_bounds_def CANFD_MAX_DLEN_def rx_frame_def)
  obtain g where "can_ipc_filter_map (receiver_filter (can_ipc_receiver (serving
      ([] :: (string \<times> canframe) list))) Slot_5) 2 = Some g"
    using serving_filter [of "[] :: (string \<times> canframe) list"] unfolding not_None_eq ..
  then have ready: "can_ipc_filter_map (receiver_filter (can_ipc_receiver (shared ?s)) Slot_5)
      (frame_id (rx_frame ?f)) = Some g" "worker_ready (can_ipc_receiver (shared ?s))"
    "work_queue (work_queue_handle (can_ipc_receiver (shared ?s))) = []"
    by (simp_all only: sel(1) f(4) serving_sel)
  obtain t where "reach threads_init (threads_step (replay_hal two_frames) disciplined 8) t"
    "receive_at t = Rcv_Frames ts us 1 (sample_canframe 12 # rest) CAN_DEV_PORT_5"
    "worker_at t = Wrk_Run (ipcf_callback g, rx_frame ?f)"
    "handler_at t = handler_at ?s" "client_threads (shared t) = client_threads (shared ?s)"
    "socket_client_manager (shared t) = socket_client_manager (shared ?s)"
    using reach_batch_at_hand at sel(2) f(1,3,5) ready by (rule reach_task_taken)
  with f(2) sel(3,4,5) show ?thesis by (intro that) (assumption, simp_all)
qed

lemma reach_both_reading:
  obtains s where "reach threads_init (threads_step (replay_hal two_frames) disciplined 8) s"
    "reads_tables (receive_at s)" "reads_manager (worker_at s)"
    "handler_at s 7 = At_Read" "int 7 \<in> set (client_threads (shared s))"
  by (rule reach_taken) (rule that, auto)

theorem pause_waits_for_nobody_witness:
  "\<exists>t u. reach threads_init (threads_step (replay_hal two_frames) anything 8) t \<and> manager_race 8 t \<and>
     reach threads_init (threads_step (replay_hal two_frames) anything 8) u \<and> table_race 8 u"
proof -
  let ?h = "replay_hal two_frames"
  obtain s where s: "reach threads_init (threads_step ?h disciplined 8) s"
    "reads_tables (receive_at s)" "reads_manager (worker_at s)"
    "handler_at s 7 = At_Read" "int 7 \<in> set (client_threads (shared s))"
    by (rule reach_both_reading)
  have "7 < (8 :: nat)" and "anything (int 7) sample_order (shared s)"
    by (simp, simp only: anything_def)
  with pause_waits_for_nobody [OF reach_anything [OF s(1)] _ s(5,4) sample_order_ok _ s(2,3)]
  show ?thesis by iprover
qed

theorem resume_ends_other_pause_witness:
  "\<exists>t ts. reach threads_init (threads_step (recording_hal :: (string \<times> canframe) list hal) anything 8) t \<and>
     handler_at t 7 = At_Manager sample_order \<and> receive_at t = Rcv_Ports ts ts"
proof -
  let ?h = "recording_hal :: (string \<times> canframe) list hal" and ?w = "[] :: (string \<times> canframe) list"
  let ?s0 = "threads_start (connected ?w)"
  note reach0 = reach_connected [of ?h anything ?w]
  let ?s1 = "?s0\<lparr>shared := accept_connections [Accepted (int 6)] (shared ?s0)\<rparr>"
  have sel0: "shared ?s0 = connected ?w" "receive_at ?s0 = Rcv_Start" "handler_at ?s0 = (\<lambda>_. At_Read)"
    by (simp_all add: threads_start_def)
  have "threads_step ?h anything 8 ?s0 ?s1"
    by (rule threads_step.connects) (simp_all add: sel0 connected_sel)
  with reach0 have r1: "reach threads_init (threads_step ?h anything 8) ?s1" by (rule reach_step)
  define s1 where "s1 = ?s1"
  have sel1: "shared s1 = accept_connections [Accepted 6] (connected ?w)" "receive_at s1 = Rcv_Start"
    "handler_at s1 = (\<lambda>_. At_Read)"
    by (simp_all add: s1_def sel0)
  from r1 have r1: "reach threads_init (threads_step ?h anything 8) s1" by (simp only: s1_def)
  define ts where "ts = map (\<lambda>s. (s, port_target (can_ipc_receiver (connected ?w)) s)) all_slots"
  have "layer_inv (can_ipc_receiver (connected ?w))"
    using threads.reach_inv [OF reach0] by (simp add: threads_inv_def service_inv_def threads_start_def)
  then have go: "receive_goes ?h (receive_at s1) (shared s1) = Inr (Rcv_Test ts, shared s1)"
    by (simp add: sel1 targets_eq ts_def connected_sel)
  from reach_step [OF r1 threads_step.receiver [of ?h s1, OF go]]
  obtain s2 where s2: "reach threads_init (threads_step ?h anything 8) s2" "receive_at s2 = Rcv_Test ts"
    "handler_at s2 7 = At_Read" "handler_at s2 6 = At_Read" "client_threads (shared s2) = client_threads (shared s1)"
    by (rule that) (simp_all add: sel1)
  have threads: "int 7 \<in> set (client_threads (shared s2))" "int 6 \<in> set (client_threads (shared s2))"
    by (simp_all add: s2(5) sel1 connected_sel)
  have lt: "7 < (8 :: nat)" "6 < (8 :: nat)" and any: "anything c sample_order ctl"
    for c and ctl :: "(string \<times> canframe) list controller"
    by (simp_all add: anything_def)
  obtain t where t: "reach threads_init (threads_step ?h anything 8) t"
      "handler_at t = (handler_at s2)(7 := At_Manager sample_order)" "receive_at t = receive_at s2"
      "client_threads (shared t) = client_threads (shared s2)"
    using s2(1) lt(1) threads(1) s2(3) sample_order_ok any by (rule handler_to_tables)
  have at: "handler_at t 7 = At_Manager sample_order" "handler_at t 6 = At_Read" "receive_at t = Rcv_Test ts"
    "int 6 \<in> set (client_threads (shared t))"
    using t(2-4) s2(2,4) threads(2) by simp_all
  have "\<exists>u. reach threads_init (threads_step ?h anything 8) u \<and>
      handler_at u 7 = At_Manager sample_order \<and> receive_at u = Rcv_Ports ts ts"
    using t(1) lt(1) at(1) lt(2) at(4,2) sample_order_ok any at(3)
    by (rule resume_ends_other_pause [where j = 6 and pkg' = sample_order])
  then show ?thesis by blast
qed

end
