(* ===== verification/Service_Threads_Clients.thy ===== *)
theory Service_Threads_Clients
  imports Service_Threads_Race
begin

text \<open>
  What a client may rely on when the threads interleave: its own orders take effect, whatever the
  others send; and while every client keeps its orders in balance, what it is subscribed to is
  looked up and passed on to it.
\<close>

section \<open>The subscriptions of one client\<close>

definition own :: "'w threads \<Rightarrow> nat \<Rightarrow> u32 set" where
  "own s i = {j. (int i, j) \<in> subscribed (socket_client_manager (shared s))}"

text \<open>
  A step changes the subscriptions of a client only if it is the client's own: its handler's change
  of the client manager, with the effect of the order, or its disconnection.
\<close>

lemma own_step:
  assumes inv: "threads_inv n s" and "threads_step h allowed n s t"
  shows "(own t i = own s i \<and> (\<forall>pkg. handler_at s i = At_Manager pkg \<longrightarrow> handler_at t i = At_Manager pkg)) \<or>
    (\<exists>pkg. handler_at s i = At_Manager pkg \<and> handler_at t i = At_Filter pkg \<and>
      own t i = (if socket_order pkg = SOCKET_ORDER_AS_ADD_FILTER then own s i \<union> set (package_ids pkg)
                 else own s i - set (package_ids pkg))) \<or>
    (own t i = {} \<and> handler_at s i = At_Read \<and> handler_at t i = At_Read \<and>
      int i \<in> set (client_threads (shared s)) \<and> int i \<notin> set (client_threads (shared t)))"
    (is "?other \<or> ?order \<or> ?left")
proof -
  have wf: "wf_index (socket_client_index (socket_client_manager (shared s)))"
    using threads_invD(1) [OF inv] by (simp add: service_inv_def manager_inv_def)
  have frame: "?other" if "socket_client_manager (shared t) = socket_client_manager (shared s)"
      "handler_at s i = At_Read \<or> handler_at t i = handler_at s i"
    using that by (auto simp: own_def)
  from assms(2) show ?thesis
  proof cases
    case (package k pkg p ctl)
    from package(7) have "socket_client_manager ctl = socket_client_manager (shared s)"
      by (cases rule: handler_begins_cases) simp_all
    with package(1,4) have ?other by (intro frame) auto
    then show ?thesis ..
  next
    case (handler k p ctl)
    from handler_goes_Inr [OF handler(4) threads_invD(2) [OF inv]]
    have p: "p = handler_next (handler_at s k)" and ctl: "ctl = handler_effect (int k) (handler_at s k) (shared s)"
      by simp_all
    show ?thesis
    proof (cases "k = i")
      case False
      with effect_subscribed [OF wf, of "int k" "int i"] have "own t i = own s i"
        by (simp add: own_def handler(1) ctl)
      with False handler(1) have ?other by simp
      then show ?thesis ..
    next
      case True
      show ?thesis
      proof (cases "\<exists>pkg. handler_at s i = At_Manager pkg")
        case manager: True
        then obtain pkg where at: "handler_at s i = At_Manager pkg" ..
        with True handler(1) p ctl have ?order
          by (auto simp: own_def subscribed_ordered [OF wf])
        then show ?thesis by blast
      next
        case False
        then have "socket_client_manager (handler_effect (int k) (handler_at s i) (shared s)) =
            socket_client_manager (shared s)"
          by (intro effect_manager(1)) blast
        with False True handler(1) ctl have ?other by (simp add: own_def)
        then show ?thesis ..
      qed
    qed
  next
    case (leaves k)
    show ?thesis
    proof (cases "k = i")
      case True
      with leaves threads_invD(6) [OF inv] have ?left
        by (auto simp: own_def hang_up_def subscribed_clean)
      then show ?thesis by blast
    next
      case False
      then have ?other using leaves(1) by (auto simp: own_def hang_up_def subscribed_clean)
      then show ?thesis ..
    qed
  next
    case (receiver p ctl)
    from receiver(2) have "socket_client_manager ctl = socket_client_manager (shared s)"
      by (cases rule: receive_goes_cases) simp_all
    with receiver(1) have ?other by (intro frame) simp_all
    then show ?thesis ..
  next
    case (worker p ctl)
    from worker(2) have "socket_client_manager ctl = socket_client_manager (shared s)"
      by (cases rule: worker_goes_cases) (simp_all add: write_package_def)
    with worker(1) have ?other by (intro frame) simp_all
    then show ?thesis ..
  qed (rule disjI1, rule frame; simp add: stop_def Let_def)+
qed

text \<open>Between the change of the client manager and the acknowledgement the order is in effect.\<close>

fun changed_by :: "handler_place \<Rightarrow> SOCKET_PACKAGE_T option" where
  "changed_by (At_Filter pkg) = Some pkg"
| "changed_by (At_Ack pkg ret) = Some pkg"
| "changed_by _ = None"

definition in_effect :: "'w threads \<Rightarrow> bool" where
  "in_effect s \<longleftrightarrow> (\<forall>i pkg. changed_by (handler_at s i) = Some pkg \<longrightarrow>
     (if socket_order pkg = SOCKET_ORDER_AS_ADD_FILTER then set (package_ids pkg) \<subseteq> own s i
      else set (package_ids pkg) \<inter> own s i = {})) \<and>
     (\<forall>i pkg ret. handler_at s i = At_Ack pkg ret \<longrightarrow> ret = filter_ret pkg)"

lemma in_effectD:
  "in_effect s \<Longrightarrow> changed_by (handler_at s i) = Some pkg \<Longrightarrow>
     (if socket_order pkg = SOCKET_ORDER_AS_ADD_FILTER then set (package_ids pkg) \<subseteq> own s i
      else set (package_ids pkg) \<inter> own s i = {})"
  unfolding in_effect_def by blast

lemma handler_at_step:
  assumes inv: "threads_inv n s" and "threads_step h allowed n s t"
  shows "handler_at t i = handler_at s i \<or> handler_at s i = At_Read \<and> changed_by (handler_at t i) = None \<or>
    handler_at s i \<noteq> At_Read \<and> handler_at t i = handler_next (handler_at s i)"
  using assms(2)
proof cases
  case (package k pkg p ctl)
  from package(7) have "p = At_Read \<or> p = At_Pause_Worker pkg"
    by (cases rule: handler_begins_cases) simp_all
  with package(1,4) show ?thesis by auto
next
  case (handler k p ctl)
  with handler_goes_Inr [OF handler(4) threads_invD(2) [OF inv]] show ?thesis by auto
qed simp_all

lemma in_effect_step:
  assumes eff: "in_effect s" and inv: "threads_inv n s" and step: "threads_step h allowed n s t"
  shows "in_effect t"
proof -
  have ret: "ret = filter_ret pkg" if "handler_at t i = At_Ack pkg ret" for i pkg ret
  proof -
    from handler_at_step [OF inv step, of i] that eff show ?thesis
      by (cases "handler_at s i") (auto simp: in_effect_def)
  qed
  have "if socket_order pkg = SOCKET_ORDER_AS_ADD_FILTER then set (package_ids pkg) \<subseteq> own t i
      else set (package_ids pkg) \<inter> own t i = {}" if changed: "changed_by (handler_at t i) = Some pkg" for i pkg
  proof (cases "changed_by (handler_at s i) = Some pkg")
    case True
    then have "handler_at s i \<noteq> At_Read" "\<forall>pkg. handler_at s i \<noteq> At_Manager pkg" by auto
    with own_step [OF inv step, of i] have "own t i = own s i" by auto
    with eff True show ?thesis by (simp add: in_effect_def)
  next
    case False
    with handler_at_step [OF inv step, of i] changed
    have at: "handler_at s i = At_Manager pkg" "handler_at t i = At_Filter pkg"
      by (cases "handler_at s i"; auto)+
    with own_step [OF inv step, of i] show ?thesis by auto
  qed
  with ret show ?thesis by (simp add: in_effect_def)
qed

lemma in_effect_init: "threads_init s \<Longrightarrow> in_effect s"
  by (auto simp: in_effect_def threads_init_def threads_start_def)

interpretation effect: invariant_system threads_init "threads_step h allowed n"
    "\<lambda>s. threads_inv n s \<and> in_effect s" for h allowed n
  by unfold_locales (blast intro: threads_inv_init in_effect_init threads_inv_step in_effect_step)+

text \<open>
  C22. Each client sees its own orders take effect, in any interleaving and whatever the other
  clients send: a step changes what a client is subscribed to only if it is the client's own, as the
  order says or by its disconnection; and when the acknowledgement of an order is about to be
  written, it says what the filter operation returned, and the client is subscribed to all
  identifiers of a filter it added and to none of a filter it removed.
\<close>

theorem orders_take_effect:
  assumes "reach threads_init (threads_step h allowed n) s" and "threads_step h allowed n s t"
  shows "(own t i = own s i \<or>
      (\<exists>pkg. handler_at s i = At_Manager pkg \<and> handler_at t i = At_Filter pkg \<and>
        own t i = (if socket_order pkg = SOCKET_ORDER_AS_ADD_FILTER then own s i \<union> set (package_ids pkg)
                   else own s i - set (package_ids pkg))) \<or>
      own t i = {} \<and> int i \<in> set (client_threads (shared s)) \<and> int i \<notin> set (client_threads (shared t))) \<and>
    (\<forall>pkg ret. handler_at s i = At_Ack pkg ret \<longrightarrow> ret = filter_ret pkg \<and>
      (if socket_order pkg = SOCKET_ORDER_AS_ADD_FILTER then set (package_ids pkg) \<subseteq> own s i
       else set (package_ids pkg) \<inter> own s i = {}))"
proof -
  from effect.reach_inv [OF assms(1)] have inv: "threads_inv n s" "in_effect s" by simp_all
  have "ret = filter_ret pkg \<and> (if socket_order pkg = SOCKET_ORDER_AS_ADD_FILTER
      then set (package_ids pkg) \<subseteq> own s i else set (package_ids pkg) \<inter> own s i = {})"
    if at: "handler_at s i = At_Ack pkg ret" for pkg ret
  proof -
    from at have "changed_by (handler_at s i) = Some pkg" by simp
    with inv(2) at show ?thesis unfolding in_effect_def by blast
  qed
  with own_step [OF inv(1) assms(2), of i] show ?thesis by blast
qed

theorem orders_take_effect_witness:
  "\<exists>s. reach threads_init (threads_step (recording_hal :: (string \<times> canframe) list hal) anything 8) s \<and>
     handler_at s 7 = At_Ack sample_order (filter_ret sample_order) \<and> 2 \<in> own s 7"
proof -
  let ?h = "recording_hal :: (string \<times> canframe) list hal"
  let ?s = "threads_start (connected ([] :: (string \<times> canframe) list))"
  have sel: "int 7 \<in> set (client_threads (shared ?s))" "handler_at ?s 7 = At_Read" "7 < (8 :: nat)"
    by (simp_all add: threads_start_def connected_sel)
  have any: "anything (int 7) sample_order (shared ?s)" by (simp add: anything_def)
  obtain u where u: "reach threads_init (threads_step ?h anything 8) u"
      "handler_at u = (handler_at ?s)(7 := At_Filter sample_order)"
    using reach_connected [of ?h anything "[]"] sel(3,1,2) sample_order_ok any by (rule handler_to_tables)
  from u(2) have at: "handler_at u 7 = At_Filter sample_order" by simp
  obtain ctl where "handler_goes (int 7) (handler_at u 7) (shared u) =
      Inr (At_Ack sample_order (filter_ret sample_order), ctl)"
    by (simp add: at change_filter_eq [OF sample_order_ok(1)])
  from reach_step [OF u(1) threads_step.handler [OF sel(3) _ this]] at
  obtain s where s: "reach threads_init (threads_step ?h anything 8) s"
      "handler_at s 7 = At_Ack sample_order (filter_ret sample_order)" by force
  note orders_take_effect [OF s(1) threads_step.stops, of 7]
  with s(2) have "set (package_ids sample_order) \<subseteq> own s 7" by simp
  with s show ?thesis by (auto simp: filter_package_ids)
qed

section \<open>A subscription is served\<close>

definition served_inv :: "nat \<Rightarrow> 'w threads \<Rightarrow> bool" where
  "served_inv n s \<longleftrightarrow> orderly_inv n s \<and> in_effect s"

interpretation served: invariant_system threads_init "threads_step h disciplined n" "served_inv n" for h n
proof unfold_locales
  fix s t :: "'a threads"
  show "threads_init s \<Longrightarrow> served_inv n s"
    by (simp add: served_inv_def orderly_inv_init in_effect_init)
  assume "served_inv n s" "threads_step h disciplined n s t"
  then show "served_inv n t"
    by (auto simp: served_inv_def orderly_inv_def intro: in_effect_step
        dest: orderly_inv_step [of n s h t, unfolded orderly_inv_def, rotated])
qed

text \<open>
  C23. A subscription is served, in any interleaving: when every client adds only what it has not
  subscribed to and removes only what it has, then an identifier that a client is subscribed to is
  registered in the table of the service's port, and the client is in the list the worker writes
  to; the one exception is the client whose own order to add it has not reached the tables yet.
\<close>

theorem subscriptions_are_served:
  assumes "reach threads_init (threads_step h disciplined n) s"
    and "(int i, j) \<in> subscribed (socket_client_manager (shared s))"
    and "\<nexists>pkg. handler_at s i = At_Filter pkg \<and> socket_order pkg = SOCKET_ORDER_AS_ADD_FILTER \<and>
      j \<in> set (package_ids pkg)"
  shows "can_ipc_filter_map (receiver_filter (can_ipc_receiver (shared s)) Slot_5) j \<noteq> None \<and>
    int i \<in> set (receivers (socket_client_manager (shared s)) j)"
proof -
  let ?m = "socket_client_manager (shared s)" and ?r = "can_ipc_receiver (shared s)"
  let ?A = "about_to SOCKET_ORDER_AS_ADD_FILTER n s j"
  from served.reach_inv [OF assms(1)] have inv: "threads_inv n s" "counts_due n s" "in_effect s"
    by (simp_all add: served_inv_def orderly_inv_def)
  from threads_invD(1) [OF inv(1)] have sinv: "service_inv (shared s)" .
  then have cov: "covers ?m" and wf: "wf_receiver ?r"
    by (simp_all add: service_inv_def manager_inv_def layer_inv_def)
  have "int ` ?A \<subseteq> clients_of ?m j - {int i}"
  proof
    fix c
    assume "c \<in> int ` ?A"
    then obtain k pkg where c: "c = int k" and at: "handler_at s k = At_Filter pkg"
      and pkg: "socket_order pkg = SOCKET_ORDER_AS_ADD_FILTER" "j \<in> set (package_ids pkg)"
      by (auto simp: about_to_def)
    from at have "changed_by (handler_at s k) = Some pkg" by simp
    from in_effectD [OF inv(3) this] pkg have "j \<in> own s k" by auto
    moreover from at pkg assms(3) have "k \<noteq> i" by auto
    ultimately show "c \<in> clients_of ?m j - {int i}" by (simp add: c own_def clients_of_def)
  qed
  moreover have fin: "finite (clients_of ?m j)" using sinv by (rule finite_clients_of)
  moreover have i: "int i \<in> clients_of ?m j" using assms(2) by (simp add: clients_of_def)
  ultimately have "card (int ` ?A) < card (clients_of ?m j)"
    by (intro psubset_card_mono) auto
  then have "card ?A < card (clients_of ?m j)" by (simp add: card_image)
  moreover from inv(2) have "card (clients_of ?m j) + card (about_to SOCKET_ORDER_AS_REMOVE_FILTER n s j) \<le>
      count (port_registered ?r Slot_5) j + card ?A"
    unfolding counts_due_def by blast
  ultimately have "0 < count (port_registered ?r Slot_5) j" by linarith
  then have "j \<in># registered (receiver_filter ?r Slot_5)"
    by (simp add: port_registered_def count_greater_zero_iff [symmetric] del: count_greater_zero_iff)
  with registered_iff [OF wf_receiverD(1) [OF wf]] cov i show ?thesis
    by (auto simp: covers_def clients_of_def)
qed

theorem subscriptions_are_served_witness:
  "can_ipc_filter_map (receiver_filter (can_ipc_receiver (serving ([] :: (string \<times> canframe) list))) Slot_5) 2 \<noteq> None \<and>
   7 \<in> set (receivers (socket_client_manager (serving ([] :: (string \<times> canframe) list))) 2)"
  using subscriptions_are_served [OF reach_serving_threads [of recording_hal "[]"], of 7 2]
    serving_sel(2) [of "[] :: (string \<times> canframe) list"]
  by (simp add: threads_start_def)

end
