(* ===== verification/Service_Threads_Types.thy ===== *)
theory Service_Threads_Types
  imports Service_Threads_Race
begin

text \<open>
  The types of what goes over the sockets: whatever the clients send and however the threads
  interleave, the service writes nothing but complete packages of two kinds, received frames and
  acknowledgements.
\<close>

section \<open>The packages of the service\<close>

definition service_package :: "SOCKET_PACKAGE_T \<Rightarrow> bool" where
  "service_package p \<longleftrightarrow> wf_package p \<and> socket_magic_code p = SOCKET_MAGIC_CODE \<and>
     (socket_order p = SOCKET_ORDER_AS_RECEIVE \<or>
      socket_order p = SOCKET_ORDER_AS_ACK \<and> socket_ack p \<in> {ACK_OKAY, ACK_ERROR} \<and>
      socket_ack_for_order p \<in> {SOCKET_ORDER_AS_ADD_FILTER, SOCKET_ORDER_AS_REMOVE_FILTER})"

text \<open>The packages that pass the handler's test of the magic code.\<close>

definition checked :: "'w policy" where
  "checked c pkg ctl \<longleftrightarrow> socket_magic_code pkg = SOCKET_MAGIC_CODE"

lemma service_ack:
  assumes "wf_package pkg" and "filter_order pkg" and "socket_magic_code pkg = SOCKET_MAGIC_CODE"
  shows "service_package (ack_package pkg ret)"
proof -
  let ?p = "ack_package pkg ret"
  have "canonical_ack (socket_ack ?p)" "canonical_order (socket_order ?p)"
    by (simp_all add: ack_package_def canonical_ack_def ack_of_raw_def canonical_order_def order_of_raw_def)
  moreover have "canonical_order (socket_ack_for_order ?p)"
    using assms(1) by (simp add: ack_package_def wf_package_def)
  ultimately have "wf_package ?p"
    using assms(1) by (simp add: wf_package_def) (simp add: ack_package_def)
  with assms(2,3) show ?thesis
    by (simp add: service_package_def filter_order_def) (simp add: ack_package_def)
qed

lemma service_receive: "wf_frame f \<Longrightarrow> service_package (receive_package f)"
  using wf_receive_package [of f] by (simp add: service_package_def receive_package_def)

section \<open>The invariant\<close>

definition written_ok :: "'w controller \<Rightarrow> bool" where
  "written_ok ctl \<longleftrightarrow>
     (\<forall>fd bs. Io_Write fd bs \<in> set (io_log ctl) \<longrightarrow> (\<exists>p. service_package p \<and> bs = encode_package p))"

definition queued_ok :: "'w controller \<Rightarrow> bool" where
  "queued_ok ctl \<longleftrightarrow> (\<forall>t \<in> set (work_queue (work_queue_handle (can_ipc_receiver ctl))). wf_frame (snd t))"

fun worker_ok :: "worker_place \<Rightarrow> bool" where
  "worker_ok (Wrk_Run t) \<longleftrightarrow> wf_frame (snd t)"
| "worker_ok (Wrk_Write pkg fds) \<longleftrightarrow> service_package pkg"
| "worker_ok _ \<longleftrightarrow> True"

definition handler_ok :: "handler_place \<Rightarrow> bool" where
  "handler_ok p \<longleftrightarrow> (\<forall>pkg. order_at p = Some pkg \<longrightarrow>
     wf_package pkg \<and> filter_order pkg \<and> socket_magic_code pkg = SOCKET_MAGIC_CODE)"

definition typed_inv :: "'w threads \<Rightarrow> bool" where
  "typed_inv s \<longleftrightarrow> written_ok (shared s) \<and> queued_ok (shared s) \<and> worker_ok (worker_at s) \<and>
     (\<forall>i. handler_ok (handler_at s i))"

lemma written_io [simp]:
  "written_ok (write_package fd pkg ctl) \<longleftrightarrow> written_ok ctl \<and> (\<exists>p. service_package p \<and> encode_package pkg = encode_package p)"
  by (auto simp: written_ok_def write_package_def io_def)

lemma written_frame [simp]:
  "written_ok (on_receiver f ctl) = written_ok ctl"
  "written_ok (ctl\<lparr>socket_client_manager := m\<rparr>) = written_ok ctl"
  "written_ok (ctl\<lparr>hal_world := w\<rparr>) = written_ok ctl"
  by (simp_all add: written_ok_def)

lemma queued_frame [simp]:
  "queued_ok (write_package fd pkg ctl) = queued_ok ctl"
  "queued_ok (ctl\<lparr>socket_client_manager := m\<rparr>) = queued_ok ctl"
  "queued_ok (ctl\<lparr>hal_world := w\<rparr>) = queued_ok ctl"
  by (simp_all add: queued_ok_def write_package_def io_def)

lemma queued_receiver:
  "work_queue_handle (f (can_ipc_receiver ctl)) = work_queue_handle (can_ipc_receiver ctl) \<Longrightarrow>
   queued_ok (on_receiver f ctl) = queued_ok ctl"
  by (simp add: queued_ok_def)

lemma queued_match:
  "queued_ok ctl \<Longrightarrow> wf_frame f \<Longrightarrow> queued_ok (on_receiver (\<lambda>r. snd (match_can_filter port f r)) ctl)"
  by (auto simp: queued_ok_def match_can_filter_def queue_ops split: option.splits)

lemma ordered_receiver_queue [simp]:
  "work_queue_handle (ordered_receiver pkg r) = work_queue_handle r"
  by (simp add: ordered_receiver_def registered_receiver_def deregistered_receiver_def split: option.splits)

lemma typed_effect:
  assumes "written_ok ctl" and "queued_ok ctl" and "handler_ok p"
  shows "written_ok (handler_effect c p ctl)" and "queued_ok (handler_effect c p ctl)"
    and "handler_ok (handler_next p)"
proof -
  show "written_ok (handler_effect c p ctl)"
    using assms by (cases p) (auto simp: handler_ok_def intro: service_ack)
  show "queued_ok (handler_effect c p ctl)"
    using assms(2) by (cases p) (simp_all add: queued_receiver)
  show "handler_ok (handler_next p)"
    using assms(3) by (auto simp: handler_ok_def dest: order_at_next)
qed

lemma worker_ok_wake [simp]:
  "worker_ok (wake_worker p) = worker_ok p" "worker_ok (notify_queue p) = worker_ok p"
  by (cases p; simp)+

lemma worker_ok_goes:
  assumes "worker_goes p ctl = Inr (p', ctl')" and "worker_ok p" and "queued_ok ctl"
  shows "worker_ok p'"
  using assms
proof (induction p ctl rule: worker_goes.induct)
  case (3 ctl)
  then show ?case
    by (auto simp: dequeue_blocking_def queued_ok_def split: if_splits list.splits)
next
  case (5 task ctl)
  then show ?case
    by (auto split: option.splits rx_callback.splits prod.splits intro: service_receive)
qed (auto split: if_splits)

lemma typed_worker:
  assumes "worker_goes p ctl = Inr (p', ctl')" and "worker_ok p" and "written_ok ctl" and "queued_ok ctl"
  shows "written_ok ctl'" and "queued_ok ctl'"
proof -
  from assms(1) have "written_ok ctl' \<and> queued_ok ctl'"
  proof (cases rule: worker_goes_cases)
    case dequeue
    have "set (work_queue (snd (dequeue_blocking q))) \<subseteq> set (work_queue q)" for q :: "rx_callback task WORK_QUEUE"
      by (auto simp: dequeue_blocking_def split: list.splits)
    then have "queued_ok ctl'" using assms(4) dequeue(2) by (auto simp: queued_ok_def)
    with assms(3) dequeue(2) show ?thesis by simp
  qed (use assms in auto)
  then show "written_ok ctl'" and "queued_ok ctl'" by simp_all
qed

lemma typed_receiver:
  assumes "receive_goes h p ctl = Inr (p', ctl')" and "written_ok ctl" and "queued_ok ctl"
  shows "written_ok ctl' \<and> queued_ok ctl'"
  using assms(1)
  by (cases rule: receive_goes_cases) (use assms(2,3) in \<open>auto simp: queued_match\<close>)

lemma accept_frame [simp]:
  "io_log (accept_connections es ctl) = io_log ctl"
  "can_ipc_receiver (accept_connections es ctl) = can_ipc_receiver ctl"
  by (induction es ctl rule: accept_connections.induct) (simp_all split: accept_event.splits)

lemma typed_shared [simp]:
  "written_ok (stop ctl) = written_ok ctl" "queued_ok (stop ctl) = queued_ok ctl"
  "written_ok (hang_up c ctl) = written_ok ctl" "queued_ok (hang_up c ctl) = queued_ok ctl"
  "written_ok (accept_connections es ctl) = written_ok ctl"
  "queued_ok (accept_connections es ctl) = queued_ok ctl"
  "written_ok (ctl\<lparr>client_threads := cs\<rparr>) = written_ok ctl"
  "queued_ok (ctl\<lparr>client_threads := cs\<rparr>) = queued_ok ctl"
  by (auto simp: written_ok_def queued_ok_def stop_def hang_up_def io_def Let_def)

lemma typed_inv_step:
  assumes inv: "typed_inv s" and "threads_step h checked n s t"
  shows "typed_inv t"
proof -
  from inv have ok: "written_ok (shared s)" "queued_ok (shared s)" "worker_ok (worker_at s)"
    "\<And>i. handler_ok (handler_at s i)" by (simp_all add: typed_inv_def)
  from assms(2) show ?thesis
  proof cases
    case (package i pkg p ctl)
    from package(7) show ?thesis
    proof (cases rule: handler_begins_cases)
      case (other w)
      with inv package(1) show ?thesis by (auto simp: typed_inv_def handler_ok_def)
    next
      case pause
      then have "handler_ok p" using package(5,6) by (simp add: handler_ok_def checked_def)
      moreover have "written_ok ctl" "queued_ok ctl" using pause(3) ok(1,2) by (simp_all add: queued_receiver)
      ultimately show ?thesis using ok(3,4) package(1) by (simp add: typed_inv_def)
    qed
  next
    case (handler i p ctl)
    have "p = handler_next (handler_at s i) \<and> ctl = handler_effect (int i) (handler_at s i) (shared s)"
      using ok(4) [of i] by (intro handler_goes_Inr [OF handler(4)]) (simp add: handler_ok_def)
    with typed_effect [OF ok(1,2) ok(4) [of i]] ok(3,4) handler(1) show ?thesis
      by (simp add: typed_inv_def)
  next
    case (receiver p ctl)
    with typed_receiver [OF receiver(2) ok(1,2)] ok(3,4) show ?thesis by (simp add: typed_inv_def)
  next
    case (worker p ctl)
    with typed_worker [OF worker(2) ok(3,1,2)] worker_ok_goes [OF worker(2) ok(3,2)] ok(4) show ?thesis
      by (simp add: typed_inv_def)
  qed (use inv in \<open>simp_all add: typed_inv_def\<close>)
qed

lemma start_writes_nothing:
  assumes "start_controller sys [] ctl = (True, ctl')" and "io_log ctl = []"
  shows "Io_Write fd bs \<notin> set (io_log ctl')"
  using assms
  by (auto simp: start_controller_def Let_def direct_receiver io_def split: if_splits option.splits)

lemma typed_inv_init:
  assumes "threads_init s"
  shows "typed_inv s"
proof -
  from assms obtain ctl where s: "s = threads_start ctl" and "service_init ctl" by (auto simp: threads_init_def)
  then obtain sys w where start: "start_controller sys [] (empty_controller w) = (True, ctl)"
    by (auto simp: service_init_def)
  have "io_log (empty_controller w) = []" by (simp add: empty_controller_def new_controller_def)
  then have "written_ok ctl"
    using start_writes_nothing [OF start] by (simp add: written_ok_def)
  moreover have "queued_ok ctl"
    using start_controller_success(2) [OF start]
    by (simp add: queued_ok_def lib_control receiver_control empty_controller_def new_controller_def
        new_CAN_IPC_RECEIVER_def clear_queue_eq Let_def)
  ultimately show ?thesis
    by (simp add: s typed_inv_def threads_start_def handler_ok_def)
qed

interpretation typed: invariant_system threads_init "threads_step h checked n" typed_inv for h n
  by unfold_locales (rule typed_inv_init, assumption, rule typed_inv_step, assumption+)

lemma typed_written:
  assumes "typed_inv s" and "Io_Write fd bs \<in> set (io_log (shared s))"
  shows "length bs = sizeof_package \<and> service_package (decode_package bs) \<and>
    encode_package (decode_package bs) = bs"
proof -
  from assms obtain p where "service_package p" "bs = encode_package p"
    unfolding typed_inv_def written_ok_def by blast
  moreover from this have "wf_package p" by (simp add: service_package_def)
  ultimately show ?thesis by (simp add: length_encode_package decode_encode)
qed

text \<open>
  Whatever packages with the magic code the clients send and however the threads interleave, all
  that the service ever writes to a client is a whole package of 224 bytes with the magic code that
  decodes to what was encoded: a received frame with its array of 64 bytes, or an acknowledgement,
  positive or negative, of an order to add or to remove a filter.
\<close>

theorem service_writes_packages:
  assumes "reach threads_init (threads_step h checked n) s"
    and "Io_Write fd bs \<in> set (io_log (shared s))"
  shows "length bs = sizeof_package \<and> service_package (decode_package bs) \<and>
    encode_package (decode_package bs) = bs"
  using typed_written [OF typed.reach_inv [OF assms(1)] assms(2)] .

theorem service_writes_packages_witness:
  "\<exists>s bs. reach threads_init (threads_step (recording_hal :: (string \<times> canframe) list hal) checked 8) s \<and>
     Io_Write 7 bs \<in> set (io_log (shared s)) \<and> length bs = 224 \<and> service_package (decode_package bs)"
proof -
  let ?h = "recording_hal :: (string \<times> canframe) list hal"
  let ?s = "threads_start (connected ([] :: (string \<times> canframe) list))"
  let ?ack = "At_Ack sample_order (filter_ret sample_order)"
  have sel: "int 7 \<in> set (client_threads (shared ?s))" "handler_at ?s 7 = At_Read" "7 < (8 :: nat)"
    by (simp_all add: threads_start_def connected_sel)
  have ok: "checked (int 7) sample_order (shared ?s)" by (simp add: checked_def)
  obtain u where u: "reach threads_init (threads_step ?h checked 8) u"
      "handler_at u = (handler_at ?s)(7 := At_Filter sample_order)"
    using reach_connected [of ?h checked "[]"] sel(3,1,2) sample_order_ok ok by (rule handler_to_tables)
  have runs: "run_thread (handler_goes (int 7)) 2 (handler_at u 7, shared u) = Inr (At_Resume_Worker,
      write_package (int 7) (ack_package sample_order (filter_ret sample_order))
        (on_receiver (ordered_receiver sample_order) (shared u)))"
    by (simp add: u(2) change_filter_eq [OF sample_order_ok(1)] numeral_2_eq_2)
  obtain s where s: "reach threads_init (threads_step ?h checked 8) s"
    "shared s = write_package (int 7) (ack_package sample_order (filter_ret sample_order))
        (on_receiver (ordered_receiver sample_order) (shared u))"
    using reach_handler_wakes [OF u(1) sel(3) runs] by (elim exE conjE) (rule that, assumption, simp)
  then have "Io_Write 7 (encode_package (ack_package sample_order (filter_ret sample_order)))
      \<in> set (io_log (shared s))" by (simp add: write_package_def io_def)
  with service_writes_packages [OF s(1) this] s(1) show ?thesis
    by (auto simp: sizeof_package_def)
qed

end
