(* ===== verification/Service_Bytes.thy ===== *)
theory Service_Bytes
  imports Service_Threads_Types
begin

text \<open>
  The interleaved service down to the bytes: the head of a handler's loop and \<open>read_full\<close> are steps of
  their own, one for each call of \<open>read\<close>, and what arrives on a socket is arbitrary. The system refines
  \<open>Service_Threads\<close>, whose packages are those that the handlers decode.
\<close>

section \<open>A handler that reads\<close>

text \<open>At the head of its loop, or in \<open>read_full\<close> with the bytes it has so far.\<close>

datatype read_place = At_Loop | In_Read "u8 list"

text \<open>
  What a turn comes to: the handler goes on reading, has a package to handle, ends through its last
  lines, or ends by the early return.
\<close>

datatype read_turn = Turn_Read read_place | Turn_Package SOCKET_PACKAGE_T | Turn_Leaves | Turn_Drops

definition package_turn :: "u8 list \<Rightarrow> read_turn" where
  "package_turn bs =
     (let socket_package = decode_package (pad_to sizeof_package bs)
      in if socket_magic_code socket_package \<noteq> SOCKET_MAGIC_CODE then Turn_Drops
         else Turn_Package socket_package)"

text \<open>
  One turn on the results that the calls of \<open>read\<close> will have, or \<open>None\<close> while the handler waits for
  one. \<open>running\<close> is the flag that the loop tests.
\<close>

fun reading_goes :: "bool \<Rightarrow> read_place \<Rightarrow> read_event list \<Rightarrow> (read_turn \<times> read_event list) option" where
  "reading_goes running At_Loop es = Some (if running then Turn_Read (In_Read []) else Turn_Leaves, es)"
| "reading_goes running (In_Read buf) es =
     (if sizeof_package \<le> length buf then Some (package_turn buf, es)
      else case es of
             [] \<Rightarrow> None
           | Read_Interrupted # es \<Rightarrow> Some (Turn_Read (In_Read buf), es)
           | Read_Failed # es \<Rightarrow> Some (Turn_Leaves, es)
           | Read_Bytes bs # es \<Rightarrow>
               (let got = take (sizeof_package - length buf) bs
                in Some (if got \<noteq> [] then Turn_Read (In_Read (buf @ got))
                         else if buf = [] then Turn_Leaves else package_turn buf, es)))"

section \<open>The threads with their sockets\<close>

text \<open>
  \<open>arrived\<close> holds what has arrived on each socket and has not been read: messages, the end of the
  connection (an empty message), and the signals and errors that the next calls report.
\<close>

record 'w byte_sys =
  threads_of :: "'w threads"
  reading :: "nat \<Rightarrow> read_place"
  arrived :: "nat \<Rightarrow> read_event list"

text \<open>The policy of a system whose handlers have no package to handle.\<close>

definition no_package :: "'w policy" where
  "no_package c pkg ctl \<longleftrightarrow> False"

text \<open>Whether a client has come between two states.\<close>

definition comes :: "nat \<Rightarrow> 'w threads \<Rightarrow> 'w threads \<Rightarrow> bool" where
  "comes i s t \<longleftrightarrow> int i \<in> set (client_threads (shared t)) - set (client_threads (shared s))"

definition reads :: "nat \<Rightarrow> nat \<Rightarrow> 'w threads \<Rightarrow> bool" where
  "reads n i s \<longleftrightarrow> i < n \<and> int i \<in> set (client_threads (shared s)) \<and> handler_at s i = At_Read"

text \<open>
  The steps of the threads other than those that end a handler are taken over; a client that
  connects starts with an empty socket.
\<close>

inductive byte_step :: "'w hal \<Rightarrow> nat \<Rightarrow> 'w byte_sys \<Rightarrow> 'w byte_sys \<Rightarrow> bool"
  for h :: "'w hal" and n :: nat where
  arrives: "byte_step h n s (s\<lparr>arrived := (arrived s)(i := arrived s i @ [e])\<rparr>)"
| threads_go: "threads_step h no_package n (threads_of s) t \<Longrightarrow>
     length (client_threads (shared (threads_of s))) \<le> length (client_threads (shared t)) \<Longrightarrow>
     byte_step h n s (s\<lparr>threads_of := t,
       reading := (\<lambda>i. if comes i (threads_of s) t then At_Loop else reading s i),
       arrived := (\<lambda>i. if comes i (threads_of s) t then [] else arrived s i)\<rparr>)"
| reads_on: "reads n i (threads_of s) \<Longrightarrow>
     reading_goes (ctl_is_running (shared (threads_of s))) (reading s i) (arrived s i) =
       Some (Turn_Read p, es) \<Longrightarrow>
     byte_step h n s (s\<lparr>reading := (reading s)(i := p), arrived := (arrived s)(i := es)\<rparr>)"
| has_package: "reads n i (threads_of s) \<Longrightarrow>
     reading_goes (ctl_is_running (shared (threads_of s))) (reading s i) (arrived s i) =
       Some (Turn_Package pkg, es) \<Longrightarrow>
     handler_begins h pkg (shared (threads_of s)) = Inr (p, ctl) \<Longrightarrow>
     byte_step h n s (s\<lparr>threads_of := (threads_of s)\<lparr>shared := ctl,
         handler_at := (handler_at (threads_of s))(i := p)\<rparr>,
       reading := (reading s)(i := At_Loop), arrived := (arrived s)(i := es)\<rparr>)"
| ends: "reads n i (threads_of s) \<Longrightarrow>
     reading_goes (ctl_is_running (shared (threads_of s))) (reading s i) (arrived s i) =
       Some (turn, es) \<Longrightarrow> turn = Turn_Leaves \<or> turn = Turn_Drops \<Longrightarrow>
     ctl = (if turn = Turn_Leaves then hang_up (int i) (shared (threads_of s)) else shared (threads_of s)) \<Longrightarrow>
     byte_step h n s (s\<lparr>threads_of := (threads_of s)\<lparr>shared := ctl\<lparr>client_threads :=
         remove1 (int i) (client_threads (shared (threads_of s)))\<rparr>\<rparr>,
       arrived := (arrived s)(i := es)\<rparr>)"

inductive_cases byte_stepE: "byte_step h n s t"

definition byte_start :: "'w threads \<Rightarrow> 'w byte_sys" where
  "byte_start t = \<lparr>threads_of = t, reading = (\<lambda>_. At_Loop), arrived = (\<lambda>_. [])\<rparr>"

definition byte_init :: "'w byte_sys \<Rightarrow> bool" where
  "byte_init s \<longleftrightarrow> (\<exists>t. threads_init t \<and> s = byte_start t)"

section \<open>Refinement\<close>

text \<open>No call of \<open>read\<close> writes past the package.\<close>

definition buffers_ok :: "'w byte_sys \<Rightarrow> bool" where
  "buffers_ok s \<longleftrightarrow> (\<forall>i buf. reading s i = In_Read buf \<longrightarrow> length buf \<le> sizeof_package)"

lemma package_turn_cases:
  "package_turn bs = Turn_Drops \<or> (\<exists>pkg. package_turn bs = Turn_Package pkg \<and> wf_package pkg \<and>
     socket_magic_code pkg = SOCKET_MAGIC_CODE)"
  by (simp add: package_turn_def Let_def wf_decode_package)

lemma turn_package:
  assumes "reading_goes running p es = Some (Turn_Package pkg, es')"
  shows "wf_package pkg" and "socket_magic_code pkg = SOCKET_MAGIC_CODE"
proof -
  from assms obtain buf where "package_turn buf = Turn_Package pkg"
    by (cases "(running, p, es)" rule: reading_goes.cases)
      (auto simp: Let_def split: if_splits list.splits read_event.splits)
  with package_turn_cases [of buf] show "wf_package pkg" "socket_magic_code pkg = SOCKET_MAGIC_CODE"
    by auto
qed

lemma turn_buffer:
  assumes "reading_goes running p es = Some (Turn_Read (In_Read buf), es')"
    and "\<And>b. p = In_Read b \<Longrightarrow> length b \<le> sizeof_package"
  shows "length buf \<le> sizeof_package"
  using assms
  by (cases "(running, p, es)" rule: reading_goes.cases)
    (auto simp: Let_def package_turn_def split: if_splits list.splits read_event.splits)

lemma buffers_ok_step:
  assumes ok: "buffers_ok s" and "byte_step h n s t"
  shows "buffers_ok t"
  using assms(2)
proof cases
  case (reads_on i p es)
  have "length buf \<le> sizeof_package" if "p = In_Read buf" for buf
    by (rule turn_buffer [OF reads_on(3) [unfolded that]]) (use ok in \<open>simp add: buffers_ok_def\<close>)
  with ok reads_on(1) show ?thesis by (simp add: buffers_ok_def)
qed (use ok in \<open>auto simp: buffers_ok_def\<close>)

lemma byte_step_refines:
  assumes "byte_step h n s t"
  shows "threads_step h checked n (threads_of s) (threads_of t) \<or> threads_of t = threads_of s"
  using assms
proof cases
  case (threads_go u)
  have "threads_step h checked n (threads_of s) u"
    by (rule threads_step_mono [OF threads_go(2)]) (simp add: no_package_def)
  with threads_go(1) show ?thesis by simp
next
  case (has_package i pkg es p ctl)
  note pkg = turn_package [OF has_package(3)]
  have "threads_step h checked n (threads_of s) ((threads_of s)\<lparr>shared := ctl,
      handler_at := (handler_at (threads_of s))(i := p)\<rparr>)"
    by (rule threads_step.package [OF _ _ _ pkg(1)])
      (use has_package(2,4) pkg in \<open>simp_all add: reads_def checked_def\<close>)
  with has_package(1) show ?thesis by simp
next
  case (ends i turn es ctl)
  from ends(2) have i: "i < n" "int i \<in> set (client_threads (shared (threads_of s)))"
    "handler_at (threads_of s) i = At_Read" by (simp_all add: reads_def)
  show ?thesis
    using ends(1,4,5) threads_step.leaves [of i n "threads_of s", OF i, of h checked]
      threads_step.drops [of i n "threads_of s", OF i, of h checked] by auto
qed simp_all

interpretation bytes: simulation byte_init "byte_step h n" buffers_ok threads_init "threads_step h checked n" threads_of
  for h n
proof unfold_locales
  fix s t :: "'a byte_sys"
  show "byte_init s \<Longrightarrow> buffers_ok s" "byte_init s \<Longrightarrow> threads_init (threads_of s)"
    by (auto simp: byte_init_def byte_start_def buffers_ok_def)
  show "buffers_ok s \<Longrightarrow> byte_step h n s t \<Longrightarrow> buffers_ok t" by (rule buffers_ok_step)
  show "byte_step h n s t \<Longrightarrow> threads_step h checked n (threads_of s) (threads_of t) \<or> threads_of t = threads_of s"
    by (rule byte_step_refines)
qed

section \<open>A handler alone is \<open>handle_client\<close>\<close>

lemma handler_goes_clients:
  "handler_goes c p ctl = Inr (p', ctl') \<Longrightarrow> client_threads ctl' = client_threads ctl"
  by (cases p)
    (auto simp: res_simps change_manager_def change_filter_def direct_can_register_can_filter_def
      direct_can_deregister_can_filter_def write_package_def io_def split: if_splits)

lemma handler_begins_clients:
  "handler_begins h pkg ctl = Inr (p, ctl') \<Longrightarrow> client_threads ctl' = client_threads ctl"
  by (erule handler_begins_cases) simp_all

lemma comes_not: "client_threads (shared t) = client_threads (shared s) \<Longrightarrow> \<not> comes i s t"
  by (simp add: comes_def)

lemma byte_threads_go:
  assumes "threads_step h no_package n (threads_of s) u"
    and same: "client_threads (shared u) = client_threads (shared (threads_of s))"
  obtains t where "byte_step h n s t" "threads_of t = u" "reading t = reading s" "arrived t = arrived s"
proof -
  from same have le: "length (client_threads (shared (threads_of s))) \<le> length (client_threads (shared u))" by simp
  show ?thesis
    by (rule that [OF byte_step.threads_go [OF assms(1) le]]) (simp_all add: comes_not [OF same])
qed

lemma byte_runs_handler:
  assumes "i < n" and "run_thread (handler_goes (int i)) k (handler_at (threads_of s) i, shared (threads_of s)) =
    Inr (At_Read, ctl)"
  shows "\<exists>t. (byte_step h n)\<^sup>*\<^sup>* s t \<and> shared (threads_of t) = ctl \<and> handler_at (threads_of t) i = At_Read \<and>
    client_threads ctl = client_threads (shared (threads_of s)) \<and> reading t = reading s \<and> arrived t = arrived s"
  using assms(2)
proof (induction k arbitrary: s)
  case 0
  then show ?case by (intro exI [of _ s]) simp
next
  case (Suc k)
  let ?T = "threads_of s"
  from Suc.prems obtain q ctl1 where go: "handler_goes (int i) (handler_at ?T i) (shared ?T) = Inr (q, ctl1)"
    and run: "run_thread (handler_goes (int i)) k (q, ctl1) = Inr (At_Read, ctl)"
    by (auto simp: res_simps)
  show ?case
  proof (cases "handler_at ?T i = At_Read")
    case True
    with go run Suc.IH [of s] show ?thesis by simp
  next
    case False
    obtain U where U: "threads_step h no_package n ?T U" "shared U = ctl1" "handler_at U i = q"
      using threads_step.handler [of i n ?T q ctl1 h no_package, OF assms(1) False go]
      by (rule that) simp_all
    have same: "client_threads (shared U) = client_threads (shared ?T)"
      using handler_goes_clients [OF go] U(2) by simp
    obtain u where u: "byte_step h n s u" "threads_of u = U" "reading u = reading s" "arrived u = arrived s"
      using U(1) same by (rule byte_threads_go)
    from Suc.IH [of u] run u U same obtain t where "(byte_step h n)\<^sup>*\<^sup>* u t" "shared (threads_of t) = ctl"
      "handler_at (threads_of t) i = At_Read" "client_threads ctl = client_threads (shared ?T)"
      "reading t = reading s" "arrived t = arrived s" by auto
    with converse_rtranclp_into_rtranclp [of "byte_step h n", OF u(1)] show ?thesis by blast
  qed
qed

lemma byte_reads_on:
  assumes "reads n i (threads_of s)"
    and "reading_goes (ctl_is_running (shared (threads_of s))) (reading s i) (arrived s i) = Some (Turn_Read p, es)"
  obtains t where "byte_step h n s t" "threads_of t = threads_of s" "reading t i = p" "arrived t i = es"
  using byte_step.reads_on [OF assms] by (rule that) simp_all

text \<open>The turns of \<open>read_full\<close>.\<close>

lemma byte_read_full:
  assumes "reads n i (threads_of s)" and "reading s i = In_Read buf"
  shows "case read_full_loop sizeof_package buf (arrived s i) of
      Read_Waiting \<Rightarrow> \<exists>t. (byte_step h n)\<^sup>*\<^sup>* s t \<and> threads_of t = threads_of s \<and> arrived t i = []
    | Read_Done r bs rest \<Rightarrow> \<exists>t. (byte_step h n)\<^sup>*\<^sup>* s t \<and> threads_of t = threads_of s \<and>
        reading_goes (ctl_is_running (shared (threads_of t))) (reading t i) (arrived t i) =
          Some (if r \<le> 0 then Turn_Leaves else package_turn bs, rest)"
  using assms
proof (induction "arrived s i" arbitrary: s buf)
  case Nil
  have "(byte_step h n)\<^sup>*\<^sup>* s s" by simp
  with Nil show ?case
    by (cases "length buf < sizeof_package") (auto simp: sizeof_package_def intro!: exI [of _ s])
next
  case (Cons e es)
  have here: "(byte_step h n)\<^sup>*\<^sup>* s s" by simp
  have step: ?case if goes: "reading_goes (ctl_is_running (shared (threads_of s))) (reading s i) (arrived s i) =
      Some (Turn_Read (In_Read b), es)"
    and loop: "read_full_loop sizeof_package buf (arrived s i) = read_full_loop sizeof_package b es" for b
  proof -
    obtain u where u: "byte_step h n s u" "threads_of u = threads_of s" "reading u i = In_Read b" "arrived u i = es"
      using Cons.prems(1) goes by (rule byte_reads_on)
    have "reads n i (threads_of u)" using Cons.prems(1) u(2) by simp
    from Cons.hyps(1) [OF u(4) [symmetric] this u(3)] u show ?thesis
      unfolding loop
      by (auto split: read_outcome.splits intro: converse_rtranclp_into_rtranclp)
  qed
  show ?case
  proof (cases "length buf < sizeof_package")
    case False
    with Cons here show ?thesis
      by (auto simp: sizeof_package_def Cons.hyps(2) [symmetric] intro!: exI [of _ s])
  next
    case True
    show ?thesis
    proof (cases e)
      case (Read_Bytes bs)
      show ?thesis
      proof (cases "take (sizeof_package - length buf) bs = []")
        case False
        with True Cons Read_Bytes show ?thesis
          by (intro step) (simp_all add: Cons.hyps(2) [symmetric] Let_def del: take_eq_Nil take_eq_Nil2)
      next
        case empty: True
        with True Cons Read_Bytes here show ?thesis
          by (auto simp: Cons.hyps(2) [symmetric] Let_def simp del: take_eq_Nil take_eq_Nil2 intro!: exI [of _ s])
      qed
    next
      case Read_Interrupted
      with True Cons show ?thesis by (intro step) (simp_all add: Cons.hyps(2) [symmetric])
    next
      case Read_Failed
      with True Cons here show ?thesis by (auto simp: Cons.hyps(2) [symmetric] intro!: exI [of _ s])
    qed
  qed
qed

lemma byte_ends:
  assumes "reads n i (threads_of s)"
    and "reading_goes (ctl_is_running (shared (threads_of s))) (reading s i) (arrived s i) = Some (turn, es)"
    and "turn = Turn_Leaves \<or> turn = Turn_Drops"
  obtains t where "byte_step h n s t" "arrived t i = es" "shared (threads_of t) =
    (if turn = Turn_Leaves then hang_up (int i) (shared (threads_of s)) else shared (threads_of s))
      \<lparr>client_threads := remove1 (int i) (client_threads (shared (threads_of s)))\<rparr>"
  using byte_step.ends [OF assms refl] by (rule that) simp_all

lemma byte_package:
  assumes "reads n i (threads_of s)"
    and "reading_goes (ctl_is_running (shared (threads_of s))) (reading s i) (arrived s i) = Some (Turn_Package pkg, es)"
    and "handle_package h (int i) pkg (shared (threads_of s)) = Inr ctl"
  obtains t where "(byte_step h n)\<^sup>*\<^sup>* s t" "reads n i (threads_of t)" "shared (threads_of t) = ctl"
    "reading t i = At_Loop" "arrived t i = es"
proof -
  let ?c = "shared (threads_of s)"
  from handler_runs [of h pkg ?c "int i"] assms(3) obtain q ctl1
    where begins: "handler_begins h pkg ?c = Inr (q, ctl1)"
      and run: "run_thread (handler_goes (int i)) 8 (q, ctl1) = Inr (At_Read, ctl)"
    by (auto simp: res_simps)
  obtain u where u: "byte_step h n s u" "shared (threads_of u) = ctl1" "handler_at (threads_of u) i = q"
    "reading u i = At_Loop" "arrived u i = es"
    using byte_step.has_package [OF assms(1,2) begins] by (rule that) simp_all
  have i: "i < n" "int i \<in> set (client_threads ?c)" using assms(1) by (simp_all add: reads_def)
  have "run_thread (handler_goes (int i)) 8 (handler_at (threads_of u) i, shared (threads_of u)) = Inr (At_Read, ctl)"
    using run u by simp
  from byte_runs_handler [OF i(1) this] obtain t where t: "(byte_step h n)\<^sup>*\<^sup>* u t" "shared (threads_of t) = ctl"
    "handler_at (threads_of t) i = At_Read" "client_threads ctl = client_threads ctl1"
    "reading t = reading u" "arrived t = arrived u" using u(2) by auto
  with i handler_begins_clients [OF begins] have "reads n i (threads_of t)" by (simp add: reads_def)
  moreover have "(byte_step h n)\<^sup>*\<^sup>* s t" using u(1) t(1) by (rule converse_rtranclp_into_rtranclp)
  ultimately show ?thesis using t u by (intro that [of t]) simp_all
qed

text \<open>The state in which \<open>handle_client\<close> leaves the service.\<close>

definition handler_left :: "int \<Rightarrow> client_end \<Rightarrow> 'w controller \<Rightarrow> 'w controller" where
  "handler_left c how ctl =
     (if how = Client_Waiting then ctl else ctl\<lparr>client_threads := remove1 c (client_threads ctl)\<rparr>)"

lemma handler_alone:
  assumes "reads n i (threads_of s)" and "reading s i = At_Loop"
    and "handle_client h (int i) (arrived s i) (shared (threads_of s)) = Inr (how, rest, ctl)"
  shows "\<exists>t. (byte_step h n)\<^sup>*\<^sup>* s t \<and> arrived t i = rest \<and>
    shared (threads_of t) = handler_left (int i) how ctl"
  using assms
proof (induction "arrived s i" arbitrary: s rule: measure_induct_rule [of length])
  case less
  let ?c = "shared (threads_of s)"
  show ?case
  proof (cases "ctl_is_running ?c")
    case False
    with less.prems(3) have res: "how = Client_Disconnected" "rest = arrived s i" "ctl = hang_up (int i) ?c"
      by (auto simp: handle_client.simps)
    have "reading_goes (ctl_is_running ?c) (reading s i) (arrived s i) = Some (Turn_Leaves, arrived s i)"
      using False less.prems(2) by simp
    with less.prems(1) obtain t where "byte_step h n s t" "arrived t i = arrived s i"
      "shared (threads_of t) = (hang_up (int i) ?c)\<lparr>client_threads := remove1 (int i) (client_threads ?c)\<rparr>"
      by (rule byte_ends) simp_all
    with res show ?thesis
      by (intro exI [of _ t]) (auto simp: handler_left_def hang_up_def io_def)
  next
    case True
    obtain u where u: "byte_step h n s u" "threads_of u = threads_of s" "reading u i = In_Read []"
      "arrived u i = arrived s i"
      using less.prems(1,2) True by (rule_tac byte_reads_on [of n i s "In_Read []" "arrived s i"]) simp_all
    have reads: "reads n i (threads_of u)" using less.prems(1) u(2) by simp
    note loop = byte_read_full [OF reads u(3), of h, unfolded u(4), folded read_full_def]
    show ?thesis
    proof (cases "read_full sizeof_package (arrived s i)")
      case Read_Waiting
      with True less.prems(3) have res: "how = Client_Waiting" "rest = []" "ctl = ?c"
        by (auto simp: handle_client.simps)
      from Read_Waiting loop obtain t where t: "(byte_step h n)\<^sup>*\<^sup>* u t" "threads_of t = threads_of s" "arrived t i = []"
        using u(2) by auto
      have "(byte_step h n)\<^sup>*\<^sup>* s t" using u(1) t(1) by (rule converse_rtranclp_into_rtranclp)
      with t res show ?thesis by (intro exI [of _ t]) (simp add: handler_left_def)
    next
      case (Read_Done r bs rest')
      with loop obtain v where v: "(byte_step h n)\<^sup>*\<^sup>* u v" "threads_of v = threads_of s"
        and turn: "reading_goes (ctl_is_running (shared (threads_of v))) (reading v i) (arrived v i) =
          Some (if r \<le> 0 then Turn_Leaves else package_turn bs, rest')"
        using u(2) by auto
      have path: "(byte_step h n)\<^sup>*\<^sup>* s v" using u(1) v(1) by (rule converse_rtranclp_into_rtranclp)
      have reads: "reads n i (threads_of v)" using less.prems(1) v(2) by simp
      let ?p = "decode_package (pad_to sizeof_package bs)"
      show ?thesis
      proof (cases "r \<le> 0 \<or> socket_magic_code ?p \<noteq> SOCKET_MAGIC_CODE")
        case gone: True
        let ?turn = "if r \<le> 0 then Turn_Leaves else package_turn bs"
        have "?turn = Turn_Leaves \<or> ?turn = Turn_Drops" and "?turn = Turn_Leaves \<longleftrightarrow> r \<le> 0"
          using gone by (auto simp: package_turn_def Let_def)
        moreover from reads turn this(1) obtain t where "byte_step h n v t" "arrived t i = rest'"
          "shared (threads_of t) = (if ?turn = Turn_Leaves then hang_up (int i) (shared (threads_of v))
             else shared (threads_of v))\<lparr>client_threads := remove1 (int i) (client_threads (shared (threads_of v)))\<rparr>"
          by (rule byte_ends)
        moreover have "rest = rest' \<and> (r \<le> 0 \<longrightarrow> how = Client_Disconnected \<and> ctl = hang_up (int i) ?c) \<and>
            (0 < r \<longrightarrow> how = Client_Dropped \<and> ctl = ?c)"
          using gone True Read_Done less.prems(3) by (subst (asm) handle_client.simps) (auto simp: Let_def split: if_splits)
        ultimately show ?thesis using path v(2)
          by (intro exI [of _ t]) (auto simp: handler_left_def hang_up_def io_def)
      next
        case False
        with turn have turn: "reading_goes (ctl_is_running (shared (threads_of v))) (reading v i) (arrived v i) =
            Some (Turn_Package ?p, rest')" by (simp add: package_turn_def Let_def)
        from less.prems(3) True Read_Done False obtain ctl1
          where pkg: "handle_package h (int i) ?p ?c = Inr ctl1"
            and more: "handle_client h (int i) rest' ctl1 = Inr (how, rest, ctl)"
          by (subst (asm) handle_client.simps) (auto simp: Let_def res_simps)
        from reads turn pkg [folded v(2)] obtain w where w: "(byte_step h n)\<^sup>*\<^sup>* v w" "reads n i (threads_of w)"
          "shared (threads_of w) = ctl1" "reading w i = At_Loop" "arrived w i = rest'"
          by (rule byte_package)
        have "length (arrived w i) < length (arrived s i)"
          using read_full_consumes [OF Read_Done] False w(5) by simp
        from less.hyps [OF this w(2,4)] w(3,5) more path w(1) show ?thesis
          by (auto intro: rtranclp_trans)
      qed
    qed
  qed
qed

text \<open>
  C13. The byte-level steps of a handler that runs alone add up to \<open>handle_client\<close>: whatever has arrived
  on its socket, they carry out the packages that the function handles, leave the same bytes unread
  and the service in the same state, and the handler ends exactly as the function says.
\<close>

theorem bytes_alone:
  assumes "reads n i (threads_of s)" and "reading s i = At_Loop"
    and "handle_client h (int i) (arrived s i) (shared (threads_of s)) = Inr (how, rest, ctl)"
  shows "\<exists>t. (byte_step h n)\<^sup>*\<^sup>* s t \<and> arrived t i = rest \<and>
    shared (threads_of t) = handler_left (int i) how ctl"
  using assms by (rule handler_alone)

section \<open>A client that connects and sends an order in two pieces\<close>

lemma reach_byte_connected:
  obtains s where "reach byte_init (byte_step h 8) s" "threads_of s = threads_start (connected w)"
    "reading s = (\<lambda>_. At_Loop)" "arrived s = (\<lambda>_. [])"
proof -
  define s0 where "s0 = byte_start (threads_start (started w))"
  define t where "t = threads_start (connected w)"
  have sel: "threads_of s0 = threads_start (started w)" "reading s0 = (\<lambda>_. At_Loop)" "arrived s0 = (\<lambda>_. [])"
    by (simp_all add: s0_def byte_start_def)
  have "threads_init (threads_start (started w))"
    using service_init_started [of w] by (auto simp: threads_init_def)
  then have r0: "reach byte_init (byte_step h 8) s0"
    unfolding s0_def by (intro reach.reach_init) (auto simp: byte_init_def)
  have step: "threads_step h no_package 8 (threads_of s0) t"
    unfolding sel t_def by (rule step_connected)
  have "client_threads (shared (threads_of s0)) = []"
    using service_init_no_clients [OF service_init_started [of w]] by (simp add: sel threads_start_def)
  then have le: "length (client_threads (shared (threads_of s0))) \<le> length (client_threads (shared t))" by simp
  obtain u where u: "byte_step h 8 s0 u" "threads_of u = t" "reading u = (\<lambda>_. At_Loop)" "arrived u = (\<lambda>_. [])"
    using byte_step.threads_go [OF step le] by (rule that) (simp_all add: sel fun_eq_iff)
  show ?thesis by (rule that [OF reach_step [OF r0 u(1)] _ u(3,4)]) (simp add: u(2) t_def)
qed

abbreviation order_pieces :: "read_event list" where
  "order_pieces \<equiv> [Read_Bytes (take 100 (encode_package sample_order)),
     Read_Bytes (drop 100 (encode_package sample_order))]"

lemma order_pieces_carry: "carries order_pieces sample_order"
proof -
  have "length (encode_package sample_order) = 224"
    using sample_order_ok(1) by (simp add: length_encode_package sizeof_package_def)
  then show ?thesis by (auto simp: carries_def ends_with_data_def dest: arg_cong [of _ _ length])
qed

lemma reach_order_arrived:
  obtains s where "reach byte_init (byte_step h 8) s" "threads_of s = threads_start (connected w)"
    "reading s 7 = At_Loop" "arrived s 7 = order_pieces" "reads 8 7 (threads_of s)"
proof -
  obtain s where s: "reach byte_init (byte_step h 8) s" "threads_of s = threads_start (connected w)"
    "reading s = (\<lambda>_. At_Loop)" "arrived s = (\<lambda>_. [])"
    by (rule reach_byte_connected [of h w])
  note r = reach_step [OF reach_step [OF s(1) byte_step.arrives [of h 8 s 7 "hd order_pieces"]]
      byte_step.arrives [of h 8 _ 7 "order_pieces ! 1"]]
  show ?thesis
    by (rule that [OF r]) (simp_all add: s reads_def threads_start_def connected_sel)
qed

lemma order_handled:
  obtains ctl where "handle_client h 7 order_pieces (connected w) = Inr (Client_Waiting, [], ctl)"
    "io_log ctl = io_log (connected w) @ [Io_Write 7 (encode_package (ack_package sample_order 0))]"
proof -
  have ret: "filter_ret sample_order = 0" by (simp add: filter_ret_def)
  obtain ctl where ctl: "handle_package h 7 sample_order (connected w) = Inr ctl"
      "io_log ctl = io_log (connected w) @ [Io_Write 7 (encode_package (ack_package sample_order 0))]"
    using sample_order_ok(1,3) ret by (simp add: handle_orders)
  have "ctl_is_running ctl"
    using handle_package_running [OF ctl(1)] connected_sel(1) by simp
  then have "handle_client h 7 [] ctl = Inr (Client_Waiting, [], ctl)"
    by (subst handle_client.simps) (simp add: read_full_def sizeof_package_def)
  moreover have "handle_client h 7 (order_pieces @ []) (connected w) =
      res_bind (handle_package h 7 sample_order (connected w)) (handle_client h 7 [])"
    by (rule handle_client_step [OF order_pieces_carry sample_order_ok(1)]) (simp_all add: connected_sel)
  ultimately show ?thesis using ctl by (intro that [of ctl]) simp_all
qed

theorem bytes_alone_witness:
  "\<exists>s t. reach byte_init (byte_step (recording_hal :: (string \<times> canframe) list hal) 8) s \<and>
     (byte_step recording_hal 8)\<^sup>*\<^sup>* s t \<and> arrived s 7 = order_pieces \<and> arrived t 7 = [] \<and>
     Io_Write 7 (encode_package (ack_package sample_order 0)) \<in> set (io_log (shared (threads_of t)))"
proof -
  let ?h = "recording_hal :: (string \<times> canframe) list hal"
  obtain s where s: "reach byte_init (byte_step ?h 8) s" "threads_of s = threads_start (connected [])"
    "reading s 7 = At_Loop" "arrived s 7 = order_pieces" "reads 8 7 (threads_of s)"
    by (rule reach_order_arrived [of ?h "[]"])
  obtain ctl where ctl: "handle_client ?h 7 order_pieces (connected []) = Inr (Client_Waiting, [], ctl)"
    "io_log ctl = io_log (connected ([] :: (string \<times> canframe) list)) @
       [Io_Write 7 (encode_package (ack_package sample_order 0))]"
    by (rule order_handled)
  have "handle_client ?h (int 7) (arrived s 7) (shared (threads_of s)) = Inr (Client_Waiting, [], ctl)"
    using ctl(1) by (simp add: s threads_start_def)
  from bytes_alone [OF s(5,3) this] obtain t where "(byte_step ?h 8)\<^sup>*\<^sup>* s t" "arrived t 7 = []"
    "shared (threads_of t) = ctl" by (auto simp: handler_left_def)
  with s(1,4) ctl(2) show ?thesis by (intro exI [of _ s] exI [of _ t]) simp
qed

section \<open>Whatever the clients send\<close>

text \<open>
  C14. The service on bytes refines the service on packages: every state that it reaches, with arbitrary
  messages, signals, errors and ends of connections on its sockets and under every interleaving, is
  one that the threads reach on well-formed packages with the magic code; and no call of \<open>read\<close>
  writes past the package.
\<close>

theorem bytes_refine_packages:
  assumes "reach byte_init (byte_step h n) s"
  shows "reach threads_init (threads_step h checked n) (threads_of s) \<and>
    (\<forall>i buf. reading s i = In_Read buf \<longrightarrow> length buf \<le> sizeof_package)"
  using bytes.reach_abs [OF assms] bytes.reach_inv [OF assms] by (simp add: buffers_ok_def)

theorem bytes_refine_packages_witness:
  "reach threads_init (threads_step (recording_hal :: (string \<times> canframe) list hal) checked 8)
     (threads_start (connected []))"
proof -
  obtain s where s: "reach byte_init (byte_step (recording_hal :: (string \<times> canframe) list hal) 8) s"
    "threads_of s = threads_start (connected [])"
    by (rule reach_order_arrived [of recording_hal "[]"])
  with bytes_refine_packages [OF s(1)] show ?thesis by simp
qed

text \<open>
  C15. Whatever bytes arrive on the sockets, in whatever messages, and however the threads interleave:
  all that the service writes to a client is a whole package of 224 bytes with the magic code, a
  received frame or an acknowledgement of a filter order, which decodes to what was encoded; and no
  thread is about to fault except a handler whose package counts more than 32 identifiers, provided
  the HAL keeps its contract.
\<close>

theorem bytes_in_packages_out:
  assumes "reach byte_init (byte_step h n) s" and "hal_frames_ok h"
    and "\<And>pkg. order_at (handler_at (threads_of s) i) = Some pkg \<Longrightarrow> unat (can_filter_cnt pkg) \<le> 32"
  shows "(\<forall>fd bs. Io_Write fd bs \<in> set (io_log (shared (threads_of s))) \<longrightarrow>
      length bs = sizeof_package \<and> service_package (decode_package bs) \<and>
      encode_package (decode_package bs) = bs) \<and>
    isOK (worker_goes (worker_at (threads_of s)) (shared (threads_of s))) \<and>
    isOK (receive_goes h (receive_at (threads_of s)) (shared (threads_of s))) \<and>
    isOK (handler_goes (int i) (handler_at (threads_of s) i) (shared (threads_of s)))"
proof -
  let ?T = "threads_of s"
  have typed: "typed_inv ?T" by (rule bytes.abs_inv [OF typed.invariant_system_axioms assms(1)])
  have "framed_inv h n ?T" by (rule bytes.abs_inv [OF framed.invariant_system_axioms assms(1)])
  with assms(2) have inv: "threads_inv n ?T" "frames_ok (receive_at ?T)" by (simp_all add: framed_inv_def)
  note invD = threads_invD [OF inv(1)]
  from invD(1) have layer: "layer_inv (can_ipc_receiver (shared ?T))" by (simp add: service_inv_def)
  have "isOK (worker_goes (worker_at ?T) (shared ?T))"
    by (rule isOK_worker_goes) (rule invD(5))
  moreover have "isOK (handler_goes (int i) (handler_at ?T i) (shared ?T))"
    by (rule isOK_handler_goes) (use invD(2) assms(3) in blast)
  ultimately show ?thesis
    using isOK_receive_goes [OF layer inv(2)] typed_written [OF typed] by blast
qed

theorem bytes_in_packages_out_witness:
  "\<exists>s bs. reach byte_init (byte_step (replay_hal []) 8) s \<and>
     Io_Write 7 bs \<in> set (io_log (shared (threads_of s))) \<and> service_package (decode_package bs) \<and>
     isOK (receive_goes (replay_hal []) (receive_at (threads_of s)) (shared (threads_of s)))"
proof -
  let ?h = "replay_hal []"
  obtain s where s: "reach byte_init (byte_step ?h 8) s" "threads_of s = threads_start (connected [])"
    "reading s 7 = At_Loop" "arrived s 7 = order_pieces" "reads 8 7 (threads_of s)"
    by (rule reach_order_arrived [of ?h "[]"])
  obtain ctl where ctl: "handle_client ?h 7 order_pieces (connected []) = Inr (Client_Waiting, [], ctl)"
    "io_log ctl = io_log (connected ([] :: (string \<times> canframe) list)) @
       [Io_Write 7 (encode_package (ack_package sample_order 0))]"
    by (rule order_handled)
  have run: "handle_client ?h (int 7) (arrived s 7) (shared (threads_of s)) = Inr (Client_Waiting, [], ctl)"
    using ctl(1) by (simp add: s threads_start_def)
  obtain t where t: "(byte_step ?h 8)\<^sup>*\<^sup>* s t" "shared (threads_of t) = ctl"
    using handler_alone [OF s(5,3) run] by (auto simp: handler_left_def)
  have reach: "reach byte_init (byte_step ?h 8) t" by (rule reach_rtranclp [OF s(1) t(1)])
  have hal: "hal_frames_ok ?h" by (rule replay_hal_ok) simp
  have "handler_at (threads_of t) 9 = At_Read"
  proof (rule ccontr)
    have "threads_inv 8 (threads_of t)" by (rule bytes.abs_inv [OF threads.invariant_system_axioms reach])
    moreover assume "handler_at (threads_of t) 9 \<noteq> At_Read"
    ultimately show False using threads_invD(4) by fastforce
  qed
  then have "order_at (handler_at (threads_of t) 9) = Some pkg \<Longrightarrow> unat (can_filter_cnt pkg) \<le> 32" for pkg
    by simp
  from bytes_in_packages_out [OF reach hal this] reach t(2) ctl(2) show ?thesis
    by (intro exI [of _ t] exI [of _ "encode_package (ack_package sample_order 0)"]) simp
qed

end
