(* ===== verification/Service_Progress.thy ===== *)
theory Service_Progress
  imports Service_Threads_Race
begin

text \<open>
  The progress of an order to change the filters among the steps of all other threads: it takes eight
  steps of its handler, waits for nobody, and its acknowledgement is written at the fourth. The socket
  is taken to have room for it; \<open>Service_Sockets\<close> has the other case.
\<close>

section \<open>The log only grows\<close>

lemma log_handler:
  "handler_goes c p ctl = Inr (p', ctl') \<Longrightarrow> set (io_log ctl) \<subseteq> set (io_log ctl')"
  by (cases p)
    (auto simp: res_simps change_manager_def change_filter_def direct_can_register_can_filter_def
      direct_can_deregister_can_filter_def write_package_def io_def split: if_splits)

lemma log_grows:
  assumes "threads_step h allowed n s t"
  shows "set (io_log (shared s)) \<subseteq> set (io_log (shared t))"
  using assms
proof cases
  case (connects i)
  have "io_log (accept_connections es ctl) = io_log ctl" for es and ctl :: "'a controller"
    by (induction es ctl rule: accept_connections.induct) (simp_all split: accept_event.splits)
  with connects(1) show ?thesis by simp
next
  case (package i pkg p ctl)
  from package(7) show ?thesis
    by (cases rule: handler_begins_cases) (simp_all add: package(1))
next
  case (handler i p ctl)
  with log_handler [OF handler(4)] show ?thesis by simp
next
  case (receiver p ctl)
  from receiver(2) show ?thesis
    by (cases rule: receive_goes_cases) (simp_all add: receiver(1))
next
  case (worker p ctl)
  from worker(2) show ?thesis
    by (cases rule: worker_goes_cases) (auto simp add: worker(1) write_package_def io_def)
qed (auto simp: hang_up_def io_def stop_def Let_def)

section \<open>The steps of an order\<close>

text \<open>
  A run of the service from \<open>s\<close> to \<open>t\<close> in which handler \<open>i\<close>, from the order it is carrying out to
  its next \<open>read\<close>, takes \<open>k\<close> steps; the others take any.
\<close>

inductive order_run :: "'w hal \<Rightarrow> 'w policy \<Rightarrow> nat \<Rightarrow> nat \<Rightarrow> nat \<Rightarrow> 'w threads \<Rightarrow> 'w threads \<Rightarrow> bool"
  for h :: "'w hal" and allowed :: "'w policy" and n :: nat and i :: nat where
  run_starts: "order_run h allowed n i 0 s s"
| run_other: "order_run h allowed n i k s t \<Longrightarrow> handler_at t i \<noteq> At_Read \<Longrightarrow>
     threads_step h allowed n t u \<Longrightarrow> handler_at u i = handler_at t i \<Longrightarrow> order_run h allowed n i k s u"
| run_own: "order_run h allowed n i k s t \<Longrightarrow> handler_at t i \<noteq> At_Read \<Longrightarrow>
     threads_step h allowed n t u \<Longrightarrow> handler_at u i \<noteq> handler_at t i \<Longrightarrow>
     order_run h allowed n i (Suc k) s u"

lemma order_run_reach:
  "order_run h allowed n i k s t \<Longrightarrow> reach threads_init (threads_step h allowed n) s \<Longrightarrow>
   reach threads_init (threads_step h allowed n) t"
  by (induction rule: order_run.induct) (auto intro: reach_step)

lemma handler_moves:
  assumes inv: "threads_inv n s" and "threads_step h allowed n s t"
    and "handler_at s i \<noteq> At_Read" and "handler_at t i \<noteq> handler_at s i"
  shows "handler_at t i = handler_next (handler_at s i) \<and>
    shared t = handler_effect (int i) (handler_at s i) (shared s)"
  using assms(2)
proof cases
  case (handler j p ctl)
  then have [simp]: "j = i" using assms(4) by (cases "j = i") simp_all
  from handler_goes_Inr [OF handler(4) threads_invD(2) [OF inv]] handler(1) show ?thesis by simp
next
  case (package j pkg p ctl)
  with assms(3,4) show ?thesis by (cases "j = i") simp_all
qed (use assms(4) in simp_all)

lemma eight_steps:
  "(handler_next ^^ 1) (At_Pause_Worker pkg) = At_Manager pkg"
  "(handler_next ^^ 2) (At_Pause_Worker pkg) = At_Filter pkg"
  "(handler_next ^^ 3) (At_Pause_Worker pkg) = At_Ack pkg (filter_ret pkg)"
  "(handler_next ^^ 8) (At_Pause_Worker pkg) = At_Read"
  by (simp_all add: numeral_eq_Suc)

lemma order_run_places:
  assumes "order_run h allowed n i k s t" and "reach threads_init (threads_step h allowed n) s"
    and "handler_at s i = At_Pause_Worker pkg"
  shows "k \<le> 8 \<and> handler_at t i = (handler_next ^^ k) (At_Pause_Worker pkg) \<and>
    (4 \<le> k \<longrightarrow> Io_Write (int i) (encode_package (ack_package pkg (filter_ret pkg))) \<in> set (io_log (shared t)))"
  using assms
proof (induction rule: order_run.induct)
  case (run_starts s)
  then show ?case by simp
next
  case (run_other k s t u)
  with log_grows [OF run_other(3)] show ?case by auto
next
  case (run_own k s t u)
  then have IH: "k \<le> 8" "handler_at t i = (handler_next ^^ k) (At_Pause_Worker pkg)"
    "4 \<le> k \<Longrightarrow> Io_Write (int i) (encode_package (ack_package pkg (filter_ret pkg))) \<in> set (io_log (shared t))"
    by simp_all
  have "threads_inv n t"
    by (rule threads.reach_inv [OF order_run_reach [OF run_own(1,6)]])
  from handler_moves [OF this run_own(3,2,4)] have u: "handler_at u i = (handler_next ^^ Suc k) (At_Pause_Worker pkg)"
    "shared u = handler_effect (int i) (handler_at t i) (shared t)" using IH(2) by simp_all
  have "k \<noteq> 8" using run_own(2) IH(2) eight_steps(4) by metis
  moreover have "Io_Write (int i) (encode_package (ack_package pkg (filter_ret pkg))) \<in> set (io_log (shared u))"
    if "4 \<le> Suc k"
  proof (cases "k = 3")
    case True
    with u(2) IH(2) eight_steps(3) show ?thesis by (simp add: write_package_def io_def)
  next
    case False
    with that IH(3) log_grows [OF run_own(3)] show ?thesis by auto
  qed
  ultimately show ?case using IH(1) u(1) by simp
qed

lemma eight_steps_left:
  "k \<le> 8 \<Longrightarrow> (handler_next ^^ k) (At_Pause_Worker pkg) = At_Read \<longleftrightarrow> k = 8"
  unfolding le_eq_less_or_eq less_eq_Suc_le [symmetric]
  by (auto simp: numeral_eq_Suc less_Suc_eq)

lemma order_at_steps: "order_at ((handler_next ^^ k) (At_Pause_Worker pkg)) = Some pkg' \<Longrightarrow> pkg' = pkg"
  by (induction k arbitrary: pkg') (auto dest: order_at_next)

lemma handler_can_go:
  assumes inv: "threads_inv n t" and at: "handler_at t i \<noteq> At_Read"
    and "\<And>pkg. order_at (handler_at t i) = Some pkg \<Longrightarrow> unat (can_filter_cnt pkg) \<le> 32"
  obtains u where "threads_step h allowed n t u"
    "handler_at u = (handler_at t)(i := handler_next (handler_at t i))"
    "shared u = handler_effect (int i) (handler_at t i) (shared t)"
    "receive_at u = (if handler_at t i = At_Notify_Receiver then wake_receiver (receive_at t) else receive_at t)"
    "worker_at u = (if handler_at t i = At_Notify_Worker then wake_worker (worker_at t) else worker_at t)"
proof -
  note invD = threads_invD [OF inv]
  have "isOK (handler_goes (int i) (handler_at t i) (shared t))"
    by (rule isOK_handler_goes) (use invD(2) assms(3) in blast)
  then obtain p ctl where go: "handler_goes (int i) (handler_at t i) (shared t) = Inr (p, ctl)"
    by (cases "handler_goes (int i) (handler_at t i) (shared t)") auto
  have "i < n" using invD(4) [OF at] by simp
  from threads_step.handler [OF this at go] show ?thesis
    by (rule that) (use handler_goes_Inr [OF go invD(2)] in simp_all)
qed



end
