(* ===== verification/Service_Sockets.thy ===== *)
theory Service_Sockets
  imports Service_Bytes Service_Progress
begin

text \<open>
  The interleaved service with the other side of its sockets. \<open>write\<close> is a blocking call: it waits while
  the client has not read \<open>cap\<close> packages written to it before; and writing to a client that has closed
  its side raises the signal for which the service installs no handler, so that the process ends. As
  long as clients read what they get and stay, the service is that of \<open>Service_Threads\<close>.
\<close>

section \<open>Sockets\<close>

fun writes_to :: "int \<Rightarrow> io_event \<Rightarrow> bool" where
  "writes_to c (Io_Write d bs) \<longleftrightarrow> d = c"
| "writes_to c _ \<longleftrightarrow> False"

text \<open>How often the service has written to a descriptor.\<close>

definition written :: "nat \<Rightarrow> 'w threads \<Rightarrow> nat" where
  "written i s = length (filter (writes_to (int i)) (io_log (shared s)))"

text \<open>
  \<open>unread\<close> counts the packages that a client has yet to read; \<open>closed\<close> are the clients that have closed
  their side, the handlers not having noticed yet.
\<close>

record 'w socket_sys =
  service_at :: "'w threads"
  unread :: "nat \<Rightarrow> nat"
  closed :: "nat set"
  killed :: bool

definition connected_to :: "nat \<Rightarrow> 'w threads \<Rightarrow> bool" where
  "connected_to i s \<longleftrightarrow> int i \<in> set (client_threads (shared s))"

text \<open>
  The steps of the threads, of which one that writes to a client waits for room on its socket
  (\<open>serves\<close>) or ends the process (\<open>is_killed\<close>), and those of the clients. Descriptors that no handler
  reads from are not observed.
\<close>

inductive socket_step :: "'w hal \<Rightarrow> 'w policy \<Rightarrow> nat \<Rightarrow> nat \<Rightarrow> 'w socket_sys \<Rightarrow> 'w socket_sys \<Rightarrow> bool"
  for h :: "'w hal" and allowed :: "'w policy" and n :: nat and cap :: nat where
  serves: "\<not> killed s \<Longrightarrow> threads_step h allowed n (service_at s) t \<Longrightarrow>
     (\<And>i. connected_to i (service_at s) \<Longrightarrow> written i (service_at s) < written i t \<Longrightarrow>
        unread s i < cap \<and> i \<notin> closed s) \<Longrightarrow>
     socket_step h allowed n cap s (s\<lparr>service_at := t,
       unread := (\<lambda>i. if comes i (service_at s) t then 0
                      else unread s i + (written i t - written i (service_at s))),
       closed := {i \<in> closed s. \<not> comes i (service_at s) t}\<rparr>)"
| is_killed: "\<not> killed s \<Longrightarrow> threads_step h allowed n (service_at s) t \<Longrightarrow>
     connected_to i (service_at s) \<Longrightarrow> written i (service_at s) < written i t \<Longrightarrow> i \<in> closed s \<Longrightarrow>
     socket_step h allowed n cap s (s\<lparr>killed := True\<rparr>)"
| client_reads: "0 < unread s i \<Longrightarrow> i \<notin> closed s \<Longrightarrow>
     socket_step h allowed n cap s (s\<lparr>unread := (unread s)(i := unread s i - 1)\<rparr>)"
| client_closes: "connected_to i (service_at s) \<Longrightarrow>
     socket_step h allowed n cap s (s\<lparr>closed := insert i (closed s)\<rparr>)"

inductive_cases socket_stepE: "socket_step h allowed n cap s t"

definition socket_start :: "'w threads \<Rightarrow> 'w socket_sys" where
  "socket_start t = \<lparr>service_at = t, unread = (\<lambda>_. 0), closed = {}, killed = False\<rparr>"

definition socket_init :: "'w socket_sys \<Rightarrow> bool" where
  "socket_init s \<longleftrightarrow> (\<exists>t. threads_init t \<and> s = socket_start t)"

section \<open>What a step of the threads writes\<close>

lemma no_writes [simp]:
  "filter (writes_to c) (io_log (accept_connections es ctl)) = filter (writes_to c) (io_log ctl)"
  "filter (writes_to c) (io_log (hang_up d ctl)) = filter (writes_to c) (io_log ctl)"
  "filter (writes_to c) (io_log (stop ctl)) = filter (writes_to c) (io_log ctl)"
proof -
  show "filter (writes_to c) (io_log (accept_connections es ctl)) = filter (writes_to c) (io_log ctl)"
    by (induction es ctl rule: accept_connections.induct) (simp_all split: accept_event.splits)
qed (simp_all add: hang_up_def io_def stop_def Let_def)

text \<open>A step writes nothing, or an acknowledgement, or a frame to the next client of the worker's list.\<close>

lemma step_writes:
  assumes "threads_step h allowed n s t"
  obtains (silent) "\<forall>c. filter (writes_to c) (io_log (shared t)) = filter (writes_to c) (io_log (shared s))"
      "\<forall>i pkg ret. handler_at s i = At_Ack pkg ret \<longrightarrow> handler_at t i = At_Ack pkg ret"
      "\<forall>pkg i fds. worker_at s = Wrk_Write pkg (int i # fds) \<longrightarrow> worker_at t = worker_at s"
  | (ack) i pkg ret where "i < n" "handler_at s i = At_Ack pkg ret"
      "t = s\<lparr>shared := write_package (int i) (ack_package pkg ret) (shared s),
        handler_at := (handler_at s)(i := At_Resume_Worker)\<rparr>"
  | (frame) pkg i fds where "worker_at s = Wrk_Write pkg (int i # fds)"
      "t = s\<lparr>shared := write_package (int i) pkg (shared s), worker_at := Wrk_Write pkg fds\<rparr>"
  using assms
proof cases
  case (package i pkg p ctl)
  from package(7) have same: "io_log ctl = io_log (shared s)" by (cases rule: handler_begins_cases) simp_all
  show ?thesis by (rule silent) (use package(1,4) same in \<open>auto split: if_splits\<close>)
next
  case (handler i p ctl)
  show ?thesis
  proof (cases "\<exists>pkg ret. handler_at s i = At_Ack pkg ret")
    case True
    then obtain pkg ret where "handler_at s i = At_Ack pkg ret" by blast
    with handler ack [of i pkg ret] show ?thesis by simp
  next
    case False
    with handler(4) have same: "io_log ctl = io_log (shared s)"
      by (cases "handler_at s i")
        (auto simp: res_simps change_manager_def change_filter_def direct_can_register_can_filter_def
          direct_can_deregister_can_filter_def split: if_splits)
    show ?thesis by (rule silent) (use False handler(1) same in \<open>auto split: if_splits\<close>)
  qed
next
  case (receiver p ctl)
  from receiver(2) have same: "io_log ctl = io_log (shared s)"
    by (cases rule: receive_goes_cases) simp_all
  show ?thesis by (rule silent) (use receiver(1) same in \<open>simp_all split: if_splits\<close>)
next
  case (worker p ctl)
  show ?thesis
  proof (cases "\<exists>pkg i fds. worker_at s = Wrk_Write pkg (int i # fds)")
    case True
    with worker show ?thesis by (auto intro: frame)
  next
    case False
    from worker(2) have same: "io_log ctl = io_log (shared s)"
    proof (cases rule: worker_goes_cases)
      case (writes pkg fd fds)
      with False show ?thesis by (metis nonneg_int_cases)
    qed simp_all
    show ?thesis by (rule silent) (use False worker(1) same in \<open>simp_all\<close>)
  qed
qed (rule silent; simp)+

lemma written_package:
  "shared t = write_package (int k) pkg (shared s) \<Longrightarrow>
   written j t = (if j = k then Suc (written j s) else written j s)"
  by (simp add: written_def write_package_def io_def)

lemma written_steps:
  assumes "threads_step h allowed n s t"
  shows "written i s \<le> written i t" and "written i t \<le> Suc (written i s)"
  using assms
  by (cases rule: step_writes; simp add: written_def write_package_def io_def)+

text \<open>Nothing is written to a client that has not read \<open>cap\<close> packages.\<close>

definition room_inv :: "nat \<Rightarrow> 'w socket_sys \<Rightarrow> bool" where
  "room_inv cap s \<longleftrightarrow> (\<forall>i. connected_to i (service_at s) \<longrightarrow> unread s i \<le> cap)"

lemma room_inv_step:
  assumes inv: "room_inv cap s" and "socket_step h allowed n cap s t"
  shows "room_inv cap t"
  using assms(2)
proof cases
  case (serves u)
  have "unread t i \<le> cap" if "connected_to i u" for i
  proof (cases "comes i (service_at s) u")
    case False
    with that have conn: "connected_to i (service_at s)" by (simp add: comes_def connected_to_def)
    show ?thesis
    proof (cases "written i (service_at s) < written i u")
      case True
      with serves(4) [OF conn] have "unread s i < cap" by simp
      with False written_steps [OF serves(3), of i] show ?thesis by (simp add: serves(1))
    next
      case no: False
      with False inv conn show ?thesis by (simp add: serves(1) room_inv_def)
    qed
  qed (simp add: serves(1))
  then show ?thesis by (simp add: serves(1) room_inv_def)
next
  case (client_reads i)
  from inv client_reads(1) show ?thesis by (auto simp: room_inv_def intro: le_trans [OF diff_le_self])
qed (use inv in \<open>simp_all add: room_inv_def\<close>)

interpretation sockets: simulation socket_init "socket_step h allowed n cap" "room_inv cap" threads_init
  "threads_step h allowed n" service_at for h allowed n cap
proof unfold_locales
  fix s t :: "'a socket_sys"
  show "socket_init s \<Longrightarrow> room_inv cap s" "socket_init s \<Longrightarrow> threads_init (service_at s)"
    by (auto simp: socket_init_def socket_start_def room_inv_def)
  show "room_inv cap s \<Longrightarrow> socket_step h allowed n cap s t \<Longrightarrow> room_inv cap t" by (rule room_inv_step)
  show "socket_step h allowed n cap s t \<Longrightarrow>
      threads_step h allowed n (service_at s) (service_at t) \<or> service_at t = service_at s"
    by (erule socket_stepE) simp_all
qed

section \<open>Clients that read at once\<close>

text \<open>In this state nobody keeps a write waiting.\<close>

definition prompt :: "'w socket_sys \<Rightarrow> bool" where
  "prompt s \<longleftrightarrow> unread s = (\<lambda>_. 0) \<and> closed s = {} \<and> \<not> killed s"

lemma written_one:
  assumes "threads_step h allowed n s t"
  obtains (none) "\<forall>i. written i t = written i s"
  | (one) i where "written i t = Suc (written i s)" "\<forall>j. j \<noteq> i \<longrightarrow> written j t = written j s"
      "client_threads (shared t) = client_threads (shared s)"
  using assms
proof (cases rule: step_writes)
  case silent
  show ?thesis by (rule none) (simp add: written_def silent(1))
next
  case (ack i pkg ret)
  show ?thesis by (rule one [of i]) (simp_all add: ack(3) written_def write_package_def io_def)
next
  case (frame pkg i fds)
  show ?thesis by (rule one [of i]) (simp_all add: frame(2) written_def write_package_def io_def)
qed

lemma prompt_step:
  assumes "threads_step h allowed n (service_at s) t" and "prompt s" and "0 < cap"
  shows "\<exists>u. (socket_step h allowed n cap)\<^sup>*\<^sup>* s u \<and> service_at u = t \<and> prompt u"
proof -
  let ?S = "service_at s"
  from assms(2) have pr: "unread s = (\<lambda>_. 0)" "closed s = {}" "\<not> killed s" by (simp_all add: prompt_def)
  have room: "unread s i < cap \<and> i \<notin> closed s" for i using pr assms(3) by simp
  obtain u where u: "socket_step h allowed n cap s u" "service_at u = t" "closed u = {}" "\<not> killed u"
    "unread u = (\<lambda>i. if comes i ?S t then 0 else written i t - written i ?S)"
    using socket_step.serves [OF pr(3) assms(1) room] by (rule that) (simp_all add: pr fun_eq_iff)
  have su: "(socket_step h allowed n cap)\<^sup>*\<^sup>* s u" using u(1) by (rule r_into_rtranclp)
  from assms(1) show ?thesis
  proof (cases rule: written_one)
    case none
    with u su show ?thesis by (intro exI [of _ u]) (simp add: prompt_def fun_eq_iff)
  next
    case (one i)
    have un: "unread u = (\<lambda>_. 0)(i := 1)"
      using one comes_not [OF one(3)] by (auto simp: u(5))
    have "0 < unread u i" "i \<notin> closed u" by (simp_all add: un u(3))
    then obtain v where v: "socket_step h allowed n cap u v" "service_at v = t" "prompt v"
      by (rule that [OF socket_step.client_reads]) (simp_all add: u(2-4) un prompt_def fun_eq_iff)
    have "(socket_step h allowed n cap)\<^sup>*\<^sup>* s v" using su v(1) by (rule rtranclp.rtrancl_into_rtrancl)
    with v show ?thesis by blast
  qed
qed

lemma reach_prompt:
  assumes "reach threads_init (threads_step h allowed n) t" and "0 < cap"
  obtains s where "reach socket_init (socket_step h allowed n cap) s" "service_at s = t" "prompt s"
proof -
  from assms(1) have "\<exists>s. reach socket_init (socket_step h allowed n cap) s \<and> service_at s = t \<and> prompt s"
  proof (induction rule: reach.induct)
    case (reach_init t)
    have "socket_init (socket_start t)" using reach_init by (auto simp: socket_init_def)
    then show ?case
      by (intro exI [of _ "socket_start t"] conjI reach.reach_init) (simp_all add: socket_start_def prompt_def)
  next
    case (reach_step t t')
    then obtain s where s: "reach socket_init (socket_step h allowed n cap) s" "service_at s = t" "prompt s"
      by blast
    from prompt_step [OF _ s(3) assms(2), of h allowed n t'] reach_step(2) s(2)
    obtain u where "(socket_step h allowed n cap)\<^sup>*\<^sup>* s u" "service_at u = t'" "prompt u" by blast
    with reach_rtranclp [OF s(1)] show ?case by blast
  qed
  then show ?thesis using that by blast
qed



section \<open>A client that does not read\<close>

text \<open>A step in which client \<open>i\<close> reads nothing and stays connected.\<close>

definition keeps_unread :: "nat \<Rightarrow> 'w socket_sys \<Rightarrow> 'w socket_sys \<Rightarrow> bool" where
  "keeps_unread i s t \<longleftrightarrow> unread s i \<le> unread t i \<and> i \<notin> closed t \<and> connected_to i (service_at t)"

text \<open>The handler waits to write its acknowledgement, with both pauses set.\<close>

definition stalled :: "nat \<Rightarrow> nat \<Rightarrow> nat \<Rightarrow> SOCKET_PACKAGE_T \<Rightarrow> int \<Rightarrow> 'w socket_sys \<Rightarrow> bool" where
  "stalled n cap i pkg ret s \<longleftrightarrow>
     sole_inv i n (service_at s) \<and> run_inv n (service_at s) \<and> \<not> killed s \<and>
     handler_at (service_at s) i = At_Ack pkg ret \<and>
     receive_phase (receive_at (service_at s)) \<noteq> R_Pass \<and> worker_phase (worker_at (service_at s)) \<noteq> R_Pass \<and>
     connected_to i (service_at s) \<and> cap \<le> unread s i \<and> i \<notin> closed s"

lemma stalled_writes:
  assumes st: "stalled n cap i pkg ret s" and step: "threads_step h allowed n (service_at s) u"
  shows "handler_at u i = At_Ack pkg ret \<and> (\<forall>j. written j u = written j (service_at s)) \<or>
    written i (service_at s) < written i u \<and> (\<forall>j. j \<noteq> i \<longrightarrow> written j u = written j (service_at s))"
  using step
proof (cases rule: step_writes)
  case silent
  with st show ?thesis by (simp add: stalled_def written_def)
next
  case (ack j pkg' ret')
  with st have "j = i" by (cases "j = i") (simp_all add: stalled_def sole_inv_def)
  with ack(3) show ?thesis by (simp add: written_def write_package_def io_def)
next
  case (frame pkg j fds)
  with st show ?thesis by (simp add: stalled_def)
qed

lemma stalled_step:
  assumes st: "stalled n cap i pkg ret s" and step: "socket_step h (only_changer i) n cap s t"
    and keeps: "keeps_unread i s t"
  shows "stalled n cap i pkg ret t \<and> (\<forall>j. written j (service_at t) = written j (service_at s))"
  using step
proof cases
  case (serves u)
  let ?T = "service_at s"
  from st have inv: "sole_inv i n ?T" "run_inv n ?T" and full: "connected_to i ?T" "cap \<le> unread s i"
    and out: "receive_phase (receive_at ?T) \<noteq> R_Pass" "worker_phase (worker_at ?T) \<noteq> R_Pass"
    and at: "pauses_worker (handler_at ?T i)" by (simp_all add: stalled_def)
  have "\<not> written i ?T < written i u" using serves(4) [of i] full by auto
  with stalled_writes [OF st serves(3)]
  have u: "handler_at u i = At_Ack pkg ret" "\<forall>j. written j u = written j ?T" by simp_all
  have "sole_inv i n u" "run_inv n u"
    by (rule sole_inv_step [OF inv(1) serves(3)], rule run_inv_step [OF inv(2) serves(3)])
  with sole_excludes [OF inv serves(3) at out] u keeps st show ?thesis
    by (simp add: stalled_def keeps_unread_def serves(1))
next
  case (is_killed u j)
  have "j \<noteq> i" using is_killed(6) st by (auto simp: stalled_def)
  with stalled_writes [OF st is_killed(3)] is_killed(5) show ?thesis by auto
next
  case (client_reads j)
  with keeps have "j \<noteq> i" by (auto simp: keeps_unread_def)
  with st show ?thesis by (simp add: client_reads(1) stalled_def)
next
  case (client_closes j)
  with keeps have "j \<noteq> i" by (auto simp: keeps_unread_def)
  with st show ?thesis by (simp add: client_closes(1) stalled_def)
qed

lemma stalled_run:
  assumes "(\<lambda>s t. socket_step h (only_changer i) n cap s t \<and> keeps_unread i s t)\<^sup>*\<^sup>* s t"
    and "stalled n cap i pkg ret s"
  shows "stalled n cap i pkg ret t \<and> (\<forall>j. written j (service_at t) = written j (service_at s))"
  using assms
proof (induction rule: rtranclp_induct)
  case (step t u)
  with stalled_step [of n cap i pkg ret t h u] show ?case by simp
qed simp

text \<open>The handler goes on with the next package that its client reads.\<close>

lemma stalled_resumes:
  assumes st: "stalled n cap i pkg ret s" and room: "room_inv cap s" and "0 < cap"
  shows "\<exists>t u. socket_step h allowed n cap s t \<and> socket_step h allowed n cap t u \<and>
    handler_at (service_at u) i = At_Resume_Worker \<and>
    written i (service_at u) = Suc (written i (service_at s))"
proof -
  let ?T = "service_at s" and ?s = "s\<lparr>unread := (unread s)(i := unread s i - 1)\<rparr>"
  let ?ctl = "write_package (int i) (ack_package pkg ret) (shared ?T)"
  from st have at: "handler_at ?T i = At_Ack pkg ret" and alive: "\<not> killed s" and i: "i < n"
    and conn: "connected_to i ?T" "cap \<le> unread s i" "i \<notin> closed s"
    using threads_invD(4) [of n ?T i] by (simp_all add: stalled_def sole_inv_def)
  have full: "unread s i = cap" using conn(1,2) room by (fastforce simp: room_inv_def)
  with assms(3) conn(3) have 1: "socket_step h allowed n cap s ?s"
    by (intro socket_step.client_reads) simp_all
  define u where "u = ?T\<lparr>shared := ?ctl, handler_at := (handler_at ?T)(i := At_Resume_Worker)\<rparr>"
  have step: "threads_step h allowed n (service_at ?s) u"
    using threads_step.handler [of i n ?T At_Resume_Worker ?ctl h allowed] i at by (simp add: u_def)
  have w: "written j u = (if j = i then Suc (written j ?T) else written j ?T)" for j
    by (rule written_package) (simp add: u_def)
  have fits: "unread ?s j < cap \<and> j \<notin> closed ?s"
    if "connected_to j (service_at ?s)" "written j (service_at ?s) < written j u" for j
    using that conn(3) full assms(3) by (cases "j = i") (simp_all add: w)
  have "\<not> killed ?s" using alive by simp
  from socket_step.serves [OF this step fits] obtain v where "socket_step h allowed n cap ?s v" "service_at v = u"
    by (rule that) simp_all
  with 1 w [of i] show ?thesis by (intro exI [of _ ?s] exI [of _ v]) (simp add: u_def)
qed

text \<open>
  C18. A client that does not read stops the delivery to everybody. Once its socket is full and the
  handler is about to write the acknowledgement of its order, with both threads paused, nothing is
  written to any client any more, whatever the other clients do short of changing filters and whatever
  frames arrive: the acknowledgement comes before the resume. It lasts until the client reads a package;
  then the handler can go on.
\<close>

theorem full_socket_stops_delivery:
  assumes "reach socket_init (socket_step h allowed n cap) s" and "\<not> killed s" and "0 < cap"
    and "handler_at (service_at s) i = At_Ack pkg ret" and "\<forall>j. j \<noteq> i \<longrightarrow> handler_at (service_at s) j = At_Read"
    and "receive_ipc_can_task_paused (can_ipc_receiver (shared (service_at s)))"
    and "work_task_queue_paused (can_ipc_receiver (shared (service_at s)))"
    and "receive_phase (receive_at (service_at s)) \<noteq> R_Pass" and "worker_phase (worker_at (service_at s)) \<noteq> R_Pass"
    and "unread s i = cap" and "i \<notin> closed s"
    and "(\<lambda>s t. socket_step h (only_changer i) n cap s t \<and> keeps_unread i s t)\<^sup>*\<^sup>* s t"
  shows "handler_at (service_at t) i = At_Ack pkg ret \<and>
    (\<forall>j. written j (service_at t) = written j (service_at s)) \<and>
    receive_phase (receive_at (service_at t)) \<noteq> R_Pass \<and> worker_phase (worker_at (service_at t)) \<noteq> R_Pass \<and>
    (\<exists>u v. socket_step h allowed n cap t u \<and> socket_step h allowed n cap u v \<and>
       handler_at (service_at v) i = At_Resume_Worker \<and>
       written i (service_at v) = Suc (written i (service_at t)))"
proof -
  let ?T = "service_at s"
  have reach: "reach threads_init (threads_step h allowed n) ?T" by (rule sockets.reach_abs [OF assms(1)])
  have inv: "threads_inv n ?T" "run_inv n ?T"
    by (rule threads.reach_inv [OF reach], rule receive_pause.reach_inv [OF reach])
  have "connected_to i ?T" using threads_invD(4) [OF inv(1), of i] assms(4) by (simp add: connected_to_def)
  with inv assms have st: "stalled n cap i pkg ret s" by (simp add: stalled_def sole_inv_def)
  note run = stalled_run [OF assms(12) st]
  have "(socket_step h (only_changer i) n cap)\<^sup>*\<^sup>* s t"
    by (rule rtranclp_mono [THEN predicate2D, OF _ assms(12)]) auto
  then have "room_inv cap t"
    by (rule sockets.steps_inv) (rule sockets.reach_inv [OF assms(1)])
  with run assms(3) show ?thesis
    using stalled_resumes [of n cap i pkg ret t h allowed] by (simp add: stalled_def)
qed

section \<open>The worker and a client that does not read\<close>

text \<open>The acknowledgements that a log has for a client beyond those of another log.\<close>

definition acks_since :: "'w threads \<Rightarrow> 'w threads \<Rightarrow> nat \<Rightarrow> bool" where
  "acks_since s t j \<longleftrightarrow> (\<exists>orders. filter (writes_to (int j)) (io_log (shared t)) =
     filter (writes_to (int j)) (io_log (shared s)) @
     map (\<lambda>(pkg, ret). Io_Write (int j) (encode_package (ack_package pkg ret))) orders)"

lemma acks_since_refl: "acks_since s s j"
  unfolding acks_since_def by (rule exI [of _ "[]"]) simp

lemma acks_since_same: "acks_since s t j \<Longrightarrow>
    filter (writes_to (int j)) (io_log (shared u)) = filter (writes_to (int j)) (io_log (shared t)) \<Longrightarrow>
    acks_since s u j"
  by (simp add: acks_since_def)

lemma acks_since_ack:
  assumes "acks_since s t j" and "shared u = write_package (int k) (ack_package pkg ret) (shared t)"
  shows "acks_since s u j"
proof (cases "k = j")
  case True
  from assms(1) obtain orders where "filter (writes_to (int j)) (io_log (shared t)) =
     filter (writes_to (int j)) (io_log (shared s)) @
     map (\<lambda>(pkg, ret). Io_Write (int j) (encode_package (ack_package pkg ret))) orders"
    by (auto simp: acks_since_def)
  with assms(2) True show ?thesis
    unfolding acks_since_def by (intro exI [of _ "orders @ [(pkg, ret)]"]) (simp add: write_package_def io_def)
next
  case False
  with assms show ?thesis
    by (intro acks_since_same [OF assms(1)]) (simp add: write_package_def io_def)
qed

definition worker_stuck :: "nat \<Rightarrow> nat \<Rightarrow> worker_place \<Rightarrow> 'w socket_sys \<Rightarrow> bool" where
  "worker_stuck cap i p s \<longleftrightarrow> worker_at (service_at s) = p \<and> connected_to i (service_at s) \<and>
     cap \<le> unread s i \<and> i \<notin> closed s"

lemma worker_stuck_step:
  assumes st: "worker_stuck cap i (Wrk_Write pkg (int i # fds)) s" and step: "socket_step h allowed n cap s t"
    and keeps: "keeps_unread i s t" and since: "acks_since s0 (service_at s) j"
  shows "worker_stuck cap i (Wrk_Write pkg (int i # fds)) t \<and> acks_since s0 (service_at t) j"
  using step
proof cases
  case (serves u)
  have still: "worker_stuck cap i (Wrk_Write pkg (int i # fds)) t" if "worker_at u = worker_at (service_at s)"
    using st keeps that by (simp add: worker_stuck_def keeps_unread_def serves(1))
  from serves(3) show ?thesis
  proof (cases rule: step_writes)
    case silent
    with st still acks_since_same [OF since, of u] show ?thesis
      by (simp add: serves(1) worker_stuck_def)
  next
    case (ack k pkg ret)
    with still acks_since_ack [OF since, of u k pkg ret] show ?thesis by (simp add: serves(1))
  next
    case (frame pkg k fds)
    with st have "k = i" by (simp add: worker_stuck_def)
    with frame(2) have "written i (service_at s) < written i u"
      by (simp add: written_def write_package_def io_def)
    with serves(4) [of i] st show ?thesis by (simp add: worker_stuck_def)
  qed
next
  case (client_reads k)
  with keeps have "k \<noteq> i" by (auto simp: keeps_unread_def)
  with st since show ?thesis by (simp add: client_reads(1) worker_stuck_def)
next
  case (client_closes k)
  with keeps have "k \<noteq> i" by (auto simp: keeps_unread_def)
  with st since show ?thesis by (simp add: client_closes(1) worker_stuck_def)
qed (use st since in \<open>simp add: worker_stuck_def\<close>)

text \<open>
  C19. One slow reader stops the frames of all: while the worker is about to write a frame to a client
  with a full socket, it stays there, and until that client reads no client is written anything but
  acknowledgements of orders, however many frames arrive and whatever the others do.
\<close>

theorem slow_reader_stops_worker:
  assumes "worker_at (service_at s) = Wrk_Write pkg (int i # fds)" and "connected_to i (service_at s)"
    and "cap \<le> unread s i" and "i \<notin> closed s"
    and "(\<lambda>s t. socket_step h allowed n cap s t \<and> keeps_unread i s t)\<^sup>*\<^sup>* s t"
  shows "worker_at (service_at t) = worker_at (service_at s) \<and>
    (\<exists>orders. filter (writes_to (int j)) (io_log (shared (service_at t))) =
       filter (writes_to (int j)) (io_log (shared (service_at s))) @
       map (\<lambda>(pkg, ret). Io_Write (int j) (encode_package (ack_package pkg ret))) orders)"
proof -
  have "worker_stuck cap i (Wrk_Write pkg (int i # fds)) s" using assms(1-4) by (simp add: worker_stuck_def)
  with assms(5) have "worker_stuck cap i (Wrk_Write pkg (int i # fds)) t \<and> acks_since (service_at s) (service_at t) j"
  proof (induction rule: rtranclp_induct)
    case base
    then show ?case by (simp add: acks_since_refl)
  next
    case (step t u)
    with worker_stuck_step [of cap i pkg fds t h allowed n u "service_at s" j] show ?case by simp
  qed
  with assms(1) show ?thesis by (simp add: worker_stuck_def acks_since_def)
qed

section \<open>A client that closes its side\<close>


section \<open>These situations arise\<close>

lemma silent_serves:
  assumes "\<not> killed s" and "threads_step h allowed n (service_at s) u"
    and "\<And>j. written j u = written j (service_at s)"
    and "client_threads (shared u) = client_threads (shared (service_at s))"
  shows "socket_step h allowed n cap s (s\<lparr>service_at := u\<rparr>)"
proof -
  have "unread s i < cap \<and> i \<notin> closed s"
    if "connected_to i (service_at s)" "written i (service_at s) < written i u" for i
    using that assms(3) by simp
  from socket_step.serves [OF assms(1,2) this] show ?thesis
    using comes_not [OF assms(4)] assms(3) by simp
qed

lemma ack_serves:
  assumes "\<not> killed s" and "i < n" and "handler_at (service_at s) i = At_Ack pkg ret"
    and "unread s i < cap" and "i \<notin> closed s"
  obtains t where "socket_step h allowed n cap s t"
    "service_at t = (service_at s)\<lparr>shared := write_package (int i) (ack_package pkg ret) (shared (service_at s)),
       handler_at := (handler_at (service_at s))(i := At_Resume_Worker)\<rparr>"
    "unread t i = Suc (unread s i)" "closed t = closed s" "\<not> killed t"
proof -
  let ?T = "service_at s"
  define u where "u = ?T\<lparr>shared := write_package (int i) (ack_package pkg ret) (shared ?T),
    handler_at := (handler_at ?T)(i := At_Resume_Worker)\<rparr>"
  have w: "written j u = (if j = i then Suc (written j ?T) else written j ?T)" for j
    by (rule written_package) (simp add: u_def)
  have same: "client_threads (shared u) = client_threads (shared ?T)"
    by (simp add: u_def write_package_def io_def)
  have step: "threads_step h allowed n ?T u"
    using threads_step.handler [of i n ?T At_Resume_Worker _ h allowed] assms(2,3) by (simp add: u_def)
  have "unread s j < cap \<and> j \<notin> closed s" if "connected_to j ?T" "written j ?T < written j u" for j
    using that assms(4,5) by (cases "j = i") (simp_all add: w)
  from socket_step.serves [OF assms(1) step this] show ?thesis
    by (rule that) (use assms(1) in \<open>simp_all add: w comes_not [OF same]\<close>, simp add: u_def)
qed

lemma stops_serves:
  assumes "\<not> killed s" and "connected_to i (service_at s)" and "i \<notin> closed s"
  obtains t where "socket_step h allowed n cap s t" "keeps_unread i s t"
    "shared (service_at t) = stop (shared (service_at s))"
proof -
  let ?T = "service_at s"
  define u where "u = ?T\<lparr>shared := stop (shared ?T)\<rparr>"
  have u: "shared u = stop (shared ?T)" by (simp add: u_def)
  have same: "client_threads (shared u) = client_threads (shared ?T)" by (simp add: u stop_def Let_def)
  have "socket_step h allowed n cap s (s\<lparr>service_at := u\<rparr>)"
    using assms(1) threads_step.stops [of h allowed n ?T] same
    by (intro silent_serves) (simp_all add: u_def written_def)
  then show ?thesis
    by (rule that) (use assms same in \<open>simp_all add: u keeps_unread_def connected_to_def\<close>)
qed

text \<open>The worker is about to write a frame to client 7, which has had an order acknowledged and reads nothing.\<close>

lemma reach_writing:
  obtains s pkg fds where "reach threads_init (threads_step (replay_hal two_frames) disciplined 8) s"
    "worker_at s = Wrk_Write pkg (int 7 # fds)" "handler_at s 7 = At_Read" "connected_to 7 s"
proof -
  let ?h = "replay_hal two_frames" and ?m = "socket_client_manager (serving ([] :: (string \<times> canframe) list))"
  let ?f = "rx_frame ((sample_canframe 8)\<lparr>canid := 2\<rparr>)"
  obtain s g where s: "reach threads_init (threads_step ?h disciplined 8) s"
    "worker_at s = Wrk_Run (g, ?f)" "handler_at s 7 = At_Read" "int 7 \<in> set (client_threads (shared s))"
    "socket_client_manager (shared s) = ?m"
    by (rule reach_taken)
  have g: "g = Some Socket_Receive_Callback"
    using threads_invD(5) [OF threads.reach_inv [OF s(1)] s(2)] by simp
  have "set (receivers ?m 2) = {7}"
    using serving_sel(1,2) [of "[] :: (string \<times> canframe) list"] by (simp add: reverse_ok_def)
  then obtain fds where fds: "map_of (socket_client_reverse_index ?m) 2 = Some (7 # fds)"
    by (cases "receivers ?m 2") (auto simp: receivers_def umap_at_def split: option.splits)
  have "frame_id ?f = 2" by (simp add: rx_frame_def)
  with s(2,5) g fds have go: "worker_goes (worker_at s) (shared s) = Inr (Wrk_Write (receive_package ?f) (int 7 # fds), shared s)"
    by simp
  from reach_step [OF s(1) threads_step.worker [OF go]] s(3,4) show ?thesis
    by (intro that) (assumption, simp_all add: connected_to_def)
qed


theorem slow_reader_stops_worker_witness:
  "\<exists>s t. reach socket_init (socket_step (replay_hal two_frames) anything 8 1) s \<and>
     socket_step (replay_hal two_frames) anything 8 1 s t \<and> unread s 7 = 1 \<and>
     \<not> ctl_is_running (shared (service_at t)) \<and> (\<exists>pkg fds. worker_at (service_at t) = Wrk_Write pkg (7 # fds))"
proof -
  let ?h = "replay_hal two_frames"
  obtain T pkg fds where T: "reach threads_init (threads_step ?h disciplined 8) T"
    "worker_at T = Wrk_Write pkg (int 7 # fds)" "handler_at T 7 = At_Read" "connected_to 7 T"
    by (rule reach_writing)
  have lt: "7 < (8 :: nat)" and any: "anything (int 7) sample_order (shared T)"
    by (simp, simp only: anything_def)
  obtain U where U: "reach threads_init (threads_step ?h anything 8) U" "handler_at U = (handler_at T)(7 := At_Filter sample_order)"
    "worker_at U = worker_at T" "client_threads (shared U) = client_threads (shared T)"
    using reach_anything [OF T(1)] lt T(4) [unfolded connected_to_def] T(3) sample_order_ok any
    by (rule handler_to_tables)
  have inv: "threads_inv 8 U" by (rule threads.reach_inv [OF U(1)])
  have at: "handler_at U 7 = At_Filter sample_order" using U(2) by simp
  obtain V where V: "threads_step ?h anything 8 U V"
    "handler_at V = (handler_at U)(7 := handler_next (handler_at U 7))"
    "shared V = handler_effect (int 7) (handler_at U 7) (shared U)"
    "worker_at V = (if handler_at U 7 = At_Notify_Worker then wake_worker (worker_at U) else worker_at U)"
    using inv by (rule handler_can_go [of 8 U 7 ?h anything]) (use at sample_order_ok(3) in simp_all)
  have V': "handler_at V 7 = At_Ack sample_order (filter_ret sample_order)" "worker_at V = worker_at U"
    "client_threads (shared V) = client_threads (shared U)" by (simp_all add: V(2-4) at)
  obtain s where s: "reach socket_init (socket_step ?h anything 8 1) s" "service_at s = V" "prompt s"
    using reach_prompt [OF reach_step [OF U(1) V(1)], of 1] by auto
  then have s': "\<not> killed s" "handler_at (service_at s) 7 = At_Ack sample_order (filter_ret sample_order)"
    "unread s 7 < 1" "7 \<notin> closed s" using V'(1) by (simp_all add: prompt_def)
  obtain t where t: "socket_step ?h anything 8 1 s t" "unread t 7 = Suc (unread s 7)" "closed t = closed s" "\<not> killed t"
    "worker_at (service_at t) = worker_at V" "connected_to 7 (service_at t)"
    using s'(1) lt s'(2-4)
    by (rule ack_serves [of s 7 8 _ _ 1 ?h anything])
      (use s(2) T(4) U(4) V'(3) in \<open>simp_all add: connected_to_def write_package_def io_def\<close>)
  have full: "unread t 7 = 1" "1 \<le> unread t 7" "7 \<notin> closed t" using t(2,3) s(3) by (simp_all add: prompt_def)
  have at: "worker_at (service_at t) = Wrk_Write pkg (int 7 # fds)" using t(5) V'(2) U(3) T(2) by simp
  obtain u where u: "socket_step ?h anything 8 1 t u" "keeps_unread 7 t u"
    "shared (service_at u) = stop (shared (service_at t))"
    using t(4,6) full(3) by (rule stops_serves)
  have "(\<lambda>s t. socket_step ?h anything 8 1 s t \<and> keeps_unread 7 s t)\<^sup>*\<^sup>* t u" using u(1,2) by blast
  from slow_reader_stops_worker [OF at t(6) full(2,3) this] at
  have "worker_at (service_at u) = Wrk_Write pkg (7 # fds)" by simp
  moreover have "reach socket_init (socket_step ?h anything 8 1) t" using s(1) t(1) by (rule reach_step)
  moreover have "\<not> ctl_is_running (shared (service_at u))" by (simp add: u(3) stop_def Let_def)
  ultimately show ?thesis using u(1) full(1) by blast
qed

text \<open>Client 7 with one package to read at most, where its handler is and what it has not read.\<close>

definition order_place :: "handler_place \<Rightarrow> nat \<Rightarrow> (string \<times> canframe) list socket_sys \<Rightarrow> bool" where
  "order_place p k s \<longleftrightarrow> reach socket_init (socket_step recording_hal (only_changer 7) 8 1) s \<and>
     \<not> killed s \<and> closed s = {} \<and> unread s 7 = k \<and> handler_at (service_at s) 7 = p \<and>
     receive_at (service_at s) = Rcv_Start \<and> worker_at (service_at s) = Wrk_Test \<and> connected_to 7 (service_at s)"

lemma order_place_silent:
  assumes at: "order_place p k s" and step: "threads_step recording_hal (only_changer 7) 8 (service_at s) u"
    and same: "\<And>j. written j u = written j (service_at s)" "client_threads (shared u) = client_threads (shared (service_at s))"
    and "receive_at u = Rcv_Start" "worker_at u = Wrk_Test"
  shows "order_place (handler_at u 7) k (s\<lparr>service_at := u\<rparr>)"
proof -
  have "\<not> killed s" using at by (simp add: order_place_def)
  from silent_serves [OF this step same] have "socket_step recording_hal (only_changer 7) 8 1 s (s\<lparr>service_at := u\<rparr>)" .
  with at assms(5,6) same(2) show ?thesis
    by (auto simp: order_place_def connected_to_def intro: reach_step)
qed

lemma order_place_next:
  assumes at: "order_place p k s" and p: "p \<noteq> At_Read" "\<And>pkg ret. p \<noteq> At_Ack pkg ret"
    and cnt: "\<And>pkg. order_at p = Some pkg \<Longrightarrow> unat (can_filter_cnt pkg) \<le> 32"
  obtains t where "order_place (handler_next p) k t"
proof -
  let ?T = "service_at s"
  have "threads_inv 8 ?T" using at sockets.abs_inv [OF threads.invariant_system_axioms]
    by (auto simp: order_place_def)
  then obtain u where u: "threads_step recording_hal (only_changer 7) 8 ?T u"
    "handler_at u = (handler_at ?T)(7 := handler_next (handler_at ?T 7))"
    "shared u = handler_effect (int 7) (handler_at ?T 7) (shared ?T)"
    "receive_at u = (if handler_at ?T 7 = At_Notify_Receiver then wake_receiver (receive_at ?T) else receive_at ?T)"
    "worker_at u = (if handler_at ?T 7 = At_Notify_Worker then wake_worker (worker_at ?T) else worker_at ?T)"
    by (rule handler_can_go [of 8 ?T 7 recording_hal "only_changer 7"])
      (use at p(1) cnt in \<open>simp_all add: order_place_def\<close>)
  have p': "handler_at ?T 7 = p" "receive_at ?T = Rcv_Start" "worker_at ?T = Wrk_Test"
    using at by (simp_all add: order_place_def)
  have "written j u = written j ?T" for j
    using p by (cases p) (auto simp: written_def u(3) p')
  with u p' order_place_silent [OF at u(1)] have "order_place (handler_at u 7) k (s\<lparr>service_at := u\<rparr>)" by auto
  then show ?thesis using u(2) p'(1) by (intro that) simp
qed

lemma order_place_package:
  assumes "order_place At_Read k s"
  obtains t where "order_place (At_Pause_Worker sample_order) k t"
proof -
  let ?T = "service_at s"
  define u where "u = ?T\<lparr>shared := on_receiver pause_receive_ipc_can_task (shared ?T),
    handler_at := (handler_at ?T)(7 := At_Pause_Worker sample_order)\<rparr>"
  have at: "handler_at ?T 7 = At_Read" "int 7 \<in> set (client_threads (shared ?T))" "7 < (8 :: nat)"
    using assms by (simp_all add: order_place_def connected_to_def)
  have ok: "only_changer 7 (int 7) sample_order (shared ?T)" by (simp add: only_changer_def)
  have "threads_step recording_hal (only_changer 7) 8 ?T u"
    unfolding u_def
    by (rule threads_step.package [where allowed = "only_changer 7", OF at(3,2,1) sample_order_ok(1) ok])
      (rule handler_begins_filter [OF sample_order_ok(2)])
  from order_place_silent [OF assms this] assms have "order_place (handler_at u 7) k (s\<lparr>service_at := u\<rparr>)"
    by (simp add: u_def written_def order_place_def)
  then show ?thesis by (intro that) (simp add: u_def)
qed

lemma order_place_ack:
  assumes "order_place (At_Ack pkg ret) 0 s"
  obtains t where "order_place At_Resume_Worker 1 t"
proof -
  let ?T = "service_at s"
  from assms have at: "\<not> killed s" "7 < (8 :: nat)" "handler_at ?T 7 = At_Ack pkg ret" "unread s 7 < 1" "7 \<notin> closed s"
    by (simp_all add: order_place_def)
  obtain t where t: "socket_step recording_hal (only_changer 7) 8 1 s t"
    "service_at t = ?T\<lparr>shared := write_package (int 7) (ack_package pkg ret) (shared ?T),
       handler_at := (handler_at ?T)(7 := At_Resume_Worker)\<rparr>"
    "unread t 7 = Suc (unread s 7)" "closed t = closed s" "\<not> killed t"
    using at by (rule ack_serves)
  have "order_place At_Resume_Worker 1 t"
    using assms t by (auto simp: order_place_def connected_to_def write_package_def io_def intro: reach_step)
  then show ?thesis by (rule that)
qed

lemma order_place_acknowledges:
  assumes "order_place At_Read k s"
  obtains t where "order_place (At_Ack sample_order (filter_ret sample_order)) k t"
proof -
  have cnt: "sample_order = pkg \<Longrightarrow> unat (can_filter_cnt pkg) \<le> 32" for pkg
    using sample_order_ok(3) by metis
  from assms obtain s1 where "order_place (At_Pause_Worker sample_order) k s1" by (rule order_place_package)
  then obtain s2 where "order_place (At_Manager sample_order) k s2"
    by (rule order_place_next) (use cnt in simp_all)
  then obtain s3 where "order_place (At_Filter sample_order) k s3"
    by (rule order_place_next) (use cnt in simp_all)
  then show ?thesis
    by (rule order_place_next) (use cnt that in simp_all)
qed

lemma order_place_full:
  obtains s where "order_place (At_Ack sample_order (filter_ret sample_order)) 1 s"
proof -
  let ?h = "recording_hal :: (string \<times> canframe) list hal" and ?w = "[] :: (string \<times> canframe) list"
  obtain s0 where s0: "reach socket_init (socket_step ?h (only_changer 7) 8 1) s0"
    "service_at s0 = threads_start (connected ?w)" "prompt s0"
    using reach_prompt [OF reach_connected [of ?h "only_changer 7" ?w], of 1] by auto
  then have "order_place At_Read 0 s0"
    by (simp add: order_place_def prompt_def threads_start_def connected_to_def connected_sel)
  then obtain s1 where "order_place (At_Ack sample_order (filter_ret sample_order)) 0 s1"
    by (rule order_place_acknowledges)
  then obtain s2 where "order_place At_Resume_Worker 1 s2" by (rule order_place_ack)
  then obtain s3 where "order_place At_Notify_Worker 1 s3" by (rule order_place_next) simp_all
  then obtain s4 where "order_place At_Resume_Receiver 1 s4" by (rule order_place_next) simp_all
  then obtain s5 where "order_place At_Notify_Receiver 1 s5" by (rule order_place_next) simp_all
  then obtain s6 where "order_place At_Read 1 s6" by (rule order_place_next) simp_all
  then show ?thesis by (rule order_place_acknowledges) (rule that)
qed

theorem full_socket_stops_delivery_witness:
  "\<exists>s t. order_place (At_Ack sample_order (filter_ret sample_order)) 1 s \<and>
     socket_step recording_hal (only_changer 7) 8 1 s t \<and> \<not> ctl_is_running (shared (service_at t)) \<and>
     handler_at (service_at t) 7 = At_Ack sample_order (filter_ret sample_order) \<and>
     (\<exists>u v. socket_step recording_hal (only_changer 7) 8 1 t u \<and>
        socket_step recording_hal (only_changer 7) 8 1 u v \<and>
        handler_at (service_at v) 7 = At_Resume_Worker)"
proof -
  obtain s where s: "order_place (At_Ack sample_order (filter_ret sample_order)) 1 s" by (rule order_place_full)
  then have at: "reach socket_init (socket_step recording_hal (only_changer 7) 8 1) s" "\<not> killed s"
    "handler_at (service_at s) 7 = At_Ack sample_order (filter_ret sample_order)" "unread s 7 = 1" "7 \<notin> closed s"
    "receive_phase (receive_at (service_at s)) \<noteq> R_Pass" "worker_phase (worker_at (service_at s)) \<noteq> R_Pass"
    "connected_to 7 (service_at s)"
    by (simp_all add: order_place_def)
  have "sole_inv 7 8 (service_at s)"
    by (rule sockets.abs_inv [OF sole.invariant_system_axioms at(1)])
  with at(3) have sole: "\<forall>j. j \<noteq> 7 \<longrightarrow> handler_at (service_at s) j = At_Read"
    "receive_ipc_can_task_paused (can_ipc_receiver (shared (service_at s)))"
    "work_task_queue_paused (can_ipc_receiver (shared (service_at s)))"
    by (simp_all add: sole_inv_def)
  obtain t where t: "socket_step recording_hal (only_changer 7) 8 1 s t" "keeps_unread 7 s t"
    "shared (service_at t) = stop (shared (service_at s))"
    using at(2,8,5) by (rule stops_serves)
  have run: "(\<lambda>s t. socket_step recording_hal (only_changer 7) 8 1 s t \<and> keeps_unread 7 s t)\<^sup>*\<^sup>* s t"
    using t(1,2) by blast
  have "\<not> ctl_is_running (shared (service_at t))" by (simp add: t(3) stop_def Let_def)
  with full_socket_stops_delivery [OF at(1,2) _ at(3) sole at(6,7,4,5) run] s t(1) show ?thesis
    by (intro exI [of _ s] exI [of _ t]) auto
qed

end
