(* ===== verification/Service_Correct.thy ===== *)
theory Service_Correct
  imports Service Controller_Correct
begin

text \<open>
  Starting and stopping the service: when a start succeeds and what it leaves behind when it does
  not, that stopping ends every loop, how handlers end, and what the program does to the HAL.
\<close>

section \<open>The end of a handler\<close>

lemma count_list_append: "count_list (xs @ ys) x = count_list xs x + count_list ys x"
  by (induction xs) simp_all

lemma handle_package_closes:
  assumes "handle_package h c pkg ctl = Inr ctl'"
  shows "count_list (io_log ctl') (Io_Close d) = count_list (io_log ctl) (Io_Close d)"
  using assms
  by (cases "socket_order pkg")
    (auto simp: handle_package_def handle_send_def direct_can_send_def handle_add_filter_def
      handle_remove_filter_def direct_can_register_can_filter_def write_package_def
      direct_can_deregister_can_filter_def direct_receiver Let_def res_simps count_list_append)

lemma hang_up_sel [simp]:
  "io_log (hang_up c ctl) = io_log ctl @ [Io_Close c]"
  "(c, i) \<notin> subscribed (socket_client_manager (hang_up c ctl))"
  by (simp_all add: hang_up_def subscribed_clean)

lemma handle_client_end:
  assumes "handle_client h c es ctl = Inr (e, rest, ctl')"
  shows "count_list (io_log ctl') (Io_Close c) =
      count_list (io_log ctl) (Io_Close c) + (if e = Client_Disconnected then 1 else 0) \<and>
    (e = Client_Disconnected \<longrightarrow> (c, i) \<notin> subscribed (socket_client_manager ctl'))"
  using assms
proof (induction h c es ctl rule: handle_client.induct)
  case (1 h c es ctl)
  show ?case
  proof (cases "ctl_is_running ctl")
    case False
    with 1(2) show ?thesis
      by (auto simp: handle_client.simps [of h c es ctl] count_list_append)
  next
    case running: True
    show ?thesis
    proof (cases "read_full sizeof_package es")
      case Read_Waiting
      with running 1(2) show ?thesis by (auto simp: handle_client.simps [of h c es ctl])
    next
      case (Read_Done n bs rest')
      let ?p = "decode_package (pad_to sizeof_package bs)"
      consider "n \<le> 0" | "0 < n" "socket_magic_code ?p \<noteq> SOCKET_MAGIC_CODE"
        | "0 < n" "socket_magic_code ?p = SOCKET_MAGIC_CODE"
        by linarith
      then show ?thesis
      proof cases
        case 3
        with running Read_Done 1(2) obtain ctl1
          where "handle_package h c ?p ctl = Inr ctl1" "handle_client h c rest' ctl1 = Inr (e, rest, ctl')"
          by (auto simp: handle_client.simps [of h c es ctl] Let_def res_simps)
        with 1(1) [of n bs rest'] running Read_Done 3 handle_package_closes
        show ?thesis by simp
      qed (use running Read_Done 1(2) in
          \<open>auto simp: handle_client.simps [of h c es ctl] Let_def count_list_append\<close>)
    qed
  qed
qed

text \<open>
  C35. A handler closes the descriptor of its client exactly once when it ends through its last
  lines, and then the client has no subscriptions left, whatever it sent; it never closes it when it
  is still waiting or has ended early.
\<close>

theorem handler_closes_once:
  assumes "handle_client h c es ctl = Inr (e, rest, ctl')"
  shows "count_list (io_log ctl') (Io_Close c) =
      count_list (io_log ctl) (Io_Close c) + (if e = Client_Disconnected then 1 else 0) \<and>
    (e = Client_Disconnected \<longrightarrow> (c, i) \<notin> subscribed (socket_client_manager ctl'))"
  using assms by (rule handle_client_end)

theorem handler_closes_once_witness:
  "handle_client recording_hal 7 [Read_Bytes []] (one_subscription []) =
     Inr (Client_Disconnected, [], hang_up 7 (one_subscription [])) \<and>
   (7, 2) \<notin> subscribed (socket_client_manager
     (hang_up 7 (one_subscription ([] :: (string \<times> canframe) list))))"
proof -
  have eq: "handle_client recording_hal 7 [Read_Bytes []] (one_subscription []) =
      Inr (Client_Disconnected, [], hang_up 7 (one_subscription []))"
    by (simp add: handle_client_close)
  with handler_closes_once [OF eq, of 2] show ?thesis by blast
qed

section \<open>Starting\<close>

lemma accept_connections_frame [simp]:
  "io_log (accept_connections es ctl) = io_log ctl"
  "can_ipc_receiver (accept_connections es ctl) = can_ipc_receiver ctl"
  "service_socket (accept_connections es ctl) = service_socket ctl"
  "ctl_is_running (accept_connections es ctl) = ctl_is_running ctl"
  "hal_world (accept_connections es ctl) = hal_world ctl"
  by (induction es ctl rule: accept_connections.induct) (auto split: accept_event.split)

text \<open>The addresses: the directory that is created, and the whole path in the socket address.\<close>

lemma socket_paths:
  "father_path ipc_can_socket_server_path = Some ''/tmp/ipc_can_layer''"
  "sun_path ipc_can_socket_server_path = ipc_can_socket_server_path"
  by (simp_all add: father_path_def find_last_of_def ipc_can_socket_server_path_def sun_path_def)

definition start_succeeds :: "syscalls \<Rightarrow> bool" where
  "start_succeeds sys \<longleftrightarrow> (socket_file_exists sys \<longrightarrow> unlink_succeeds sys) \<and>
     socket_result sys \<noteq> - 1 \<and> bind_succeeds sys \<and> listen_succeeds sys \<and> chmod_succeeds sys"

lemma start_controller_io:
  "io_log (snd (start_controller sys es ctl)) = io_log ctl @
     (if socket_file_exists sys then [Io_Unlink ipc_can_socket_server_path] else []) @
     (if socket_file_exists sys \<and> \<not> unlink_succeeds sys \<or> socket_result sys = - 1 then []
      else (if father_path_exists sys then [] else [Io_Mkdir ''/tmp/ipc_can_layer'']) @
        [Io_Bind (socket_result sys) ipc_can_socket_server_path] @
        (if \<not> bind_succeeds sys then [Io_Close (socket_result sys)]
         else Io_Listen (socket_result sys) 10 #
           (if \<not> listen_succeeds sys then [Io_Close (socket_result sys)]
            else Io_Chmod ipc_can_socket_server_path #
              (if \<not> chmod_succeeds sys then [Io_Close (socket_result sys)] else []))))"
  by (simp add: start_controller_def Let_def socket_paths direct_receiver)

text \<open>
  C38. The start of the service succeeds exactly when the old socket file could be removed and the
  socket be created, bound, put to listening and opened to all users; only then do the two threads of
  the receiver run, one of each, and port 5 is polled. When it fails the receiver is untouched and,
  if a socket had been created, closing it is the last thing done.
\<close>

theorem start_controller_outcome:
  "fst (start_controller sys es ctl) = start_succeeds sys \<and>
   can_ipc_receiver (snd (start_controller sys es ctl)) =
     (if start_succeeds sys
      then lib_start_can_ipc_receiver (lib_enable_can_receiver_port CAN_PORT_5 (can_ipc_receiver ctl))
      else can_ipc_receiver ctl) \<and>
   (\<not> start_succeeds sys \<and> (socket_file_exists sys \<longrightarrow> unlink_succeeds sys) \<and> socket_result sys \<noteq> - 1
      \<longrightarrow> last (io_log (snd (start_controller sys es ctl))) = Io_Close (socket_result sys))"
proof (intro conjI)
  show "fst (start_controller sys es ctl) = start_succeeds sys"
    by (simp add: start_controller_def Let_def start_succeeds_def socket_paths)
  show "can_ipc_receiver (snd (start_controller sys es ctl)) =
     (if start_succeeds sys
      then lib_start_can_ipc_receiver (lib_enable_can_receiver_port CAN_PORT_5 (can_ipc_receiver ctl))
      else can_ipc_receiver ctl)"
    by (simp add: start_controller_def Let_def start_succeeds_def socket_paths direct_receiver)
  show "\<not> start_succeeds sys \<and> (socket_file_exists sys \<longrightarrow> unlink_succeeds sys) \<and> socket_result sys \<noteq> - 1
      \<longrightarrow> last (io_log (snd (start_controller sys es ctl))) = Io_Close (socket_result sys)"
    unfolding start_controller_io start_succeeds_def by (auto simp: last_append)
qed

theorem start_controller_outcome_witness:
  "last (io_log (snd (start_controller
     \<lparr>socket_file_exists = True, unlink_succeeds = True, socket_result = 3,
      father_path_exists = True, bind_succeeds = True, listen_succeeds = False,
      chmod_succeeds = True\<rparr> [] (empty_controller ())))) = Io_Close 3"
  using start_controller_outcome [of "\<lparr>socket_file_exists = True, unlink_succeeds = True,
      socket_result = 3, father_path_exists = True, bind_succeeds = True, listen_succeeds = False,
      chmod_succeeds = True\<rparr>" "[]" "empty_controller ()"]
  by (simp add: start_succeeds_def)

section \<open>Stopping\<close>

lemma stop_sel [simp]:
  "\<not> ctl_is_running (stop ctl)"
  "service_socket (stop ctl) = - 1"
  "socket_client_manager (stop ctl) = socket_client_manager ctl"
  "can_ipc_receiver (stop ctl) = can_ipc_receiver ctl"
  by (simp_all add: stop_def Let_def)

text \<open>
  Stopping ends the service and may be repeated: a second stop does nothing, no connection is
  accepted any more, and every handler ends at its next turn, removing and closing its client.
\<close>

theorem stop_ends_loops:
  "stop (stop ctl) = stop ctl \<and> accept_connections es (stop ctl) = stop ctl \<and>
   handle_client h c evs (stop ctl) = Inr (Client_Disconnected, evs, hang_up c (stop ctl))"
proof (intro conjI)
  have "(stop ctl)\<lparr>ctl_is_running := False\<rparr> = stop ctl"
    by (simp add: stop_def Let_def io_def)
  then show "stop (stop ctl) = stop ctl" by (simp add: stop_def [of "stop ctl"])
  show "accept_connections es (stop ctl) = stop ctl" by (cases es) simp_all
  show "handle_client h c evs (stop ctl) = Inr (Client_Disconnected, evs, hang_up c (stop ctl))"
    by (subst handle_client.simps) simp
qed

text \<open>
  The descriptor of the service socket outlives it: after a start that failed once the socket was
  created, a stop shuts down and closes the same descriptor again, which by then may belong to
  something else.
\<close>

theorem failed_start_closes_twice:
  assumes "start_controller sys es ctl = (False, ctl')"
    and "socket_file_exists sys \<longrightarrow> unlink_succeeds sys" and "socket_result sys \<noteq> - 1"
  defines "fd \<equiv> socket_result sys"
  shows "\<exists>log. io_log (stop ctl') = log @ [Io_Close fd, Io_Shutdown fd, Io_Close fd]"
proof -
  from assms have "\<not> start_succeeds sys" and ctl': "ctl' = snd (start_controller sys es ctl)"
    by (auto simp: start_controller_def Let_def start_succeeds_def socket_paths split: if_splits)
  then have "\<exists>log. io_log ctl' = log @ [Io_Close fd]"
    using assms(2,3) unfolding ctl' start_controller_io start_succeeds_def fd_def by auto
  moreover have "service_socket ctl' = fd"
    using assms by (auto simp: start_controller_def Let_def socket_paths split: if_splits)
  ultimately show ?thesis using assms(3) by (auto simp: stop_def Let_def fd_def)
qed

theorem failed_start_closes_twice_witness:
  "io_log (stop (snd (start_controller
     \<lparr>socket_file_exists = False, unlink_succeeds = True, socket_result = 3,
      father_path_exists = True, bind_succeeds = False, listen_succeeds = True,
      chmod_succeeds = True\<rparr> [] (empty_controller ())))) =
    [Io_Bind 3 ipc_can_socket_server_path, Io_Close 3, Io_Shutdown 3, Io_Close 3] \<and>
   (\<exists>log. io_log (stop (snd (start_controller
     \<lparr>socket_file_exists = False, unlink_succeeds = True, socket_result = 3,
      father_path_exists = True, bind_succeeds = False, listen_succeeds = True,
      chmod_succeeds = True\<rparr> [] (empty_controller ())))) =
    log @ [Io_Close 3, Io_Shutdown 3, Io_Close 3])"
proof -
  let ?sys = "\<lparr>socket_file_exists = False, unlink_succeeds = True, socket_result = 3,
      father_path_exists = True, bind_succeeds = False, listen_succeeds = True,
      chmod_succeeds = True\<rparr>"
  let ?ctl = "snd (start_controller ?sys [] (empty_controller ()))"
  have "start_controller ?sys [] (empty_controller ()) = (False, ?ctl)"
    by (simp add: start_controller_def Let_def socket_paths)
  moreover have "io_log (stop ?ctl) =
      [Io_Bind 3 ipc_can_socket_server_path, Io_Close 3, Io_Shutdown 3, Io_Close 3]"
    by (simp add: start_controller_def Let_def socket_paths stop_def)
  ultimately show ?thesis
    using failed_start_closes_twice [of ?sys "[]" "empty_controller ()" ?ctl] by simp
qed

section \<open>The program\<close>

lemma stop_test_loop_eq: "stop_test_loop c = (if 180 < unat c then 0 else 181 - unat c)"
proof (induction c rule: stop_test_loop.induct)
  case (1 c)
  have "unat (c + 1) = Suc (unat c)" if "unat c \<le> 180"
    using that by (simp add: unat_word_ariths)
  with 1 show ?case
    by (subst stop_test_loop.simps) (auto simp: word_less_nat_alt not_less)
qed

text \<open>
  The test thread stops the service after 181 seconds: its counter is a byte, and the bound of
  180 is low enough for the counter not to wrap around before it is passed.
\<close>

theorem stop_test_thread_stops:
  "stop_test_thread ctl = (181, stop ctl)"
  by (simp add: stop_test_thread_def stop_test_loop_eq)

text \<open>
  The program ends the HAL twice: \<open>main\<close> does it when the server thread has ended, and the
  destructor of the layer, whose reference count is still one, does it again. The HAL is started
  once, if the configuration directory could be linked.
\<close>

theorem main_deinits_twice:
  assumes "main h fs sys es w = Returns ctl"
  shows "\<exists>is_ready fs'. copy_ipc_config_data fs = Returns (is_ready, fs') \<and>
    hal_world ctl = canDeInit h (canDeInit h (if is_ready then snd (canInit h w) else w))"
proof -
  have hal: "hal_world (snd (start_controller sys es c)) = hal_world c" for c :: "'w controller"
    by (simp add: start_controller_def Let_def direct_receiver split: option.split)
  let ?w = "\<lambda>b. if b then snd (canInit h w) else w"
  show ?thesis
  proof (cases "copy_ipc_config_data fs")
    case (Throws e)
    with assms show ?thesis by (simp add: main_def new_CAN_IPC_LAYER_IMPL_def init_can_dev_def)
  next
    case (Returns p)
    obtain b fs' where p: "p = (b, fs')" by (cases p)
    have "init_can_dev h fs w = Returns (fs', ?w b)"
      by (simp add: init_can_dev_def Returns p)
    then have "ctl = ctl\<lparr>hal_world := canDeInit h (canDeInit h (?w b))\<rparr>"
      using assms
      by (auto simp: main_def new_CAN_IPC_LAYER_IMPL_def delete_CAN_IPC_LAYER_IMPL_def Let_def
          server_thread_def hal deinit_can_dev_def controller_deinit_can_dev_def new_controller_def)
    then have "hal_world ctl = canDeInit h (canDeInit h (?w b))" by (rule arg_cong [THEN trans]) simp
    with Returns p show ?thesis by simp
  qed
qed

text \<open>A HAL that counts how often it is ended.\<close>

definition counting_hal :: "nat hal" where
  "counting_hal =
     \<lparr>canInit = (\<lambda>w. (0, w)), canDeInit = Suc, canSendMsgFrame = (\<lambda>_ _ _ w. (1, w)),
      canRecvMsgFrame = (\<lambda>_ buf p w. (buf, p, w)), sizeof_canframe = 80, sizeof_data = 64,
      system_clock_ms = (\<lambda>w. (0, w)), steady_clock_ms = (\<lambda>w. (0, w)),
      malloc_succeeds = (\<lambda>_. True)\<rparr>"

definition sample_file_system :: file_system where
  "sample_file_system =
     \<lparr>current_path_exists = True, so_path_exists = True, so_path_is_directory = True,
      config_exists = True, symlink_succeeds = True\<rparr>"

theorem main_deinits_twice_witness:
  "\<exists>ctl. main counting_hal sample_file_system
     \<lparr>socket_file_exists = False, unlink_succeeds = True, socket_result = - 1,
      father_path_exists = True, bind_succeeds = True, listen_succeeds = True,
      chmod_succeeds = True\<rparr> [] 0 = Returns ctl \<and> hal_world ctl = 2"
proof -
  let ?sys = "\<lparr>socket_file_exists = False, unlink_succeeds = True, socket_result = - 1,
      father_path_exists = True, bind_succeeds = True, listen_succeeds = True,
      chmod_succeeds = True\<rparr>"
  have fs: "copy_ipc_config_data sample_file_system = Returns (True, sample_file_system)"
    by (simp add: copy_ipc_config_data_def sample_file_system_def)
  then obtain ctl where ctl: "main counting_hal sample_file_system ?sys [] 0 = Returns ctl"
    by (simp add: main_def new_CAN_IPC_LAYER_IMPL_def init_can_dev_def Let_def case_prod_unfold)
  with main_deinits_twice [OF ctl] fs show ?thesis by (auto simp: counting_hal_def)
qed

end
