(* ===== verification/Service_End.thy ===== *)
theory Service_End
  imports Service_Threads_Race Service_Correct
begin

text \<open>
  The end of the process (\<^verbatim>\<open>src/api/can_ipc_layer.cpp\<close>): \<open>main\<close> goes on when the accept loop has
  ended, ends the HAL, sleeps and returns, and the singletons are destroyed in the reverse order of
  their construction, all of it interleaved with the threads of the service, which are detached.
\<close>

section \<open>The main thread among the others\<close>

text \<open>
  What the main thread is about to do: to join the server thread, to end the HAL, to return (with
  the destruction of the controller, which does nothing), to destroy the layer, the receiver and the
  queue. (The sender, between layer and receiver, has no destructor of its own.)
\<close>

datatype exit_place = At_Join | At_Deinit | At_Return | At_Layer | At_Receiver | At_Queue | At_End

fun main_exits :: "'w hal \<Rightarrow> exit_place \<Rightarrow> 'w controller \<Rightarrow> exit_place \<times> 'w controller" where
  "main_exits h At_Join ctl = (At_Deinit, ctl)"
| "main_exits h At_Deinit ctl = (At_Return, controller_deinit_can_dev h ctl)"
| "main_exits h At_Return ctl = (At_Layer, ctl)"
| "main_exits h At_Layer ctl =
     (At_Receiver, ctl\<lparr>hal_world := snd (delete_CAN_IPC_LAYER_IMPL h 1 (hal_world ctl))\<rparr>)"
| "main_exits h At_Receiver ctl = (At_Queue, on_receiver delete_CAN_IPC_RECEIVER ctl)"
| "main_exits h At_Queue ctl =
     (At_End, on_receiver (\<lambda>r. r\<lparr>work_queue_handle := wq_stop (work_queue_handle r)\<rparr>) ctl)"
| "main_exits h At_End ctl = (At_End, ctl)"

fun run_exits :: "'w hal \<Rightarrow> nat \<Rightarrow> exit_place \<times> 'w controller \<Rightarrow> exit_place \<times> 'w controller" where
  "run_exits h 0 x = x"
| "run_exits h (Suc k) (p, ctl) = run_exits h k (main_exits h p ctl)"

text \<open>Alone, these are the steps of \<open>main\<close> after the server thread.\<close>

lemma main_runs_exits:
  assumes "new_CAN_IPC_LAYER_IMPL h fs 0 w = (cnt, Returns (fs', w'))"
  shows "main h fs sys accepts w = Returns (snd (run_exits h 5 (At_Join, server_thread sys accepts
    (new_controller \<lparr>socket_client_index = [], socket_client_reverse_index = []\<rparr> new_CAN_IPC_RECEIVER w'))))"
proof -
  have "cnt = 1" using assms by (simp add: new_CAN_IPC_LAYER_IMPL_def)
  then show ?thesis
    using assms by (simp add: main_def Let_def numeral_eq_Suc on_receiver_def)
qed

record 'w process =
  process_threads :: "'w threads"
  exit_at :: exit_place

text \<open>
  The threads run until the process ends. New clients are accepted before the join only; the end of
  the accept loop is an answer of the system and may come at any time.
\<close>

inductive process_step :: "'w hal \<Rightarrow> 'w policy \<Rightarrow> nat \<Rightarrow> 'w process \<Rightarrow> 'w process \<Rightarrow> bool"
  for h :: "'w hal" and allowed :: "'w policy" and n :: nat where
  thread_goes: "exit_at s \<noteq> At_End \<Longrightarrow> threads_step h allowed n (process_threads s) t \<Longrightarrow>
     exit_at s = At_Join \<or>
       set (client_threads (shared t)) \<subseteq> set (client_threads (shared (process_threads s))) \<Longrightarrow>
     process_step h allowed n s (s\<lparr>process_threads := t\<rparr>)"
| exits: "exit_at s \<noteq> At_End \<Longrightarrow> main_exits h (exit_at s) (shared (process_threads s)) = (p, ctl) \<Longrightarrow>
     process_step h allowed n s (s\<lparr>exit_at := p, process_threads := (process_threads s)\<lparr>shared := ctl,
       worker_at := (if exit_at s = At_Queue then notify_queue (worker_at (process_threads s))
                     else worker_at (process_threads s))\<rparr>\<rparr>)"

inductive_cases process_stepE: "process_step h allowed n s t"

definition process_start :: "'w threads \<Rightarrow> 'w process" where
  "process_start t = \<lparr>process_threads = t, exit_at = At_Join\<rparr>"

definition process_init :: "'w process \<Rightarrow> bool" where
  "process_init s \<longleftrightarrow> (\<exists>t. threads_init t \<and> s = process_start t)"

lemma process_start_sel [simp]:
  "process_threads (process_start t) = t" "exit_at (process_start t) = At_Join"
  by (simp_all add: process_start_def)

lemma reach_process_start:
  "reach threads_init (threads_step h allowed n) t \<Longrightarrow>
   reach process_init (process_step h allowed n) (process_start t)"
proof (induction rule: reach.induct)
  case (reach_init t)
  then show ?case by (intro reach.reach_init) (auto simp: process_init_def)
next
  case (reach_step t u)
  have "process_step h allowed n (process_start t) ((process_start t)\<lparr>process_threads := u\<rparr>)"
    by (rule process_step.thread_goes) (use reach_step in simp_all)
  moreover have "(process_start t)\<lparr>process_threads := u\<rparr> = process_start u" by (simp add: process_start_def)
  ultimately show ?case using reach_step.IH by (metis reach.reach_step)
qed

section \<open>The HAL is used after its end\<close>

text \<open>The receive thread is about to call the HAL.\<close>

fun polls :: "receive_place \<Rightarrow> 'w controller \<Rightarrow> bool" where
  "polls (Rcv_Ports ts ((s, t) # us)) ctl \<longleftrightarrow> is_received_port (can_ipc_receiver ctl) s"
| "polls _ ctl \<longleftrightarrow> False"

lemma exit_step:
  assumes "exit_at s \<noteq> At_End" and "main_exits h (exit_at s) (shared (process_threads s)) = (p, ctl)"
  obtains t where "process_step h allowed n s t" "exit_at t = p" "shared (process_threads t) = ctl"
    "receive_at (process_threads t) = receive_at (process_threads s)"
    "handler_at (process_threads t) = handler_at (process_threads s)"
  using process_step.exits [OF assms] by (rule that) simp_all

text \<open>
  C27. The program ends the HAL before it stops the receiver: from every reachable state in which the
  receive thread is about to poll a port, a state is reachable in which \<open>main\<close> and then the
  destructor of the layer have ended the HAL and the thread still is about to call it.
\<close>

theorem hal_used_after_end:
  assumes "reach process_init (process_step h allowed n) s" and "exit_at s = At_Join"
    and "polls (receive_at (process_threads s)) (shared (process_threads s))"
  shows "\<exists>t. reach process_init (process_step h allowed n) t \<and> exit_at t = At_Receiver \<and>
    hal_world (shared (process_threads t)) = canDeInit h (canDeInit h (hal_world (shared (process_threads s)))) \<and>
    polls (receive_at (process_threads t)) (shared (process_threads t))"
proof -
  let ?R = "reach process_init (process_step h allowed n)"
  let ?c = "shared (process_threads s)" and ?r = "receive_at (process_threads s)"
  obtain s1 where s1: "process_step h allowed n s s1" "exit_at s1 = At_Deinit"
    "shared (process_threads s1) = ?c" "receive_at (process_threads s1) = ?r"
    by (rule exit_step [of s h]) (simp_all add: assms(2))
  obtain s2 where s2: "process_step h allowed n s1 s2" "exit_at s2 = At_Return"
    "shared (process_threads s2) = controller_deinit_can_dev h ?c" "receive_at (process_threads s2) = ?r"
    by (rule exit_step [of s1 h]) (simp_all add: s1)
  obtain s3 where s3: "process_step h allowed n s2 s3" "exit_at s3 = At_Layer"
    "shared (process_threads s3) = controller_deinit_can_dev h ?c" "receive_at (process_threads s3) = ?r"
    by (rule exit_step [of s2 h]) (simp_all add: s2)
  let ?c4 = "(controller_deinit_can_dev h ?c)\<lparr>hal_world := snd (delete_CAN_IPC_LAYER_IMPL h 1
    (hal_world (controller_deinit_can_dev h ?c)))\<rparr>"
  obtain s4 where s4: "process_step h allowed n s3 s4" "exit_at s4 = At_Receiver"
    "shared (process_threads s4) = ?c4" "receive_at (process_threads s4) = ?r"
    by (rule exit_step [of s3 h]) (simp_all add: s3)
  have "?R s4"
    by (rule reach_step [OF reach_step [OF reach_step [OF reach_step [OF assms(1) s1(1)] s2(1)] s3(1)] s4(1)])
  moreover have "polls ?r ?c4"
    using assms(3) by (cases "(?r, ?c)" rule: polls.cases) (simp_all add: controller_deinit_can_dev_def)
  moreover have "hal_world ?c4 = canDeInit h (canDeInit h (hal_world ?c))"
    by (simp add: controller_deinit_can_dev_def delete_CAN_IPC_LAYER_IMPL_def deinit_can_dev_def)
  ultimately show ?thesis by (intro exI [of _ s4]) (simp add: s4)
qed

text \<open>The receive thread of a service with one subscriber polls port 5.\<close>

lemma reach_polling:
  obtains s where "reach process_init (process_step (replay_hal []) disciplined 8) s" "exit_at s = At_Join"
    "polls (receive_at (process_threads s)) (shared (process_threads s))"
proof -
  let ?h = "replay_hal []" and ?ctl = "serving ([] :: (string \<times> canframe) list)"
  let ?ts = "map (\<lambda>s. (s, port_target (can_ipc_receiver ?ctl) s)) all_slots"
  let ?t = "(threads_start ?ctl)\<lparr>shared := ?ctl, receive_at := Rcv_Ports ?ts ?ts\<rparr>"
  have "run_thread (receive_goes ?h) 2 (Rcv_Start, ?ctl) = Inr (Rcv_Ports ?ts ?ts, ?ctl)"
    using serving_receiver(4) [of "[] :: (string \<times> canframe) list"]
    by (simp add: numeral_2_eq_2 targets_eq [OF serving_receiver(1)] flags_def)
  then have "reach threads_init (threads_step ?h disciplined 8) ?t"
    by (intro reach_receiver_runs [OF reach_serving_threads, where k = 2]) (simp_all add: threads_start_def)
  from reach_process_start [OF this] show ?thesis
    by (rule that) (simp_all add: all_slots_def serving_receiver(2) serving_sel)
qed

theorem hal_used_after_end_witness:
  "\<exists>t. reach process_init (process_step (replay_hal []) disciplined 8) t \<and> exit_at t = At_Receiver \<and>
    polls (receive_at (process_threads t)) (shared (process_threads t))"
proof -
  obtain s where "reach process_init (process_step (replay_hal []) disciplined 8) s" "exit_at s = At_Join"
    "polls (receive_at (process_threads s)) (shared (process_threads s))"
    by (rule reach_polling)
  from hal_used_after_end [OF this] show ?thesis by blast
qed

section \<open>The queue is destroyed under its worker\<close>

text \<open>The worker is inside \<open>dequeue_blocking\<close>.\<close>

fun in_queue :: "worker_place \<Rightarrow> bool" where
  "in_queue Wrk_Dequeue \<longleftrightarrow> True"
| "in_queue Wrk_Wait \<longleftrightarrow> True"
| "in_queue _ \<longleftrightarrow> False"

definition quiet_step :: "'w hal \<Rightarrow> 'w policy \<Rightarrow> nat \<Rightarrow> 'w process \<Rightarrow> 'w process \<Rightarrow> bool" where
  "quiet_step h allowed n s t \<longleftrightarrow>
     process_step h allowed n s t \<and> queue_length (shared (process_threads t)) = 0"

lemma in_queue_wake [simp]:
  "in_queue (wake_worker p) \<longleftrightarrow> in_queue p \<and> p \<noteq> Wrk_Sleep" "in_queue (notify_queue p) \<longleftrightarrow> in_queue p"
  by (cases p; simp)+

lemma in_queue_threads:
  assumes "threads_step h allowed n s t" and "in_queue (worker_at s)" and "queue_length (shared s) = 0"
  shows "in_queue (worker_at t)"
  using assms(1)
proof cases
  case (worker p ctl)
  with assms(2,3) show ?thesis
    by (cases "worker_at s") (auto simp: queue_length_def wq_size_def dequeue_blocking_def)
qed (use assms(2) in auto)

lemma in_queue_step:
  assumes "process_step h allowed n s t" and "in_queue (worker_at (process_threads s))"
    and "queue_length (shared (process_threads s)) = 0"
  shows "in_queue (worker_at (process_threads t))"
  using assms(1)
proof cases
  case (thread_goes u)
  with in_queue_threads [OF thread_goes(3) assms(2,3)] show ?thesis by simp
qed (use assms(2) in simp)

lemma in_queue_steps:
  assumes "(quiet_step h allowed n)\<^sup>*\<^sup>* s t" and "in_queue (worker_at (process_threads s))"
    and "queue_length (shared (process_threads s)) = 0"
  shows "in_queue (worker_at (process_threads t)) \<and> queue_length (shared (process_threads t)) = 0"
  using assms(1)
  by (induction rule: rtranclp_induct) (use assms(2,3) in \<open>auto simp: quiet_step_def intro: in_queue_step\<close>)

fun exits_left :: "exit_place \<Rightarrow> nat" where
  "exits_left At_Join = 6"
| "exits_left At_Deinit = 5"
| "exits_left At_Return = 4"
| "exits_left At_Layer = 3"
| "exits_left At_Receiver = 2"
| "exits_left At_Queue = 1"
| "exits_left At_End = 0"

lemma main_exits_quiet:
  assumes "main_exits h p ctl = (p', ctl')"
  shows "queue_length ctl' = queue_length ctl" and "p \<noteq> At_End \<Longrightarrow> exits_left p' < exits_left p"
  using assms
  by (cases p; auto simp: queue_length_def wq_size_def wq_stop_def controller_deinit_can_dev_def
      delete_CAN_IPC_RECEIVER_def)+

lemma process_can_end:
  assumes "queue_length (shared (process_threads s)) = 0"
  shows "\<exists>t. (quiet_step h allowed n)\<^sup>*\<^sup>* s t \<and> exit_at t = At_End"
  using assms
proof (induction "exits_left (exit_at s)" arbitrary: s rule: less_induct)
  case less
  show ?case
  proof (cases "exit_at s = At_End")
    case False
    obtain p ctl where e: "main_exits h (exit_at s) (shared (process_threads s)) = (p, ctl)" by fastforce
    obtain u where u: "process_step h allowed n s u" "exit_at u = p" "shared (process_threads u) = ctl"
      using False e by (rule exit_step)
    with main_exits_quiet [OF e] less(2) False have "quiet_step h allowed n s u"
      "exits_left (exit_at u) < exits_left (exit_at s)" "queue_length (shared (process_threads u)) = 0"
      by (simp_all add: quiet_step_def)
    with less(1) [of u] show ?thesis by (meson converse_rtranclp_into_rtranclp)
  qed blast
qed

text \<open>
  C26. Neither \<open>stop\<close> nor the destructors release the worker: when it waits on an empty queue, it stays
  inside \<open>dequeue_blocking\<close> through everything that \<open>main\<close>, the destructors, the clients and the
  receive thread do, as long as nothing is queued; and \<open>main\<close> can go to its end meanwhile, which
  destroys the queue with its mutex and its condition while the worker waits on them.
\<close>

theorem worker_outlives_queue:
  assumes "in_queue (worker_at (process_threads s))" and "queue_length (shared (process_threads s)) = 0"
  shows "(\<forall>t. (quiet_step h allowed n)\<^sup>*\<^sup>* s t \<longrightarrow> in_queue (worker_at (process_threads t))) \<and>
    (\<exists>t. (quiet_step h allowed n)\<^sup>*\<^sup>* s t \<and> exit_at t = At_End)"
  using in_queue_steps [OF _ assms] process_can_end [OF assms(2)] by blast

theorem worker_outlives_queue_witness:
  "\<exists>s t. reach process_init (process_step (replay_hal two_frames) disciplined 8) s \<and>
     (quiet_step (replay_hal two_frames) disciplined 8)\<^sup>*\<^sup>* s t \<and> exit_at t = At_End \<and>
     in_queue (worker_at (process_threads t))"
proof -
  let ?s = "process_start batch_at_hand"
  have s: "reach process_init (process_step (replay_hal two_frames) disciplined 8) ?s"
    by (rule reach_process_start) (rule reach_batch_at_hand)
  have "in_queue (worker_at (process_threads ?s))"
    by (simp add: batch_at_hand_def Let_def)
  moreover have "queue_length (shared (process_threads ?s)) = 0"
    by (simp add: batch_at_hand_def Let_def queue_length_def wq_size_def serving_sel)
  ultimately show ?thesis using worker_outlives_queue [of ?s] s by blast
qed

end
