(* ===== verification/Layer_Instances.thy ===== *)
theory Layer_Instances
  imports Layer_Impl
begin

text \<open>
  Several instances of the layer: the reference count that all of them share
  (\<open>can_dev_ref_count\<close> in \<^verbatim>\<open>can_ipc_layer_impl.hpp\<close>), and when the HAL is started and ended. The
  mutex that the constructor and the destructor lock is a member of the instance, so it keeps no
  two instances apart: the count and what follows from it are two steps here. The program itself makes
  a single instance, through \<open>getInstance\<close>; the class, with its public constructor and its count, is
  written for several.
\<close>

section \<open>Constructors and destructors in steps\<close>

datatype hal_call = Hal_Init | Hal_Deinit

text \<open>
  An instance does not exist, has raised the count from zero and is about to start the HAL, exists,
  has lowered the count to zero and is about to end the HAL, or has failed to come into existence.
\<close>

datatype instance_place = Absent | Starting | Present | Ending | Failed

record 'w instances =
  ref_count :: int
  instance_at :: "nat \<Rightarrow> instance_place"
  disk :: file_system
  instances_world :: 'w
  hal_calls :: "hal_call list"

definition init_calls :: "file_system \<Rightarrow> hal_call list" where
  "init_calls fs = (case copy_ipc_config_data fs of Returns (True, _) \<Rightarrow> [Hal_Init] | _ \<Rightarrow> [])"

inductive instances_step :: "'w hal \<Rightarrow> nat \<Rightarrow> nat \<Rightarrow> 'w instances \<Rightarrow> 'w instances \<Rightarrow> bool"
  for h :: "'w hal" and n :: nat and i :: nat where
  counts_up: "i < n \<Longrightarrow> instance_at s i = Absent \<Longrightarrow>
     instances_step h n i s (s\<lparr>ref_count := ref_count s + 1,
       instance_at := (instance_at s)(i := if ref_count s = 0 then Starting else Present)\<rparr>)"
| inits: "i < n \<Longrightarrow> instance_at s i = Starting \<Longrightarrow>
     init_can_dev h (disk s) (instances_world s) = Returns (fs, w) \<Longrightarrow>
     instances_step h n i s (s\<lparr>instance_at := (instance_at s)(i := Present), disk := fs,
       instances_world := w, hal_calls := hal_calls s @ init_calls (disk s)\<rparr>)"
| fails: "i < n \<Longrightarrow> instance_at s i = Starting \<Longrightarrow>
     init_can_dev h (disk s) (instances_world s) = Throws e \<Longrightarrow>
     instances_step h n i s (s\<lparr>instance_at := (instance_at s)(i := Failed)\<rparr>)"
| counts_down: "i < n \<Longrightarrow> instance_at s i = Present \<Longrightarrow>
     instances_step h n i s (s\<lparr>ref_count := ref_count s - 1,
       instance_at := (instance_at s)(i := if ref_count s - 1 = 0 then Ending else Absent)\<rparr>)"
| ends: "i < n \<Longrightarrow> instance_at s i = Ending \<Longrightarrow>
     instances_step h n i s (s\<lparr>instance_at := (instance_at s)(i := Absent),
       instances_world := deinit_can_dev h (instances_world s), hal_calls := hal_calls s @ [Hal_Deinit]\<rparr>)"

inductive_cases instances_stepE: "instances_step h n i s t"

definition instances_start :: "file_system \<Rightarrow> 'w \<Rightarrow> 'w instances" where
  "instances_start fs w =
     \<lparr>ref_count = 0, instance_at = (\<lambda>_. Absent), disk = fs, instances_world = w, hal_calls = []\<rparr>"

definition instances_init :: "'w instances \<Rightarrow> bool" where
  "instances_init s \<longleftrightarrow> (\<exists>fs w. s = instances_start fs w)"

text \<open>The steps and their effect.\<close>

lemma step_up:
  assumes "i < n" and "instance_at s i = Absent"
  obtains t where "instances_step h n i s t" "ref_count t = ref_count s + 1" "disk t = disk s"
    "instances_world t = instances_world s" "hal_calls t = hal_calls s"
    "instance_at t = (instance_at s)(i := if ref_count s = 0 then Starting else Present)"
  using instances_step.counts_up [OF assms, of h] by (rule that) simp_all

lemma step_down:
  assumes "i < n" and "instance_at s i = Present"
  obtains t where "instances_step h n i s t" "ref_count t = ref_count s - 1" "disk t = disk s"
    "instances_world t = instances_world s" "hal_calls t = hal_calls s"
    "instance_at t = (instance_at s)(i := if ref_count s - 1 = 0 then Ending else Absent)"
  using instances_step.counts_down [OF assms, of h] by (rule that) simp_all

lemma step_inits:
  assumes "i < n" and "instance_at s i = Starting" and "init_can_dev h (disk s) (instances_world s) = Returns (fs, w)"
  obtains t where "instances_step h n i s t" "ref_count t = ref_count s" "disk t = fs" "instances_world t = w"
    "hal_calls t = hal_calls s @ init_calls (disk s)" "instance_at t = (instance_at s)(i := Present)"
  using instances_step.inits [OF assms] by (rule that) simp_all

lemma step_fails:
  assumes "i < n" and "instance_at s i = Starting" and "init_can_dev h (disk s) (instances_world s) = Throws e"
  obtains t where "instances_step h n i s t" "ref_count t = ref_count s" "hal_calls t = hal_calls s"
    "instance_at t = (instance_at s)(i := Failed)"
  using instances_step.fails [OF assms] by (rule that) simp_all

lemma step_ends:
  assumes "i < n" and "instance_at s i = Ending"
  obtains t where "instances_step h n i s t" "ref_count t = ref_count s"
    "hal_calls t = hal_calls s @ [Hal_Deinit]" "instance_at t = (instance_at s)(i := Absent)"
  using instances_step.ends [OF assms, of h] by (rule that) simp_all

text \<open>A constructor, and a destructor, that nobody interrupts are those of \<open>Layer_Impl\<close>.\<close>

lemma constructor_alone:
  assumes "i < n" and "instance_at s i = Absent"
    and "new_CAN_IPC_LAYER_IMPL h (disk s) (ref_count s) (instances_world s) = (cnt, Returns (fs, w))"
  shows "\<exists>t. (instances_step h n i)\<^sup>*\<^sup>* s t \<and> instance_at t i = Present \<and> ref_count t = cnt \<and>
    disk t = fs \<and> instances_world t = w"
proof -
  obtain s1 where up: "instances_step h n i s s1"
    and s1: "instance_at s1 i = (if ref_count s = 0 then Starting else Present)" "ref_count s1 = ref_count s + 1"
      "disk s1 = disk s" "instances_world s1 = instances_world s"
    using assms(1,2) by (rule_tac step_up [of i n s h]) simp_all
  show ?thesis
  proof (cases "ref_count s = 0")
    case True
    with assms(3) s1 have "init_can_dev h (disk s1) (instances_world s1) = Returns (fs, w)"
      "instance_at s1 i = Starting" and cnt: "cnt = 1" by (simp_all add: new_CAN_IPC_LAYER_IMPL_def)
    then obtain t where step: "instances_step h n i s1 t"
      and t: "instance_at t i = Present" "ref_count t = ref_count s1" "disk t = fs" "instances_world t = w"
      using instances_step.inits [OF assms(1), of s1 h fs w] that by simp
    have "(instances_step h n i)\<^sup>*\<^sup>* s t" using up step by simp
    with t s1 True cnt show ?thesis by (intro exI [of _ t]) simp
  next
    case False
    have "(instances_step h n i)\<^sup>*\<^sup>* s s1" using up by simp
    with False assms(3) s1 show ?thesis by (intro exI [of _ s1]) (auto simp: new_CAN_IPC_LAYER_IMPL_def)
  qed
qed

lemma destructor_alone:
  assumes "i < n" and "instance_at s i = Present"
    and "delete_CAN_IPC_LAYER_IMPL h (ref_count s) (instances_world s) = (cnt, w)"
  shows "\<exists>t. (instances_step h n i)\<^sup>*\<^sup>* s t \<and> instance_at t i = Absent \<and> ref_count t = cnt \<and>
    disk t = disk s \<and> instances_world t = w"
proof -
  obtain s1 where down: "instances_step h n i s s1"
    and s1: "instance_at s1 i = (if ref_count s - 1 = 0 then Ending else Absent)" "ref_count s1 = ref_count s - 1"
      "disk s1 = disk s" "instances_world s1 = instances_world s"
    using assms(1,2) by (rule_tac step_down [of i n s h]) simp_all
  show ?thesis
  proof (cases "ref_count s - 1 = 0")
    case True
    with s1 have "instance_at s1 i = Ending" by simp
    then obtain t where step: "instances_step h n i s1 t"
      and t: "instance_at t i = Absent" "ref_count t = ref_count s1" "disk t = disk s1"
        "instances_world t = deinit_can_dev h (instances_world s1)"
      using instances_step.ends [OF assms(1), of s1 h] that by simp
    have "(instances_step h n i)\<^sup>*\<^sup>* s t" using down step by simp
    with t s1 True assms(3) show ?thesis
      by (intro exI [of _ t]) (simp add: delete_CAN_IPC_LAYER_IMPL_def)
  next
    case False
    have "(instances_step h n i)\<^sup>*\<^sup>* s s1" using down by simp
    with False assms(3) s1 show ?thesis
      by (intro exI [of _ s1]) (auto simp: delete_CAN_IPC_LAYER_IMPL_def)
  qed
qed

section \<open>What the count counts\<close>

definition counted :: "nat \<Rightarrow> 'w instances \<Rightarrow> nat set" where
  "counted n s = {i. i < n \<and> instance_at s i \<in> {Starting, Present, Failed}}"

definition counted_inv :: "nat \<Rightarrow> 'w instances \<Rightarrow> bool" where
  "counted_inv n s \<longleftrightarrow> ref_count s = int (card (counted n s)) \<and> (\<forall>i. n \<le> i \<longrightarrow> instance_at s i = Absent)"

lemma finite_counted [simp]: "finite (counted n s)"
  by (simp add: counted_def)

lemma counted_upd:
  assumes "i < n" and "instance_at t = (instance_at s)(i := p)"
  shows "counted n t = (if p \<in> {Starting, Present, Failed} then insert i (counted n s) else counted n s - {i})"
  using assms by (auto simp: counted_def)

lemma counted_inv_step:
  assumes "counted_inv n s" and "instances_step h n i s t"
  shows "counted_inv n t"
  using assms(2)
proof cases
  case counts_up
  then have "i \<notin> counted n s" "counted n t = insert i (counted n s)"
    using counted_upd [OF counts_up(2), of t s] by (auto simp: counted_def)
  with counts_up assms(1) show ?thesis by (auto simp: counted_inv_def)
next
  case counts_down
  then have "i \<in> counted n s" "counted n t = counted n s - {i}"
    using counted_upd [OF counts_down(2), of t s] by (auto simp: counted_def)
  with counts_down assms(1) show ?thesis
    using card_gt_0_iff [of "counted n s"] by (auto simp: counted_inv_def of_nat_diff)
qed (use assms(1) in \<open>auto simp: counted_inv_def counted_def intro!: arg_cong [where f = card]\<close>)

lemma counted_inv_init: "instances_init s \<Longrightarrow> counted_inv n s"
  by (auto simp: instances_init_def instances_start_def counted_inv_def counted_def)

interpretation counted: invariant_system instances_init "\<lambda>s t. \<exists>i. instances_step h n i s t" "counted_inv n" for h n
  by unfold_locales (auto intro: counted_inv_init counted_inv_step)

section \<open>One at a time\<close>

text \<open>
  A step of an instance while no other is between its two steps, with a file system on which the
  configuration can be found or linked.
\<close>

definition busy :: "instance_place \<Rightarrow> bool" where
  "busy p \<longleftrightarrow> p = Starting \<or> p = Ending"

definition serial_step :: "'w hal \<Rightarrow> nat \<Rightarrow> 'w instances \<Rightarrow> 'w instances \<Rightarrow> bool" where
  "serial_step h n s t \<longleftrightarrow>
     (\<exists>i. instances_step h n i s t \<and> (\<forall>j. j \<noteq> i \<longrightarrow> \<not> busy (instance_at s j)))"

definition files_ready :: "file_system \<Rightarrow> bool" where
  "files_ready fs \<longleftrightarrow> (\<exists>fs'. copy_ipc_config_data fs = Returns (True, fs'))"

text \<open>An empty file system, and one on which the link is there.\<close>

definition no_files :: file_system where
  "no_files = \<lparr>current_path_exists = True, so_path_exists = False, so_path_is_directory = False,
     config_exists = False, symlink_succeeds = True\<rparr>"

definition linked_files :: file_system where
  "linked_files = no_files\<lparr>config_exists := True\<rparr>"

lemma copy_linked [simp]: "copy_ipc_config_data linked_files = Returns (True, linked_files)"
  by (simp add: linked_files_def no_files_def copy_ipc_config_data_def)

lemma init_linked [simp]:
  "init_can_dev h linked_files w = Returns (linked_files, snd (canInit h w))"
  "init_calls linked_files = [Hal_Init]"
  by (simp_all add: init_can_dev_def init_calls_def)

definition ready_init :: "'w instances \<Rightarrow> bool" where
  "ready_init s \<longleftrightarrow> instances_init s \<and> files_ready (disk s)"

text \<open>Starts and ends of the HAL in turn; \<open>hal_on\<close> says whether the last was a start.\<close>

fun alternates :: "bool \<Rightarrow> hal_call list \<Rightarrow> bool" where
  "alternates on [] \<longleftrightarrow> True"
| "alternates on (Hal_Init # cs) \<longleftrightarrow> \<not> on \<and> alternates True cs"
| "alternates on (Hal_Deinit # cs) \<longleftrightarrow> on \<and> alternates False cs"

definition hal_on :: "hal_call list \<Rightarrow> bool" where
  "hal_on cs \<longleftrightarrow> cs \<noteq> [] \<and> last cs = Hal_Init"

lemma hal_on_append [simp]: "hal_on (cs @ [c]) \<longleftrightarrow> c = Hal_Init" "\<not> hal_on []"
  by (simp_all add: hal_on_def)

lemma alternates_append:
  "alternates on (cs @ [c]) \<longleftrightarrow>
     alternates on cs \<and> (if cs = [] then on else hal_on cs) = (c = Hal_Deinit)"
proof (induction on cs rule: alternates.induct)
  case (1 on)
  show ?case by (cases c) auto
qed (auto simp: hal_on_def split: if_splits)

definition serial_inv :: "nat \<Rightarrow> 'w instances \<Rightarrow> bool" where
  "serial_inv n s \<longleftrightarrow> counted_inv n s \<and> files_ready (disk s) \<and> alternates False (hal_calls s) \<and>
     (\<forall>i. instance_at s i \<noteq> Failed) \<and>
     (\<forall>i. busy (instance_at s i) \<longrightarrow> (\<forall>j. j \<noteq> i \<longrightarrow> instance_at s j = Absent)) \<and>
     (hal_on (hal_calls s) \<longleftrightarrow> (\<exists>i. instance_at s i \<in> {Present, Ending}))"

lemma copy_ready:
  "copy_ipc_config_data fs = Returns (True, fs') \<Longrightarrow> copy_ipc_config_data fs' = Returns (True, fs')"
  by (cases fs) (auto simp: copy_ipc_config_data_def split: if_splits)

lemma init_ready:
  assumes "files_ready fs" and "init_can_dev h fs w = Returns (fs', w')"
  shows "files_ready fs'" and "init_calls fs = [Hal_Init]"
proof -
  from assms(1) obtain fs1 where fs1: "copy_ipc_config_data fs = Returns (True, fs1)"
    by (auto simp: files_ready_def)
  with assms(2) have "fs' = fs1" by (simp add: init_can_dev_def)
  with copy_ready [OF fs1] show "files_ready fs'" by (auto simp: files_ready_def)
  from fs1 show "init_calls fs = [Hal_Init]" by (simp add: init_calls_def)
qed

lemma init_ready_succeeds: "files_ready fs \<Longrightarrow> init_can_dev h fs w \<noteq> Throws e"
  by (auto simp: files_ready_def init_can_dev_def)

lemma serial_counted:
  assumes "serial_inv n s" and "\<And>j. j \<noteq> i \<Longrightarrow> \<not> busy (instance_at s j)" and "j \<noteq> i"
  shows "j \<in> counted n s \<longleftrightarrow> instance_at s j = Present" and "j \<notin> counted n s \<longleftrightarrow> instance_at s j = Absent"
proof -
  from assms(1) have "instance_at s j \<noteq> Failed" by (simp add: serial_inv_def)
  with assms(2) [OF assms(3)] have "instance_at s j = Present \<or> instance_at s j = Absent"
    by (cases "instance_at s j") (simp_all add: busy_def)
  moreover have "j < n" if "instance_at s j = Present"
  proof (rule ccontr)
    assume "\<not> j < n"
    with assms(1) that show False by (simp add: serial_inv_def counted_inv_def)
  qed
  ultimately show "j \<in> counted n s \<longleftrightarrow> instance_at s j = Present" "j \<notin> counted n s \<longleftrightarrow> instance_at s j = Absent"
    by (auto simp: counted_def)
qed

lemma serial_inv_quiet:
  assumes "serial_inv n s" and "counted_inv n t" and "hal_calls t = hal_calls s" and "disk t = disk s"
    and "\<And>j. \<not> busy (instance_at t j)" and "\<And>j. instance_at t j \<noteq> Failed"
    and "instance_at s k = Present" and "instance_at t k = Present"
  shows "serial_inv n t"
proof -
  from assms(1,7) have "hal_on (hal_calls s)" by (auto simp: serial_inv_def)
  moreover from assms(8) have "\<exists>j. instance_at t j \<in> {Present, Ending}" by auto
  moreover from assms(1) have "alternates False (hal_calls s)" "files_ready (disk s)"
    by (simp_all add: serial_inv_def)
  ultimately show ?thesis
    unfolding serial_inv_def using assms(2-6) by simp
qed

lemma serial_inv_facts:
  assumes "serial_inv n s"
  shows "counted_inv n s" and "files_ready (disk s)" and "alternates False (hal_calls s)"
    and "instance_at s i \<noteq> Failed"
    and "hal_on (hal_calls s) \<longleftrightarrow> (\<exists>i. instance_at s i \<in> {Present, Ending})"
  using assms unfolding serial_inv_def by blast+

lemma serial_inv_alone:
  assumes "serial_inv n s" and "busy (instance_at s i)" and "j \<noteq> i"
  shows "instance_at s j = Absent"
  using assms unfolding serial_inv_def by blast

lemma only_one:
  assumes "\<And>j. j \<noteq> i \<Longrightarrow> instance_at s j = Absent"
  shows "(\<exists>j. instance_at s j \<in> {Present, Ending}) \<longleftrightarrow> instance_at s i \<in> {Present, Ending}"
proof
  assume "\<exists>j. instance_at s j \<in> {Present, Ending}"
  then obtain j where "instance_at s j \<in> {Present, Ending}" by blast
  with assms [of j] show "instance_at s i \<in> {Present, Ending}" by (cases "j = i") auto
qed blast

lemma serial_inv_single:
  assumes "counted_inv n t" and "files_ready (disk t)" and "alternates False (hal_calls t)"
    and absent: "\<And>j. j \<noteq> i \<Longrightarrow> instance_at t j = Absent" and "instance_at t i \<noteq> Failed"
    and "hal_on (hal_calls t) \<longleftrightarrow> instance_at t i \<in> {Present, Ending}"
  shows "serial_inv n t"
proof -
  have "instance_at t j \<noteq> Failed" for j
    using absent [of j] assms(5) by (cases "j = i") simp_all
  moreover have "instance_at t j = Absent" if "busy (instance_at t k)" "j \<noteq> k" for j k
    using that absent [of j] absent [of k] by (cases "k = i") (simp_all add: busy_def)
  ultimately show ?thesis
    unfolding serial_inv_def using assms only_one [of i t] by blast
qed

lemma serial_inv_step:
  assumes inv: "serial_inv n s" and "serial_step h n s t"
  shows "serial_inv n t"
proof -
  from assms(2) obtain i where step: "instances_step h n i s t"
    and alone: "\<And>j. j \<noteq> i \<Longrightarrow> \<not> busy (instance_at s j)" by (auto simp: serial_step_def)
  note facts = serial_inv_facts [OF inv]
  have counted': "counted_inv n t" by (rule counted_inv_step [OF facts(1) step])
  from facts(1) have card: "ref_count s = int (card (counted n s))" by (simp add: counted_inv_def)
  have others: "j \<in> counted n s \<longleftrightarrow> instance_at s j = Present" "j \<notin> counted n s \<longleftrightarrow> instance_at s j = Absent"
    if "j \<noteq> i" for j
    using serial_counted [of n s i j] inv alone that by blast+
  from step show ?thesis
  proof cases
    case counts_up
    show ?thesis
    proof (cases "ref_count s = 0")
      case True
      with card have "counted n s = {}" by simp
      then have absent: "instance_at s j = Absent" for j
        using others(2) [of j] counts_up(3) by (cases "j = i") auto
      then have "\<not> hal_on (hal_calls s)" using facts(5) by simp
      with counts_up(1) True absent facts(2,3) show ?thesis
        by (intro serial_inv_single [of n t i, OF counted']) simp_all
    next
      case False
      with card obtain k where "k \<in> counted n s" by fastforce
      with counts_up(3) others(1) have k: "instance_at s k = Present" by (cases "k = i") (auto simp: counted_def)
      with counts_up(3) have "k \<noteq> i" by auto
      from counts_up(1) False have t: "instance_at t = (instance_at s)(i := Present)"
        "hal_calls t = hal_calls s" "disk t = disk s" by simp_all
      have "\<not> busy (instance_at t j)" "instance_at t j \<noteq> Failed" for j
        using t(1) alone [of j] facts(4) [of j] by (simp_all add: busy_def)
      with inv counted' t k \<open>k \<noteq> i\<close> show ?thesis by (intro serial_inv_quiet [of n s t k]) simp_all
    qed
  next
    case (inits fs w)
    have absent: "instance_at s j = Absent" if "j \<noteq> i" for j
      using serial_inv_alone [OF inv _ that] inits(3) by (simp add: busy_def)
    have "\<not> hal_on (hal_calls s)"
      using facts(5) only_one [of i s] absent inits(3) by simp
    with init_ready [OF facts(2) inits(4)] inits(1) absent facts(3) show ?thesis
      by (intro serial_inv_single [of n t i, OF counted']) (simp_all add: alternates_append)
  next
    case fails
    then show ?thesis by (simp add: init_ready_succeeds [OF facts(2)])
  next
    case counts_down
    then have i: "i \<in> counted n s" by (simp add: counted_def)
    show ?thesis
    proof (cases "ref_count s - 1 = 0")
      case True
      with card have "card (counted n s) = 1" by simp
      with i have "counted n s = {i}" by (metis card_1_singletonE singletonD)
      with others(2) have absent: "instance_at s j = Absent" if "j \<noteq> i" for j using that by simp
      have "hal_on (hal_calls s)" using facts(5) counts_down(3) by blast
      with True counts_down(1) absent facts(2,3) show ?thesis
        by (intro serial_inv_single [of n t i, OF counted']) simp_all
    next
      case False
      with card have "counted n s \<noteq> {i}" by auto
      with i obtain k where "k \<in> counted n s" "k \<noteq> i" by blast
      with others(1) have k: "instance_at s k = Present" by simp
      from counts_down(1) False have t: "instance_at t = (instance_at s)(i := Absent)"
        "hal_calls t = hal_calls s" "disk t = disk s" by simp_all
      have "\<not> busy (instance_at t j)" "instance_at t j \<noteq> Failed" for j
        using t(1) alone [of j] facts(4) [of j] by (simp_all add: busy_def)
      with inv counted' t k \<open>k \<noteq> i\<close> show ?thesis by (intro serial_inv_quiet [of n s t k]) simp_all
    qed
  next
    case ends
    have absent: "instance_at s j = Absent" if "j \<noteq> i" for j
      using serial_inv_alone [OF inv _ that] ends(3) by (simp add: busy_def)
    have "hal_on (hal_calls s)" using facts(5) ends(3) by blast
    then have "hal_on (hal_calls s) \<and> hal_calls s \<noteq> []" by (auto simp: hal_on_def)
    with ends(1) absent facts(2,3) show ?thesis
      by (intro serial_inv_single [of n t i, OF counted']) (simp_all add: alternates_append)
  qed
qed

lemma serial_inv_init:
  assumes "ready_init s"
  shows "serial_inv n s"
proof -
  from assms obtain fs w where s: "s = instances_start fs w" and "files_ready (disk s)"
    by (auto simp: ready_init_def instances_init_def)
  moreover have "counted_inv n s"
    using assms by (auto simp: ready_init_def intro: counted_inv_init)
  ultimately show ?thesis
    by (simp add: serial_inv_def instances_start_def busy_def)
qed

interpretation serial: invariant_system ready_init "serial_step h n" "serial_inv n" for h n
  by unfold_locales (auto intro: serial_inv_init serial_inv_step)

lemma ready_start: "ready_init (instances_start linked_files w)"
  by (auto simp: ready_init_def instances_init_def files_ready_def instances_start_def copy_linked)

text \<open>The first instance comes into existence.\<close>

lemma one_instance:
  obtains s where "reach ready_init (serial_step h n) (s :: 'w instances)"
    "instance_at s = (\<lambda>_. Absent)(0 := Present)" "hal_calls s = [Hal_Init]" "0 < n"
  | "n = 0"
proof (cases "n = 0")
  case False
  define s0 where "s0 = instances_start linked_files (undefined :: 'w)"
  have s0: "instance_at s0 = (\<lambda>_. Absent)" "ref_count s0 = 0" "disk s0 = linked_files" "hal_calls s0 = []"
    by (simp_all add: s0_def instances_start_def)
  have r0: "reach ready_init (serial_step h n) s0"
    unfolding s0_def by (rule reach.reach_init, rule ready_start)
  obtain s1 where s1: "instances_step h n 0 s0 s1" "disk s1 = linked_files" "hal_calls s1 = []"
    "instance_at s1 = (\<lambda>_. Absent)(0 := Starting)"
    using s0 False by (rule_tac step_up [of 0 n s0 h]) simp_all
  obtain s2 where s2: "instances_step h n 0 s1 s2" "hal_calls s2 = [Hal_Init]"
    "instance_at s2 = (\<lambda>_. Absent)(0 := Present)"
    using s1 False by (rule_tac step_inits [of 0 n s1 h]) simp_all
  have "serial_step h n s0 s1" unfolding serial_step_def using s1(1) s0(1)
    by (intro exI [of _ 0]) (simp add: busy_def)
  moreover have "serial_step h n s1 s2" unfolding serial_step_def using s2(1) s1(4)
    by (intro exI [of _ 0]) (simp add: busy_def)
  ultimately have "reach ready_init (serial_step h n) s2"
    using r0 reach.reach_step by metis
  with s2 False that(1) show ?thesis by blast
qed (rule that(2))

text \<open>
  One instance after the other, with a file system on which the configuration is found or can be
  linked: the HAL is started and ended in turns, beginning with a start, whatever instances come and
  go in whatever order; and it is running exactly while an instance exists (or the last one is about
  to end it). No instance uses a HAL that was not started, and none is started twice.
\<close>

theorem hal_runs_while_instances_exist:
  assumes "reach ready_init (serial_step h n) s"
  shows "alternates False (hal_calls s) \<and>
    (hal_on (hal_calls s) \<longleftrightarrow> (\<exists>i. instance_at s i \<in> {Present, Ending}))"
  using serial_inv_facts(3,5) [OF serial.reach_inv [OF assms]] by blast

theorem hal_runs_while_instances_exist_witness:
  "\<exists>s :: (string \<times> canframe) list instances. instance_at s 0 = Present \<and>
     alternates False (hal_calls s) \<and> hal_on (hal_calls s)"
proof -
  obtain s :: "(string \<times> canframe) list instances"
    where s: "reach ready_init (serial_step recording_hal 2) s" "instance_at s = (\<lambda>_. Absent)(0 := Present)"
    by (rule one_instance [of recording_hal 2]) simp_all
  with hal_runs_while_instances_exist [OF s(1)] show ?thesis by (intro exI [of _ s]) auto
qed

text \<open>
  However the constructors and destructors of several threads interleave, the shared count is the
  number of the instances that were counted up and not yet down: those that exist, the one that is
  starting the HAL, and those whose constructor threw.
\<close>

theorem ref_count_counts:
  assumes "reach instances_init (\<lambda>s t. \<exists>i. instances_step h n i s t) s"
  shows "ref_count s = int (card (counted n s))"
  using counted.reach_inv [OF assms] by (simp add: counted_inv_def)

theorem ref_count_counts_witness:
  "\<exists>s :: (string \<times> canframe) list instances. instance_at s 0 = Starting \<and> ref_count s = 1"
proof -
  define s0 where "s0 = instances_start no_files ([] :: (string \<times> canframe) list)"
  have s0: "instance_at s0 = (\<lambda>_. Absent)" "ref_count s0 = 0"
    by (simp_all add: s0_def instances_start_def)
  have r0: "reach instances_init (\<lambda>s t. \<exists>i. instances_step recording_hal 2 i s t) s0"
    by (rule reach.reach_init) (auto simp: s0_def instances_init_def)
  obtain s1 where s1: "instances_step recording_hal 2 0 s0 s1" "instance_at s1 = (\<lambda>_. Absent)(0 := Starting)"
    using s0 by (rule_tac step_up [of 0 2 s0 recording_hal]) simp_all
  have "reach instances_init (\<lambda>s t. \<exists>i. instances_step recording_hal 2 i s t) s1"
    using r0 s1(1) by (blast intro: reach.reach_step)
  from ref_count_counts [OF this] have "ref_count s1 = int (card (counted 2 s1))" .
  also have "counted 2 s1 = {0}" using s1(2) by (auto simp: counted_def)
  finally show ?thesis using s1(2) by (intro exI [of _ s1]) simp
qed

section \<open>Where the count does not help\<close>

lemma failed_stays:
  assumes "instances_step h n i s t" and "instance_at s k = Failed"
  shows "instance_at t k = Failed"
  using assms by cases auto

lemma counted_none_starts:
  assumes "instances_step h n i s t" and "counted_inv n s" and "instance_at s k = Failed"
    and "\<And>j. instance_at s j \<noteq> Starting \<and> instance_at s j \<noteq> Ending"
  shows "(\<forall>j. instance_at t j \<noteq> Starting \<and> instance_at t j \<noteq> Ending) \<and> hal_calls t = hal_calls s"
proof -
  have "k < n" using assms(2,3) by (rule_tac ccontr) (simp add: counted_inv_def)
  then have k: "k \<in> counted n s" using assms(3) by (simp add: counted_def)
  then have pos: "ref_count s > 0"
    using assms(2) by (auto simp: counted_inv_def card_gt_0_iff)
  from assms(1) show ?thesis
  proof cases
    case counts_down
    then have "i \<in> counted n s" "i \<noteq> k" using assms(3) by (auto simp: counted_def)
    with k have "{i, k} \<subseteq> counted n s" by simp
    then have "card {i, k} \<le> card (counted n s)" by (rule card_mono [OF finite_counted])
    with \<open>i \<noteq> k\<close> assms(2) have "ref_count s - 1 \<noteq> 0" by (simp add: counted_inv_def)
    with counts_down assms(4) show ?thesis by simp
  qed (use pos assms(4) in auto)
qed

lemma failed_steps:
  assumes "(\<lambda>s t. \<exists>i. instances_step h n i s t)\<^sup>*\<^sup>* s t" and "counted_inv n s" and "instance_at s k = Failed"
    and "\<And>j. instance_at s j \<noteq> Starting \<and> instance_at s j \<noteq> Ending"
  shows "counted_inv n t \<and> instance_at t k = Failed \<and>
    (\<forall>j. instance_at t j \<noteq> Starting \<and> instance_at t j \<noteq> Ending) \<and> hal_calls t = hal_calls s"
  using assms(1)
proof (induction rule: rtranclp_induct)
  case base
  with assms(2-4) show ?case by blast
next
  case (step t u)
  then obtain i where i: "instances_step h n i t u" by blast
  from step.IH have "counted_inv n t" "instance_at t k = Failed"
    "\<And>j. instance_at t j \<noteq> Starting \<and> instance_at t j \<noteq> Ending" by blast+
  from counted_none_starts [OF i this] failed_stays [OF i this(2)] counted_inv_step [OF this(1) i]
    step.IH show ?case by simp
qed

text \<open>
  A constructor whose initialisation throws leaves the count raised. From then on, when no other
  instance is starting or ending the HAL, no constructor ever starts it and no destructor ever ends
  it: later instances come into existence all the same, on a HAL that was never started.
\<close>

theorem failed_construction_is_final:
  assumes "reach instances_init (\<lambda>s t. \<exists>i. instances_step h n i s t) s"
    and "instance_at s k = Failed"
    and "\<And>j. instance_at s j \<noteq> Starting \<and> instance_at s j \<noteq> Ending"
    and "(\<lambda>s t. \<exists>i. instances_step h n i s t)\<^sup>*\<^sup>* s t"
  shows "hal_calls t = hal_calls s \<and> instance_at t k = Failed"
  using failed_steps [OF assms(4) counted.reach_inv [OF assms(1)] assms(2,3)] by blast

theorem failed_construction_is_final_witness:
  "\<exists>t. reach instances_init (\<lambda>s t. \<exists>i. instances_step recording_hal 2 i s t) t \<and>
     instance_at t 0 = Failed \<and> instance_at t 1 = Present \<and> hal_calls t = []"
proof -
  let ?R = "\<lambda>s t. \<exists>i. instances_step recording_hal 2 i s t"
  define s0 where "s0 = instances_start no_files ([] :: (string \<times> canframe) list)"
  have s0: "instance_at s0 = (\<lambda>_. Absent)" "ref_count s0 = 0" "disk s0 = no_files" "hal_calls s0 = []"
    by (simp_all add: s0_def instances_start_def)
  have r0: "reach instances_init ?R s0" by (rule reach.reach_init) (auto simp: s0_def instances_init_def)
  obtain s1 where s1: "instances_step recording_hal 2 0 s0 s1" "ref_count s1 = 1" "disk s1 = no_files"
    "hal_calls s1 = []" "instance_at s1 = (\<lambda>_. Absent)(0 := Starting)"
    using s0 by (rule_tac step_up [of 0 2 s0 recording_hal]) simp_all
  have throws: "init_can_dev recording_hal (disk s1) (instances_world s1) =
      Throws ''Can not find corrent Shared Object file''"
    by (simp add: s1 no_files_def init_can_dev_def copy_ipc_config_data_def)
  obtain s2 where s2: "instances_step recording_hal 2 0 s1 s2" "ref_count s2 = 1" "hal_calls s2 = []"
    "instance_at s2 = (\<lambda>_. Absent)(0 := Failed)"
    using s1 by (rule_tac step_fails [OF _ _ throws, of 0 2]) simp_all
  obtain t where t: "instances_step recording_hal 2 1 s2 t"
    "instance_at t = (\<lambda>_. Absent)(0 := Failed, 1 := Present)"
    using s2 by (rule_tac step_up [of 1 2 s2 recording_hal]) simp_all
  have r2: "reach instances_init ?R s2"
    using r0 s1(1) s2(1) by (blast intro: reach.reach_step)
  have path: "?R\<^sup>*\<^sup>* s2 t" using t(1) by blast
  have "hal_calls t = hal_calls s2 \<and> instance_at t 0 = Failed"
    by (rule failed_construction_is_final [OF r2 _ _ path]) (simp_all add: s2)
  moreover have "reach instances_init ?R t" using r2 t(1) by (blast intro: reach.reach_step)
  ultimately show ?thesis using t(2) s2(3) by (intro exI [of _ t]) simp
qed

text \<open>
  The mutex keeps no two instances apart. While one instance is still starting the HAL another
  comes into existence, and nothing has started it; and when the last instance is about to end the
  HAL while a new one starts it, the end may come last, so that an instance exists and the HAL is
  ended. Both happen with a file system on which every construction succeeds.
\<close>

theorem instances_overlap:
  "(\<exists>s. reach ready_init (\<lambda>s t. \<exists>i. instances_step h 2 i s t) (s :: 'w instances) \<and>
      instance_at s 1 = Present \<and> hal_calls s = []) \<and>
   (\<exists>s. reach ready_init (\<lambda>s t. \<exists>i. instances_step h 2 i s t) (s :: 'w instances) \<and>
      instance_at s 1 = Present \<and> hal_calls s = [Hal_Init, Hal_Init, Hal_Deinit])"
proof -
  let ?R = "\<lambda>s t :: 'w instances. \<exists>i. instances_step h 2 i s t"
  define s0 where "s0 = instances_start linked_files (undefined :: 'w)"
  have s0: "instance_at s0 = (\<lambda>_. Absent)" "ref_count s0 = 0" "disk s0 = linked_files" "hal_calls s0 = []"
    by (simp_all add: s0_def instances_start_def)
  have r0: "reach ready_init ?R s0"
    unfolding s0_def by (rule reach.reach_init, rule ready_start)
  obtain s1 where s1: "instances_step h 2 0 s0 s1" "ref_count s1 = 1" "disk s1 = linked_files"
    "hal_calls s1 = []" "instance_at s1 = (\<lambda>_. Absent)(0 := Starting)"
    using s0 by (rule_tac step_up [of 0 2 s0 h]) simp_all
  have r1: "reach ready_init ?R s1" using r0 s1(1) by (blast intro: reach.reach_step)
  obtain t where t: "instances_step h 2 1 s1 t" "hal_calls t = []" "instance_at t 1 = Present"
    using s1 by (rule_tac step_up [of 1 2 s1 h]) simp_all
  have rt: "reach ready_init ?R t" using r1 t(1) by (blast intro: reach.reach_step)
  obtain s2 where s2: "instances_step h 2 0 s1 s2" "ref_count s2 = 1" "disk s2 = linked_files"
    "hal_calls s2 = [Hal_Init]" "instance_at s2 = (\<lambda>_. Absent)(0 := Present)"
    using s1 by (rule_tac step_inits [of 0 2 s1 h]) simp_all
  obtain s3 where s3: "instances_step h 2 0 s2 s3" "ref_count s3 = 0" "disk s3 = linked_files"
    "hal_calls s3 = [Hal_Init]" "instance_at s3 = (\<lambda>_. Absent)(0 := Ending)"
    using s2 by (rule_tac step_down [of 0 2 s2 h]) simp_all
  obtain s4 where s4: "instances_step h 2 1 s3 s4" "ref_count s4 = 1" "disk s4 = linked_files"
    "hal_calls s4 = [Hal_Init]" "instance_at s4 = (\<lambda>_. Absent)(0 := Ending, 1 := Starting)"
    using s3 by (rule_tac step_up [of 1 2 s3 h]) simp_all
  obtain s5 where s5: "instances_step h 2 1 s4 s5" "hal_calls s5 = [Hal_Init, Hal_Init]"
    "instance_at s5 = (\<lambda>_. Absent)(0 := Ending, 1 := Present)"
    using s4 by (rule_tac step_inits [of 1 2 s4 h]) simp_all
  obtain s6 where s6: "instances_step h 2 0 s5 s6" "hal_calls s6 = [Hal_Init, Hal_Init, Hal_Deinit]"
    "instance_at s6 1 = Present"
    using s5 by (rule_tac step_ends [of 0 2 s5 h]) simp_all
  have step: "reach ready_init ?R u" if "reach ready_init ?R s" "instances_step h 2 i s u" for i s u
    using that by (blast intro: reach.reach_step)
  have r6: "reach ready_init ?R s6"
    by (rule step [OF step [OF step [OF step [OF step [OF r1 s2(1)] s3(1)] s4(1)] s5(1)] s6(1)])
  show ?thesis
    by (intro conjI exI [of _ t] exI [of _ s6] rt r6 t s6)
qed

end
