(* ===== verification/Singletons.thy ===== *)
theory Singletons
  imports Service_End Layer_Instances
begin

text \<open>
  The singletons. Each class keeps its only object in a variable that is static in \<open>getInstance\<close>: the
  first call constructs it, and when the construction throws, the next call tries again. The objects
  refer to each other through the \<open>getInstance\<close> calls in their members' initialisers and in their
  constructors, and are destroyed in the reverse order of their construction.
\<close>

section \<open>Construction on first use\<close>

text \<open>The five tables of the filters are static in functions of their own; \<open>init_can_filter\<close> is their first use.\<close>

datatype singleton =
    Static_Queue
  | Static_Filters
  | Static_Receiver
  | Static_Sender
  | Static_Layer
  | Static_Controller

text \<open>
  The objects in the order of their construction, the reference count of the layer, and what the
  construction of the layer uses.
\<close>

record 'w statics =
  built :: "singleton list"
  layer_count :: int
  statics_files :: file_system
  statics_world :: 'w

definition no_statics :: "file_system \<Rightarrow> 'w \<Rightarrow> 'w statics" where
  "no_statics fs w = \<lparr>built = [], layer_count = 0, statics_files = fs, statics_world = w\<rparr>"

lemma no_statics_sel [simp]:
  "built (no_statics fs w) = []" "layer_count (no_statics fs w) = 0"
  "statics_files (no_statics fs w) = fs" "statics_world (no_statics fs w) = w"
  by (simp_all add: no_statics_def)

definition completes :: "singleton \<Rightarrow> 'w statics \<Rightarrow> 'w statics" where
  "completes x st = st\<lparr>built := built st @ [x]\<rparr>"

definition WORK_QUEUE_getInstance :: "'w statics \<Rightarrow> 'w statics" where
  "WORK_QUEUE_getInstance st =
     (if Static_Queue \<in> set (built st) then st else completes Static_Queue st)"

definition get_filters :: "'w statics \<Rightarrow> 'w statics" where
  "get_filters st = (if Static_Filters \<in> set (built st) then st else completes Static_Filters st)"

definition CAN_IPC_RECEIVER_getInstance :: "'w statics \<Rightarrow> 'w statics" where
  "CAN_IPC_RECEIVER_getInstance st =
     (if Static_Receiver \<in> set (built st) then st
      else completes Static_Receiver (get_filters (WORK_QUEUE_getInstance st)))"

definition CAN_IPC_SENDER_getInstance :: "'w statics \<Rightarrow> 'w statics" where
  "CAN_IPC_SENDER_getInstance st =
     (if Static_Sender \<in> set (built st) then st else completes Static_Sender st)"

text \<open>The layer's constructor is the only one that can throw.\<close>

definition CAN_IPC_LAYER_IMPL_getInstance :: "'w hal \<Rightarrow> 'w statics \<Rightarrow> unit outcome \<times> 'w statics" where
  "CAN_IPC_LAYER_IMPL_getInstance h st =
     (if Static_Layer \<in> set (built st) then (Returns (), st)
      else (let st = CAN_IPC_SENDER_getInstance (CAN_IPC_RECEIVER_getInstance st)
            in case new_CAN_IPC_LAYER_IMPL h (statics_files st) (layer_count st) (statics_world st) of
                 (cnt, Throws e) \<Rightarrow> (Throws e, st\<lparr>layer_count := cnt\<rparr>)
               | (cnt, Returns (fs, w)) \<Rightarrow>
                   (Returns (), completes Static_Layer
                      (st\<lparr>layer_count := cnt, statics_files := fs, statics_world := w\<rparr>))))"

definition IPC_SOCKET_CONTROLLER_getInstance :: "'w hal \<Rightarrow> 'w statics \<Rightarrow> unit outcome \<times> 'w statics" where
  "IPC_SOCKET_CONTROLLER_getInstance h st =
     (if Static_Controller \<in> set (built st) then (Returns (), st)
      else case CAN_IPC_LAYER_IMPL_getInstance h st of
             (Throws e, st) \<Rightarrow> (Throws e, st)
           | (Returns _, st) \<Rightarrow> (Returns (), completes Static_Controller st))"

text \<open>Any thread may ask for any of them; the language lets one thread at a time construct an object.\<close>

inductive statics_step :: "'w hal \<Rightarrow> 'w statics \<Rightarrow> 'w statics \<Rightarrow> bool" for h :: "'w hal" where
  asks_queue: "statics_step h st (WORK_QUEUE_getInstance st)"
| asks_receiver: "statics_step h st (CAN_IPC_RECEIVER_getInstance st)"
| asks_sender: "statics_step h st (CAN_IPC_SENDER_getInstance st)"
| asks_layer: "statics_step h st (snd (CAN_IPC_LAYER_IMPL_getInstance h st))"
| asks_controller: "statics_step h st (snd (IPC_SOCKET_CONTROLLER_getInstance h st))"

definition statics_init :: "'w statics \<Rightarrow> bool" where
  "statics_init st \<longleftrightarrow> (\<exists>fs w. st = no_statics fs w)"

section \<open>Nothing is used before it is constructed or after it is destroyed\<close>

text \<open>What an object holds references to, or calls in its constructor and destructor.\<close>

fun needs :: "singleton \<Rightarrow> singleton set" where
  "needs Static_Receiver = {Static_Queue, Static_Filters}"
| "needs Static_Layer = {Static_Receiver, Static_Sender}"
| "needs Static_Controller = {Static_Layer}"
| "needs _ = {}"

text \<open>Every object of the list comes after those it needs.\<close>

fun in_order :: "singleton set \<Rightarrow> singleton list \<Rightarrow> bool" where
  "in_order before [] \<longleftrightarrow> True"
| "in_order before (x # xs) \<longleftrightarrow> x \<notin> before \<and> needs x \<subseteq> before \<and> in_order (insert x before) xs"

lemma in_order_append:
  "in_order before (xs @ ys) \<longleftrightarrow> in_order before xs \<and> in_order (before \<union> set xs) ys"
  by (induction xs arbitrary: before) (simp_all add: insert_commute)

lemma in_order_distinct: "in_order before xs \<Longrightarrow> distinct xs \<and> set xs \<inter> before = {}"
  by (induction xs arbitrary: before) fastforce+

lemma in_order_completes:
  "in_order {} (built st) \<Longrightarrow> x \<notin> set (built st) \<Longrightarrow> needs x \<subseteq> set (built st) \<Longrightarrow>
   in_order {} (built (completes x st))"
  by (simp add: completes_def in_order_append)

definition statics_inv :: "'w statics \<Rightarrow> bool" where
  "statics_inv st \<longleftrightarrow> in_order {} (built st) \<and> 0 \<le> layer_count st"

lemma built_completes [simp]: "built (completes x st) = built st @ [x]"
  "layer_count (completes x st) = layer_count st" "statics_files (completes x st) = statics_files st"
  "statics_world (completes x st) = statics_world st"
  by (simp_all add: completes_def)

lemmas get_defs = WORK_QUEUE_getInstance_def get_filters_def CAN_IPC_RECEIVER_getInstance_def
  CAN_IPC_SENDER_getInstance_def

lemma statics_inv_simple:
  assumes "statics_inv st"
  shows "statics_inv (WORK_QUEUE_getInstance st)" and "statics_inv (CAN_IPC_RECEIVER_getInstance st)"
    and "statics_inv (CAN_IPC_SENDER_getInstance st)"
  using assms by (auto simp: get_defs statics_inv_def in_order_append)

lemma statics_inv_layer:
  assumes "statics_inv st"
  shows "statics_inv (snd (CAN_IPC_LAYER_IMPL_getInstance h st))"
    and "Static_Layer \<in> set (built st) \<or> fst (CAN_IPC_LAYER_IMPL_getInstance h st) = Returns () \<Longrightarrow>
      Static_Layer \<in> set (built (snd (CAN_IPC_LAYER_IMPL_getInstance h st)))"
    and "Static_Controller \<in> set (built (snd (CAN_IPC_LAYER_IMPL_getInstance h st))) \<longleftrightarrow>
      Static_Controller \<in> set (built st)"
proof -
  let ?st = "CAN_IPC_SENDER_getInstance (CAN_IPC_RECEIVER_getInstance st)"
  have inv: "statics_inv ?st" using assms by (intro statics_inv_simple)
  have has: "{Static_Receiver, Static_Sender} \<subseteq> set (built ?st)" "Static_Layer \<in> set (built ?st) \<longleftrightarrow> Static_Layer \<in> set (built st)"
    "Static_Controller \<in> set (built ?st) \<longleftrightarrow> Static_Controller \<in> set (built st)"
    by (auto simp: get_defs)
  with inv show "statics_inv (snd (CAN_IPC_LAYER_IMPL_getInstance h st))"
    using assms
    by (auto simp: CAN_IPC_LAYER_IMPL_getInstance_def Let_def new_CAN_IPC_LAYER_IMPL_def statics_inv_def
        in_order_append split: outcome.splits prod.splits)
  show "Static_Layer \<in> set (built st) \<or> fst (CAN_IPC_LAYER_IMPL_getInstance h st) = Returns () \<Longrightarrow>
      Static_Layer \<in> set (built (snd (CAN_IPC_LAYER_IMPL_getInstance h st)))"
    "Static_Controller \<in> set (built (snd (CAN_IPC_LAYER_IMPL_getInstance h st))) \<longleftrightarrow>
      Static_Controller \<in> set (built st)"
    using has(3) by (auto simp: CAN_IPC_LAYER_IMPL_getInstance_def Let_def split: outcome.splits prod.splits)
qed

lemma statics_inv_controller:
  assumes "statics_inv st"
  shows "statics_inv (snd (IPC_SOCKET_CONTROLLER_getInstance h st))"
  using assms statics_inv_layer [OF assms, of h]
  by (cases "CAN_IPC_LAYER_IMPL_getInstance h st")
    (auto simp: IPC_SOCKET_CONTROLLER_getInstance_def statics_inv_def in_order_append split: outcome.splits)

interpretation statics: invariant_system statics_init "statics_step h" statics_inv for h
proof unfold_locales
  fix s t :: "'a statics"
  show "statics_init s \<Longrightarrow> statics_inv s"
    by (auto simp: statics_init_def no_statics_def statics_inv_def)
  assume "statics_inv s" "statics_step h s t"
  from this(2,1) show "statics_inv t"
    by cases (auto intro: statics_inv_simple statics_inv_layer statics_inv_controller)
qed

lemma in_order_needs: "in_order before (as @ x # bs) \<Longrightarrow> needs x \<subseteq> before \<union> set as"
  by (simp add: in_order_append)


section \<open>The singletons of the program\<close>

lemma first_controller:
  "IPC_SOCKET_CONTROLLER_getInstance h (no_statics fs w) =
     (let st = (no_statics fs w)\<lparr>built := [Static_Queue, Static_Filters, Static_Receiver, Static_Sender], layer_count := 1\<rparr>
      in case init_can_dev h fs w of
           Throws e \<Rightarrow> (Throws e, st)
         | Returns (fs, w) \<Rightarrow> (Returns (), st\<lparr>built := built st @ [Static_Layer, Static_Controller],
             statics_files := fs, statics_world := w\<rparr>))"
  by (simp add: IPC_SOCKET_CONTROLLER_getInstance_def CAN_IPC_LAYER_IMPL_getInstance_def
      get_defs completes_def new_CAN_IPC_LAYER_IMPL_def Let_def split: outcome.splits prod.splits)

text \<open>The objects that each step of \<open>main\<close> at its end destroys.\<close>

fun exit_destroys :: "exit_place \<Rightarrow> singleton list" where
  "exit_destroys At_Return = [Static_Controller]"
| "exit_destroys At_Layer = [Static_Layer, Static_Sender]"
| "exit_destroys At_Receiver = [Static_Receiver, Static_Filters]"
| "exit_destroys At_Queue = [Static_Queue]"
| "exit_destroys _ = []"

text \<open>
  The program from its first line to its last: \<open>main\<close> constructs all singletons by its first call
  of \<open>getInstance\<close>, which throws exactly when the configuration cannot be found, runs the server
  thread, and goes through its end; and the steps of that end, as they are interleaved with the
  detached threads, destroy exactly these objects in the reverse order of their construction.
\<close>

theorem main_and_its_singletons:
  "main h fs sys accepts w =
     (case IPC_SOCKET_CONTROLLER_getInstance h (no_statics fs w) of
        (Throws e, st) \<Rightarrow> Throws e
      | (Returns _, st) \<Rightarrow> Returns (snd (run_exits h 5 (At_Join, server_thread sys accepts
          (new_controller \<lparr>socket_client_index = [], socket_client_reverse_index = []\<rparr>
             new_CAN_IPC_RECEIVER (statics_world st)))))) \<and>
   (fst (IPC_SOCKET_CONTROLLER_getInstance h (no_statics fs w)) = Returns () \<longleftrightarrow>
      current_path_exists fs \<and> (so_path_exists fs \<or> config_exists fs \<or> so_path_is_directory fs)) \<and>
   (fst (IPC_SOCKET_CONTROLLER_getInstance h (no_statics fs w)) = Returns () \<longrightarrow>
      rev (built (snd (IPC_SOCKET_CONTROLLER_getInstance h (no_statics fs w)))) =
        concat (map exit_destroys [At_Join, At_Deinit, At_Return, At_Layer, At_Receiver, At_Queue, At_End]))"
proof (cases "init_can_dev h fs w")
  case (Throws e)
  then have "main h fs sys accepts w = Throws e"
    by (simp add: main_def new_CAN_IPC_LAYER_IMPL_def)
  moreover have "\<not> (current_path_exists fs \<and> (so_path_exists fs \<or> config_exists fs \<or> so_path_is_directory fs))"
    using Throws by (auto simp: init_can_dev_def copy_ipc_config_data_def split: if_splits)
  ultimately show ?thesis using Throws by (simp add: first_controller Let_def)
next
  case (Returns p)
  obtain fs' w' where p: "p = (fs', w')" by (cases p)
  with Returns have init: "new_CAN_IPC_LAYER_IMPL h fs 0 w = (1, Returns (fs', w'))"
    by (simp add: new_CAN_IPC_LAYER_IMPL_def)
  have "current_path_exists fs \<and> (so_path_exists fs \<or> config_exists fs \<or> so_path_is_directory fs)"
    using Returns by (auto simp: init_can_dev_def copy_ipc_config_data_def split: if_splits)
  with main_runs_exits [OF init] Returns p show ?thesis
    by (simp add: first_controller Let_def)
qed

theorem main_and_its_singletons_witness:
  "rev (built (snd (IPC_SOCKET_CONTROLLER_getInstance counting_hal (no_statics sample_file_system 0)))) =
     [Static_Controller, Static_Layer, Static_Sender, Static_Receiver, Static_Filters, Static_Queue]"
  using main_and_its_singletons [of counting_hal sample_file_system undefined "[]" 0]
  by (simp add: sample_file_system_def)

text \<open>
  C29. When the first construction of the layer throws, the exception leaves the reference count at
  one, so the next call of \<open>getInstance\<close> succeeds without looking at the file system and without
  starting the HAL.
\<close>

theorem retry_skips_hal:
  assumes "IPC_SOCKET_CONTROLLER_getInstance h (no_statics fs w) = (Throws e, st)"
  shows "\<exists>st'. IPC_SOCKET_CONTROLLER_getInstance h st = (Returns (), st') \<and>
    statics_world st' = w \<and> Static_Layer \<in> set (built st')"
proof -
  from assms have st: "st = (no_statics fs w)\<lparr>built := [Static_Queue, Static_Filters, Static_Receiver,
      Static_Sender], layer_count := 1\<rparr>"
    by (auto simp: first_controller Let_def split: outcome.splits)
  show ?thesis
    unfolding st by (simp add: IPC_SOCKET_CONTROLLER_getInstance_def CAN_IPC_LAYER_IMPL_getInstance_def
        get_defs completes_def new_CAN_IPC_LAYER_IMPL_def Let_def)
qed

lemma no_files_throws:
  obtains e st where "IPC_SOCKET_CONTROLLER_getInstance h (no_statics no_files w) = (Throws e, st)"
  by (rule that) (simp add: first_controller Let_def init_can_dev_def copy_ipc_config_data_def no_files_def)

theorem retry_skips_hal_witness:
  "\<exists>st st'. fst (IPC_SOCKET_CONTROLLER_getInstance counting_hal (no_statics no_files 0)) \<noteq> Returns () \<and>
     st = snd (IPC_SOCKET_CONTROLLER_getInstance counting_hal (no_statics no_files 0)) \<and>
     IPC_SOCKET_CONTROLLER_getInstance counting_hal st = (Returns (), st') \<and> statics_world st' = 0"
proof -
  obtain e st where "IPC_SOCKET_CONTROLLER_getInstance counting_hal (no_statics no_files 0) = (Throws e, st)"
    by (rule no_files_throws)
  with retry_skips_hal [OF this] show ?thesis by auto
qed


end
