(* ===== verification/Debug_Client.thy ===== *)
theory Debug_Client
  imports Wire
begin

text \<open>
  The test client of \<^verbatim>\<open>debug/main.cpp\<close>: it subscribes to one identifier, waits for the
  acknowledgement, sends four frames, ends the subscription, waits again and returns. A second thread
  reads what the service writes, shows the received frames and passes the acknowledgements on.

  The state is that of the global variables, with what the client has written to its socket and
  which frames it has shown.
\<close>

section \<open>State\<close>

text \<open>What is printed of a received frame.\<close>

record shown_frame =
  shown_id :: u32
  shown_dlc :: u8
  shown_flags :: u8
  shown_data :: "u8 list"

record debug_client =
  temp_server_socket :: int
  cv_ready :: bool
  ack_info :: SOCKET_RETURN_ACK
  socket_ack_order :: SOCKET_ORDER_E
  client_written :: "u8 list list"
  client_shown :: "shown_frame list"

definition new_debug_client :: debug_client where
  "new_debug_client =
     \<lparr>temp_server_socket = - 1, cv_ready = False, ack_info = ACK_OKAY,
      socket_ack_order = SOCKET_ORDER_AS_SEND, client_written = [], client_shown = []\<rparr>"

text \<open>
  \<open>connect_to_server\<close> with the results of \<open>socket\<close> and \<open>connect\<close>; \<open>None\<close> is the exception that ends
  the program.
\<close>

definition connect_to_server :: "int \<Rightarrow> bool \<Rightarrow> debug_client \<Rightarrow> debug_client option" where
  "connect_to_server socket_result connect_succeeds c =
     (if socket_result = - 1 then None
      else if \<not> connect_succeeds then None
      else Some (c\<lparr>temp_server_socket := socket_result\<rparr>))"

definition client_write :: "SOCKET_PACKAGE_T \<Rightarrow> debug_client \<Rightarrow> debug_client" where
  "client_write pkg c = c\<lparr>client_written := client_written c @ [encode_package pkg]\<rparr>"

section \<open>The orders\<close>

definition CAN_MODE_FD :: u8 where
  "CAN_MODE_FD = 1"

definition client_frame :: can_frame_t where
  "client_frame =
     (let dlc = can_bytes_to_dlc 64;
          n = unat (can_dlc_to_bytes dlc)
      in zero_frame\<lparr>frame_id := 0x2FF, frame_dlc := dlc, frame_flags := CAN_MODE_FD,
           frame_data := replicate n 0x3B @ drop n (frame_data zero_frame)\<rparr>)"

definition send_package :: SOCKET_PACKAGE_T where
  "send_package =
     zero_package\<lparr>socket_magic_code := SOCKET_MAGIC_CODE, socket_order := SOCKET_ORDER_AS_SEND,
       pkg_can_port := CAN_PORT_5, pkg_can_frame := client_frame\<rparr>"

definition client_filter_package :: "SOCKET_ORDER_E \<Rightarrow> SOCKET_PACKAGE_T" where
  "client_filter_package order =
     zero_package\<lparr>socket_magic_code := SOCKET_MAGIC_CODE, socket_order := order,
       pkg_can_port := CAN_PORT_5, can_filter_cnt := 1,
       can_filter_id := [0x100] @ replicate 31 0\<rparr>"

definition socket_send_can_data :: "debug_client \<Rightarrow> debug_client" where
  "socket_send_can_data c = client_write send_package c"

text \<open>
  The two filter orders write a package and then wait until the other thread has seen an
  acknowledgement; the second half runs when it has, and \<open>None\<close> means that it still waits. The
  result says whether the acknowledgement is for the order (a mismatch is only reported).
\<close>

definition socket_add_can_filter :: "debug_client \<Rightarrow> debug_client" where
  "socket_add_can_filter c = client_write (client_filter_package SOCKET_ORDER_AS_ADD_FILTER) c"

definition socket_remove_can_filter :: "debug_client \<Rightarrow> debug_client" where
  "socket_remove_can_filter c = client_write (client_filter_package SOCKET_ORDER_AS_REMOVE_FILTER) c"

definition take_ack ::
  "SOCKET_ORDER_E \<Rightarrow> debug_client \<Rightarrow> (bool \<times> SOCKET_RETURN_ACK \<times> debug_client) option" where
  "take_ack order c =
     (if \<not> cv_ready c then None
      else Some (socket_ack_order c = order, ack_info c, c\<lparr>cv_ready := False\<rparr>))"

section \<open>The receiving thread\<close>

text \<open>
  One turn of the loop, on the bytes of one message (none when the service has closed the
  connection). A wrong magic code is reported and the package processed all the same.
\<close>

definition receive_turn :: "u8 list \<Rightarrow> debug_client \<Rightarrow> debug_client" where
  "receive_turn bytes c =
     (let socket_package = decode_package (pad_to sizeof_package bytes);
          f = pkg_can_frame socket_package
      in case socket_order socket_package of
           SOCKET_ORDER_AS_RECEIVE \<Rightarrow>
             c\<lparr>client_shown := client_shown c @
                [\<lparr>shown_id = frame_id f, shown_dlc = frame_dlc f, shown_flags = frame_flags f,
                  shown_data = take (unat (can_dlc_to_bytes (frame_dlc f))) (frame_data f)\<rparr>]\<rparr>
         | SOCKET_ORDER_AS_ACK \<Rightarrow>
             c\<lparr>cv_ready := True, socket_ack_order := socket_ack_for_order socket_package,
               ack_info := socket_ack socket_package\<rparr>
         | _ \<Rightarrow> c)"

section \<open>The program\<close>

function send_loop :: "bool \<Rightarrow> u8 \<Rightarrow> debug_client \<Rightarrow> debug_client" where
  "send_loop loop_flag loop_cnt c =
     (if \<not> loop_flag then c
      else send_loop (\<not> 3 \<le> loop_cnt) (loop_cnt + 1) (socket_send_can_data c))"
  by pat_completeness auto
termination
  by (relation "measure (\<lambda>(b, n, _). if b then Suc (256 - unat n) else 0)")
    (auto simp: word_le_nat_alt unat_word_ariths)

declare send_loop.simps [simp del]

text \<open>
  \<open>main\<close> between the two waits: what it does before the first, between them, and how it ends.
\<close>

definition main_before :: "debug_client \<Rightarrow> debug_client" where
  "main_before c = socket_add_can_filter c"

definition main_between :: "debug_client \<Rightarrow> debug_client option" where
  "main_between c =
     map_option (\<lambda>(_, _, c). socket_remove_can_filter (send_loop True 0 c))
       (take_ack SOCKET_ORDER_AS_ADD_FILTER c)"

definition main_after :: "debug_client \<Rightarrow> (bool \<times> SOCKET_RETURN_ACK) option" where
  "main_after c =
     map_option (\<lambda>(ok, ack, _). (ok, ack)) (take_ack SOCKET_ORDER_AS_REMOVE_FILTER c)"

section \<open>What the client sends\<close>

lemma wf_client_packages:
  "wf_package send_package"
  "wf_package (client_filter_package SOCKET_ORDER_AS_ADD_FILTER)"
  "wf_package (client_filter_package SOCKET_ORDER_AS_REMOVE_FILTER)"
  by (simp_all add: wf_package_def send_package_def client_filter_package_def zero_package_def
      wf_frame_def client_frame_def zero_frame_def Let_def CANFD_MAX_DLEN_def canonical_order_def
      order_of_raw_def canonical_port_def can_port_of_raw_def canonical_ack_def ack_of_raw_def
      can_bytes_to_dlc_def can_dlc_to_bytes_def dlc_table_def)

lemma client_package_sel [simp]:
  "socket_magic_code send_package = SOCKET_MAGIC_CODE"
  "socket_order send_package = SOCKET_ORDER_AS_SEND"
  "pkg_can_port send_package = CAN_PORT_5"
  "pkg_can_frame send_package = client_frame"
  "socket_magic_code (client_filter_package order) = SOCKET_MAGIC_CODE"
  "socket_order (client_filter_package order) = order"
  "can_filter_cnt (client_filter_package order) = 1"
  "can_filter_id (client_filter_package order) = 0x100 # replicate 31 0"
  by (simp_all add: send_package_def client_filter_package_def)

lemma send_loop_four:
  "send_loop True 0 c =
     socket_send_can_data (socket_send_can_data (socket_send_can_data (socket_send_can_data c)))"
  by (simp add: send_loop.simps [of True] send_loop.simps [of False] word_le_nat_alt)

lemma client_write_sel [simp]:
  "client_written (client_write pkg c) = client_written c @ [encode_package pkg]"
  "cv_ready (client_write pkg c) = cv_ready c"
  "client_shown (client_write pkg c) = client_shown c"
  by (simp_all add: client_write_def)

lemma receive_turn_package:
  "wf_package p \<Longrightarrow> decode_package (pad_to sizeof_package (encode_package p)) = p"
  by (simp add: length_encode_package decode_encode)

text \<open>
  A frame that the service writes to the client is shown with its identifier, its flags and
  exactly the payload bytes that its length code stands for.
\<close>

theorem client_shows_frame:
  assumes "wf_package p" and "socket_order p = SOCKET_ORDER_AS_RECEIVE"
  shows "client_shown (receive_turn (encode_package p) c) = client_shown c @
    [\<lparr>shown_id = frame_id (pkg_can_frame p), shown_dlc = frame_dlc (pkg_can_frame p),
      shown_flags = frame_flags (pkg_can_frame p),
      shown_data = take (unat (can_dlc_to_bytes (frame_dlc (pkg_can_frame p))))
        (frame_data (pkg_can_frame p))\<rparr>] \<and>
    cv_ready (receive_turn (encode_package p) c) = cv_ready c"
  using assms by (simp add: receive_turn_def receive_turn_package Let_def)

theorem client_shows_frame_witness:
  "client_shown (receive_turn (encode_package
     (zero_package\<lparr>socket_order := SOCKET_ORDER_AS_RECEIVE\<rparr>)) new_debug_client) =
   [\<lparr>shown_id = 0, shown_dlc = 0, shown_flags = 0, shown_data = []\<rparr>]"
proof -
  let ?p = "zero_package\<lparr>socket_order := SOCKET_ORDER_AS_RECEIVE\<rparr>"
  have "wf_package ?p"
    by (simp add: wf_package_def zero_package_def canonical_order_def order_of_raw_def
        canonical_port_def can_port_of_raw_def canonical_ack_def ack_of_raw_def)
  then show ?thesis
    using client_shows_frame [of ?p new_debug_client]
    by (simp add: zero_package_def zero_frame_def new_debug_client_def can_dlc_to_bytes_def
        dlc_table_def)
qed

end
