(* ===== verification/Message_Log.thy ===== *)
theory Message_Log
  imports Ipc_Prelude "HOL-Library.Sublist"
begin

text \<open>
  Output: a stream with its base flag and what can be inserted into it, and the log macros of
  \<^verbatim>\<open>utils/message_log.hpp\<close> in the version that prints to the standard output. (The version for the
  journal redefines the names of the journal's own priorities and does not compile.)
\<close>

section \<open>Streams\<close>

text \<open>The characters written so far, and whether integers are written in base 16.\<close>

record ostream =
  stream_text :: string
  base16 :: bool

definition empty_stream :: ostream where
  "empty_stream = \<lparr>stream_text = [], base16 = False\<rparr>"

definition digit :: "nat \<Rightarrow> char" where
  "digit d = char_of (if d < 10 then 48 + d else 87 + d)"

function show_nat :: "nat \<Rightarrow> nat \<Rightarrow> string" where
  "show_nat b n = (if b < 2 \<or> n < b then [digit n] else show_nat b (n div b) @ [digit (n mod b)])"
  by pat_completeness auto
termination
  by (relation "measure snd") auto

declare show_nat.simps [simp del]

text \<open>
  What the program inserts: text, a signed integer of some width, which base 16 shows as its two's
  complement, the manipulators of the base, and the end of a line.
\<close>

datatype insertion =
    Ins_Text string
  | Ins_Int nat int
  | Ins_Hex
  | Ins_Dec
  | Ins_Endl

definition show_int :: "bool \<Rightarrow> nat \<Rightarrow> int \<Rightarrow> string" where
  "show_int hex w i =
     (if hex then show_nat 16 (nat (i mod 2 ^ w))
      else if i < 0 then CHR ''-'' # show_nat 10 (nat (- i)) else show_nat 10 (nat i))"

definition newline :: char where
  "newline = char_of (10 :: nat)"

fun insert_into :: "insertion \<Rightarrow> ostream \<Rightarrow> ostream" where
  "insert_into (Ins_Text s) os = os\<lparr>stream_text := stream_text os @ s\<rparr>"
| "insert_into (Ins_Int w i) os = os\<lparr>stream_text := stream_text os @ show_int (base16 os) w i\<rparr>"
| "insert_into Ins_Hex os = os\<lparr>base16 := True\<rparr>"
| "insert_into Ins_Dec os = os\<lparr>base16 := False\<rparr>"
| "insert_into Ins_Endl os = os\<lparr>stream_text := stream_text os @ [newline]\<rparr>"

definition insert_all :: "insertion list \<Rightarrow> ostream \<Rightarrow> ostream" where
  "insert_all is os = fold insert_into is os"

section \<open>The macros\<close>

datatype CANIPCLogLevel =
    CAN_IPC_LOG_NONE
  | CAN_IPC_LOG_DEBUG
  | CAN_IPC_LOG_INFO
  | CAN_IPC_LOG_WARNING
  | CAN_IPC_LOG_ERROR
  | CAN_IPC_LOG_OTHER int

fun log_level_raw :: "CANIPCLogLevel \<Rightarrow> int" where
  "log_level_raw CAN_IPC_LOG_NONE = 0"
| "log_level_raw CAN_IPC_LOG_DEBUG = 1"
| "log_level_raw CAN_IPC_LOG_INFO = 2"
| "log_level_raw CAN_IPC_LOG_WARNING = 3"
| "log_level_raw CAN_IPC_LOG_ERROR = 4"
| "log_level_raw (CAN_IPC_LOG_OTHER i) = i"

definition CURRENT_IPC_LOG_LEVEL :: "int \<Rightarrow> CANIPCLogLevel" where
  "CURRENT_IPC_LOG_LEVEL CAN_IPC_LOG_LEVEL =
     (if CAN_IPC_LOG_LEVEL = 0 then CAN_IPC_LOG_NONE
      else if CAN_IPC_LOG_LEVEL = 1 then CAN_IPC_LOG_DEBUG
      else if CAN_IPC_LOG_LEVEL = 2 then CAN_IPC_LOG_INFO
      else if CAN_IPC_LOG_LEVEL = 3 then CAN_IPC_LOG_WARNING
      else if CAN_IPC_LOG_LEVEL = 4 then CAN_IPC_LOG_ERROR
      else CAN_IPC_LOG_OTHER CAN_IPC_LOG_LEVEL)"

text \<open>The value of the macro when the build does not define it.\<close>

definition default_CAN_IPC_LOG_LEVEL :: int where
  "default_CAN_IPC_LOG_LEVEL = 2"

definition CAN_IPC_LOG :: "int \<Rightarrow> CANIPCLogLevel \<Rightarrow> insertion list \<Rightarrow> ostream \<Rightarrow> ostream" where
  "CAN_IPC_LOG config log_level args cout =
     (if log_level_raw (CURRENT_IPC_LOG_LEVEL config) = 0 then cout
      else if log_level_raw (CURRENT_IPC_LOG_LEVEL config) \<le> log_level_raw log_level
      then (let oss = insert_all args empty_stream;
                line = (\<lambda>prefix. insert_all [Ins_Text prefix, Ins_Text (stream_text oss), Ins_Endl] cout)
            in case log_level of
                 CAN_IPC_LOG_DEBUG \<Rightarrow> line ''[CAN_IPC][Debug]: ''
               | CAN_IPC_LOG_INFO \<Rightarrow> line ''[CAN_IPC][Info]: ''
               | CAN_IPC_LOG_WARNING \<Rightarrow> line ''[CAN_IPC][WARNING]: ''
               | CAN_IPC_LOG_ERROR \<Rightarrow> line ''[CAN_IPC][ERROR]: ''
               | _ \<Rightarrow> cout)
      else cout)"

definition LOG_DEBUG :: "int \<Rightarrow> insertion list \<Rightarrow> ostream \<Rightarrow> ostream" where
  "LOG_DEBUG config = CAN_IPC_LOG config CAN_IPC_LOG_DEBUG"

definition LOG_INFO :: "int \<Rightarrow> insertion list \<Rightarrow> ostream \<Rightarrow> ostream" where
  "LOG_INFO config = CAN_IPC_LOG config CAN_IPC_LOG_INFO"

definition LOG_WARNING :: "int \<Rightarrow> insertion list \<Rightarrow> ostream \<Rightarrow> ostream" where
  "LOG_WARNING config = CAN_IPC_LOG config CAN_IPC_LOG_WARNING"

definition LOG_ERROR :: "int \<Rightarrow> insertion list \<Rightarrow> ostream \<Rightarrow> ostream" where
  "LOG_ERROR config = CAN_IPC_LOG config CAN_IPC_LOG_ERROR"

section \<open>Numbers can be read back\<close>

definition digit_value :: "char \<Rightarrow> nat" where
  "digit_value c = (let n = of_char c in if n < 58 then n - 48 else n - 87)"

definition read_nat :: "nat \<Rightarrow> string \<Rightarrow> nat" where
  "read_nat b s = foldl (\<lambda>n c. n * b + digit_value c) 0 s"

lemma digit_value_digit [simp]: "d < 16 \<Longrightarrow> digit_value (digit d) = d"
  by (simp add: digit_value_def digit_def Let_def)

lemma read_show_nat:
  assumes "2 \<le> b" and "b \<le> 16"
  shows "read_nat b (show_nat b n) = n"
  using assms
proof (induction b n rule: show_nat.induct)
  case (1 b n)
  show ?case
  proof (cases "n < b")
    case True
    with 1(3) show ?thesis by (simp add: show_nat.simps [of b n] read_nat_def)
  next
    case False
    with 1 have "read_nat b (show_nat b (n div b)) = n div b" by simp
    moreover have "n mod b < 16" using 1(2,3) by (metis less_le_trans mod_less_divisor zero_less_numeral order_less_le_trans)
    ultimately show ?thesis
      using False 1(2) by (simp add: show_nat.simps [of b n] read_nat_def)
  qed
qed

lemma show_nat_inject: "2 \<le> b \<Longrightarrow> b \<le> 16 \<Longrightarrow> show_nat b m = show_nat b n \<longleftrightarrow> m = n"
  using read_show_nat by metis

section \<open>What a sequence of messages prints\<close>

fun level_prefix :: "CANIPCLogLevel \<Rightarrow> string option" where
  "level_prefix CAN_IPC_LOG_DEBUG = Some ''[CAN_IPC][Debug]: ''"
| "level_prefix CAN_IPC_LOG_INFO = Some ''[CAN_IPC][Info]: ''"
| "level_prefix CAN_IPC_LOG_WARNING = Some ''[CAN_IPC][WARNING]: ''"
| "level_prefix CAN_IPC_LOG_ERROR = Some ''[CAN_IPC][ERROR]: ''"
| "level_prefix _ = None"

definition log_line :: "CANIPCLogLevel \<times> insertion list \<Rightarrow> string" where
  "log_line m = the (level_prefix (fst m)) @ stream_text (insert_all (snd m) empty_stream) @ [newline]"

definition log_shown :: "int \<Rightarrow> CANIPCLogLevel \<times> insertion list \<Rightarrow> bool" where
  "log_shown config m \<longleftrightarrow> config \<noteq> 0 \<and> level_prefix (fst m) \<noteq> None \<and> config \<le> log_level_raw (fst m)"

definition log_all :: "int \<Rightarrow> (CANIPCLogLevel \<times> insertion list) list \<Rightarrow> ostream \<Rightarrow> ostream" where
  "log_all config ms cout = fold (\<lambda>(l, args). CAN_IPC_LOG config l args) ms cout"

lemma CURRENT_IPC_LOG_LEVEL_raw [simp]: "log_level_raw (CURRENT_IPC_LOG_LEVEL config) = config"
  by (simp add: CURRENT_IPC_LOG_LEVEL_def)

lemma CAN_IPC_LOG_eq:
  "CAN_IPC_LOG config l args cout =
     (if log_shown config (l, args) then cout\<lparr>stream_text := stream_text cout @ log_line (l, args)\<rparr> else cout)"
  by (cases l) (simp_all add: CAN_IPC_LOG_def log_shown_def log_line_def insert_all_def)

lemma log_all_eq:
  "log_all config ms cout =
     cout\<lparr>stream_text := stream_text cout @ concat (map log_line (filter (log_shown config) ms))\<rparr>"
  by (induction ms arbitrary: cout) (auto simp: log_all_def CAN_IPC_LOG_eq)

text \<open>
  C40. Whatever is logged, the standard output gets one line for each message at or above the
  configured level, in order, with the message's own text, and its base flag stays as it was,
  whatever manipulators the messages hold. Raising the level only removes lines, and level 0
  removes all.
\<close>

theorem log_all_lines:
  assumes "0 < config" and "config \<le> config'"
  shows "log_all config ms cout =
      cout\<lparr>stream_text := stream_text cout @ concat (map log_line (filter (log_shown config) ms))\<rparr> \<and>
    subseq (filter (log_shown config') ms) (filter (log_shown config) ms) \<and>
    log_all 0 ms cout = cout"
proof (intro conjI)
  show "log_all config ms cout =
      cout\<lparr>stream_text := stream_text cout @ concat (map log_line (filter (log_shown config) ms))\<rparr>"
    by (rule log_all_eq)
  have "filter (log_shown config') ms = filter (log_shown config') (filter (log_shown config) ms)"
    using assms by (auto simp: log_shown_def intro!: filter_cong)
  then show "subseq (filter (log_shown config') ms) (filter (log_shown config) ms)"
    by (metis subseq_filter_left)
  have "filter (log_shown 0) ms = []" by (simp add: log_shown_def)
  then show "log_all 0 ms cout = cout" by (simp add: log_all_eq)
qed

theorem log_all_lines_witness:
  "log_all default_CAN_IPC_LOG_LEVEL
     [(CAN_IPC_LOG_DEBUG, [Ins_Text ''a'']), (CAN_IPC_LOG_ERROR, [Ins_Text ''0x'', Ins_Hex, Ins_Int 32 255])]
     empty_stream = \<lparr>stream_text = ''[CAN_IPC][ERROR]: 0xff'' @ [newline], base16 = False\<rparr>"
  using log_all_lines [of default_CAN_IPC_LOG_LEVEL 3
      "[(CAN_IPC_LOG_DEBUG, [Ins_Text ''a'']), (CAN_IPC_LOG_ERROR, [Ins_Text ''0x'', Ins_Hex, Ins_Int 32 255])]"
      empty_stream]
  by (simp add: default_CAN_IPC_LOG_LEVEL_def log_shown_def log_line_def insert_all_def empty_stream_def
      show_int_def show_nat.simps digit_def char_of_def bit_iff_odd drop_bit_eq_div)

end
