(* ===== verification/Debug_Threads.thy ===== *)
theory Debug_Threads
  imports Debug_Client Message_Log Service_Correct "HOL-Library.Signed_Division"
begin

text \<open>
  The test client of \<^verbatim>\<open>debug/main.cpp\<close> with its two threads, interleaved at the accesses to the
  global variables and at every insertion into the standard output, against the handler of the
  service that it talks to.

  As with the service, a thread is a function from its place to its next place, here with what it
  then inserts into the standard output; it goes on when all of that has been inserted. The text
  that a critical section prints is inserted after it, which makes no difference to the other
  thread: it does not print inside one.
\<close>

section \<open>The main thread\<close>

text \<open>The answers of the system calls, and what \<open>static_cast<int>\<close> makes of an acknowledgement.\<close>

record client_env =
  socket_returns :: int
  connect_succeeds :: bool
  write_succeeds :: bool

definition ack_int :: "SOCKET_RETURN_ACK \<Rightarrow> int" where
  "ack_int a = sint (ack_raw a)"

fun order_name :: "SOCKET_ORDER_E \<Rightarrow> string" where
  "order_name SOCKET_ORDER_AS_ADD_FILTER = ''socket_add_can_filter''"
| "order_name _ = ''socket_remove_can_filter''"

datatype main_place =
    Main_Start
  | Main_Connect
  | Main_Spawn
  | Main_Order SOCKET_ORDER_E
  | Main_Wait SOCKET_ORDER_E
  | Main_Sleep SOCKET_ORDER_E
  | Main_Take SOCKET_ORDER_E
  | Main_Loop bool u8
  | Main_Send bool u8
  | Main_Return
  | Main_Throws

definition say :: "string \<Rightarrow> insertion list" where
  "say s = [Ins_Text s, Ins_Endl]"

definition say_int :: "string \<Rightarrow> nat \<Rightarrow> int \<Rightarrow> insertion list" where
  "say_int s w i = [Ins_Text s, Ins_Int w i, Ins_Endl]"

text \<open>The words for time stamp and interval, and the mark between them, as UTF-8.\<close>

definition time_stamp_text :: string where
  "time_stamp_text =
     map char_of [0xE6, 0x97, 0xB6, 0xE9, 0x97, 0xB4, 0xE6, 0x88, 0xB3 :: nat] @ '': ''"

definition interval_text :: string where
  "interval_text =
     map char_of [0xE9, 0x97, 0xB4, 0xE9, 0x9A, 0x94, 0xE6, 0x97, 0xB6, 0xE9, 0x97, 0xB4 :: nat] @ '': ''"

text \<open>Division of C++ truncates; a clock that goes back gives a negative interval.\<close>

definition say_times :: "int \<Rightarrow> int \<Rightarrow> insertion list" where
  "say_times ns_last_epoch ns_since_epoch =
     say_int time_stamp_text 64 ns_since_epoch @
     [Ins_Text interval_text, Ins_Int 64 ((ns_since_epoch - ns_last_epoch) sdiv 1000), Ins_Text ''us'', Ins_Endl]"

text \<open>
  One write of a package, with the report of a failure; \<open>name\<close> is what the program calls the
  function there.
\<close>

definition write_or_say ::
  "client_env \<Rightarrow> string \<Rightarrow> SOCKET_PACKAGE_T \<Rightarrow> debug_client \<Rightarrow> debug_client \<times> insertion list" where
  "write_or_say env name pkg c =
     (if write_succeeds env then (client_write pkg c, [])
      else (c, say (name @ '' Error!'')))"

definition say_no_socket :: "debug_client \<Rightarrow> insertion list" where
  "say_no_socket c =
     (if temp_server_socket c = - 1 then say_int ''Error server socket: '' 32 (temp_server_socket c) else [])"

fun main_goes ::
  "client_env \<Rightarrow> int \<Rightarrow> main_place \<Rightarrow> int \<times> debug_client \<Rightarrow>
   main_place \<times> (int \<times> debug_client) \<times> insertion list" where
  "main_goes env now Main_Start (e, c) =
     (Main_Connect, (e, c), say ''Start Test Local main'' @ say ''Connect to Server'')"
| "main_goes env now Main_Connect (e, c) =
     (let path = say (''ipc_can_socket_server_path is '' @ ipc_can_socket_server_path)
      in case connect_to_server (socket_returns env) (connect_succeeds env) c of
           None \<Rightarrow> (Main_Throws, (e, c), if socket_returns env = - 1 then [] else path)
         | Some c \<Rightarrow>
             (Main_Spawn, (e, c), path @ say (''Connect to Server at: '' @ ipc_can_socket_server_path)))"
| "main_goes env now Main_Spawn (e, c) = (Main_Order SOCKET_ORDER_AS_ADD_FILTER, (now, c), [])"
| "main_goes env now (Main_Order order) (e, c) =
     (let name = ''Clite Write ['' @ order_name order @ '']'';
          (c', failed) = write_or_say env name (client_filter_package order) c
      in (Main_Wait order, (e, c'),
          say_no_socket c @ failed @ say (''Wait for '' @ order_name order @ '' Ack!'')))"
| "main_goes env now (Main_Wait order) (e, c) =
     (if cv_ready c then (Main_Take order, (e, c), say (''Get '' @ order_name order @ '' Ack!''))
      else (Main_Sleep order, (e, c), []))"
| "main_goes env now (Main_Sleep order) (e, c) = (Main_Sleep order, (e, c), [])"
| "main_goes env now (Main_Take order) (e, c) =
     (if order = SOCKET_ORDER_AS_ADD_FILTER then Main_Loop True 0 else Main_Return,
      (e, c\<lparr>cv_ready := False\<rparr>),
      (if socket_ack_order c = order then [] else say ''Get a error Ack order.'') @
      say_int (order_name order @ '' ack is: '') 32 (ack_int (ack_info c)))"
| "main_goes env now (Main_Loop loop_flag loop_cnt) (e, c) =
     (if loop_flag then (Main_Send (\<not> 3 \<le> loop_cnt) loop_cnt, (e, c), say ''Send can data'')
      else (Main_Order SOCKET_ORDER_AS_REMOVE_FILTER, (e, c), []))"
| "main_goes env now (Main_Send loop_flag loop_cnt) (e, c) =
     (let (c', failed) = write_or_say env ''Client Write [socket_send_can_data]'' send_package c
      in (Main_Loop loop_flag (loop_cnt + 1), (now, c'), say_no_socket c @ failed @ say_times e now))"
| "main_goes env now Main_Return (e, c) = (Main_Return, (e, c), [])"
| "main_goes env now Main_Throws (e, c) = (Main_Throws, (e, c), [])"

section \<open>The reading thread\<close>

text \<open>
  The thread has not been started, starts, reads, is about to pass an acknowledgement on, is about
  to notify, or has thrown.
\<close>

datatype reader_place =
    Rd_None
  | Rd_Start
  | Rd_Read
  | Rd_Flag SOCKET_PACKAGE_T
  | Rd_Notify
  | Rd_Throws

definition say_frame :: "can_frame_t \<Rightarrow> insertion list" where
  "say_frame f =
     say_int ''socket_package.can_frame.id is 0x'' 32 (uint (frame_id f)) @
     say_int ''socket_package.can_frame.dlc is '' 32 (uint (frame_dlc f)) @
     say_int ''socket_package.can_frame.flags is '' 32 (uint (frame_flags f)) @
     [Ins_Text ''socket_package.can_frame.data is: [''] @
     concat (map (\<lambda>b. [Ins_Hex, Ins_Int 32 (uint b), Ins_Text '' ''])
       (take (unat (can_dlc_to_bytes (frame_dlc f))) (frame_data f))) @
     [Ins_Dec, Ins_Text '']'', Ins_Endl]"

text \<open>A turn of the loop on what \<open>read\<close> delivered; no bytes stand for the end of the connection.\<close>

definition reader_reads ::
  "u8 list \<Rightarrow> debug_client \<Rightarrow> reader_place \<times> debug_client \<times> insertion list" where
  "reader_reads bytes c =
     (let socket_package = decode_package (pad_to sizeof_package bytes);
          invalid = (if socket_magic_code socket_package \<noteq> SOCKET_MAGIC_CODE
                     then say ''[receive_thread] Read a invalied data.'' else [])
      in case socket_order socket_package of
           SOCKET_ORDER_AS_RECEIVE \<Rightarrow>
             (Rd_Read, receive_turn bytes c, invalid @ say_frame (pkg_can_frame socket_package))
         | SOCKET_ORDER_AS_ACK \<Rightarrow>
             (Rd_Flag socket_package, c, invalid @ say ''[receive_thread] Get Ack!'')
         | _ \<Rightarrow> (Rd_Read, c, invalid))"

definition reader_flags :: "SOCKET_PACKAGE_T \<Rightarrow> debug_client \<Rightarrow> debug_client" where
  "reader_flags socket_package c =
     c\<lparr>cv_ready := True, socket_ack_order := socket_ack_for_order socket_package,
       ack_info := socket_ack socket_package\<rparr>"

text \<open>Together these are the turn of \<open>Debug_Client\<close>.\<close>

lemma reader_turn:
  assumes "reader_reads bytes c = (p, c', is)"
  shows "receive_turn bytes c = (case p of Rd_Flag pkg \<Rightarrow> reader_flags pkg c' | _ \<Rightarrow> c')"
  using assms
  by (auto simp: reader_reads_def receive_turn_def reader_flags_def Let_def split: SOCKET_ORDER_E.splits)

section \<open>Both threads and the service\<close>

text \<open>
  The connection is open, closed by the service (\<open>read\<close> delivers nothing once the messages are
  read) or broken (\<open>read\<close> fails).
\<close>

datatype connection = Open | Closed | Broken

text \<open>
  The insertions into the standard output are logged with the thread that made them, \<open>True\<close> for the
  main thread. Of the service there is the controller and how many packages its handler has read.
\<close>

record 'w client_sys =
  globals :: debug_client
  last_epoch :: int
  main_at :: main_place
  main_out :: "insertion list"
  reader_at :: reader_place
  reader_out :: "insertion list"
  stdout_log :: "(bool \<times> insertion) list"
  inbox :: "u8 list list"
  connection :: connection
  peer :: "'w controller"
  handled :: nat

definition stdout :: "'w client_sys \<Rightarrow> ostream" where
  "stdout s = insert_all (map snd (stdout_log s)) empty_stream"

text \<open>The process ends when \<open>main\<close> returns, and when a thread throws.\<close>

definition running :: "'w client_sys \<Rightarrow> bool" where
  "running s \<longleftrightarrow> reader_at s \<noteq> Rd_Throws \<and>
     (main_out s \<noteq> [] \<or> main_at s \<noteq> Main_Return \<and> main_at s \<noteq> Main_Throws)"

fun wake_main :: "main_place \<Rightarrow> main_place" where
  "wake_main (Main_Sleep order) = Main_Wait order"
| "wake_main p = p"

definition written_to :: "int \<Rightarrow> io_event list \<Rightarrow> u8 list list" where
  "written_to fd es = concat (map (\<lambda>e. case e of Io_Write c b \<Rightarrow> if c = fd then [b] else [] | _ \<Rightarrow> []) es)"

text \<open>What the two threads and the handler do.\<close>

inductive client_acts :: "'w hal \<Rightarrow> int \<Rightarrow> client_env \<Rightarrow> 'w client_sys \<Rightarrow> 'w client_sys \<Rightarrow> bool"
  for h :: "'w hal" and fd :: int and env :: client_env where
  main_prints: "running s \<Longrightarrow> main_out s = i # is \<Longrightarrow>
     client_acts h fd env s (s\<lparr>main_out := is, stdout_log := stdout_log s @ [(True, i)]\<rparr>)"
| main_goes_on: "running s \<Longrightarrow> main_out s = [] \<Longrightarrow> \<nexists>order. main_at s = Main_Sleep order \<Longrightarrow>
     main_goes env now (main_at s) (last_epoch s, globals s) = (p, (e, c), is) \<Longrightarrow>
     client_acts h fd env s (s\<lparr>globals := c, last_epoch := e, main_at := p, main_out := is,
       reader_at := (if main_at s = Main_Spawn then Rd_Start else reader_at s)\<rparr>)"
| reader_prints: "running s \<Longrightarrow> reader_out s = i # is \<Longrightarrow>
     client_acts h fd env s (s\<lparr>reader_out := is, stdout_log := stdout_log s @ [(False, i)]\<rparr>)"
| reader_starts: "running s \<Longrightarrow> reader_at s = Rd_Start \<Longrightarrow>
     client_acts h fd env s (s\<lparr>reader_at := Rd_Read, reader_out := say ''Start receive thread.''\<rparr>)"
| reader_reads_message: "running s \<Longrightarrow> reader_out s = [] \<Longrightarrow> reader_at s = Rd_Read \<Longrightarrow>
     inbox s = m # ms \<Longrightarrow> reader_reads m (globals s) = (p, c, is) \<Longrightarrow>
     client_acts h fd env s (s\<lparr>globals := c, reader_at := p, reader_out := is, inbox := ms\<rparr>)"
| reader_reads_end: "running s \<Longrightarrow> reader_out s = [] \<Longrightarrow> reader_at s = Rd_Read \<Longrightarrow>
     inbox s = [] \<Longrightarrow> connection s = Closed \<Longrightarrow> reader_reads [] (globals s) = (p, c, is) \<Longrightarrow>
     client_acts h fd env s (s\<lparr>globals := c, reader_at := p, reader_out := is\<rparr>)"
| reader_fails: "running s \<Longrightarrow> reader_out s = [] \<Longrightarrow> reader_at s = Rd_Read \<Longrightarrow>
     inbox s = [] \<Longrightarrow> connection s = Broken \<Longrightarrow>
     client_acts h fd env s (s\<lparr>reader_at := Rd_Throws\<rparr>)"
| reader_sets: "running s \<Longrightarrow> reader_out s = [] \<Longrightarrow> reader_at s = Rd_Flag pkg \<Longrightarrow>
     client_acts h fd env s (s\<lparr>globals := reader_flags pkg (globals s), reader_at := Rd_Notify\<rparr>)"
| reader_notifies: "running s \<Longrightarrow> reader_at s = Rd_Notify \<Longrightarrow>
     client_acts h fd env s (s\<lparr>reader_at := Rd_Read, main_at := wake_main (main_at s)\<rparr>)"
| serves: "connection s = Open \<Longrightarrow> handled s < length (client_written (globals s)) \<Longrightarrow>
     handle_package h fd (decode_package (client_written (globals s) ! handled s)) (peer s) = Inr ctl \<Longrightarrow>
     client_acts h fd env s (s\<lparr>handled := Suc (handled s), peer := ctl,
       inbox := inbox s @ written_to fd (drop (length (io_log (peer s))) (io_log ctl))\<rparr>)"

text \<open>
  What else happens: spurious wakeups, frames from the worker of the service, anything that other
  clients do to the service, and, unless the service stays, the end of the connection.
\<close>

inductive client_step :: "'w hal \<Rightarrow> int \<Rightarrow> client_env \<Rightarrow> bool \<Rightarrow> 'w client_sys \<Rightarrow> 'w client_sys \<Rightarrow> bool"
  for h :: "'w hal" and fd :: int and env :: client_env and stays :: bool where
  acts: "client_acts h fd env s t \<Longrightarrow> client_step h fd env stays s t"
| spurious: "client_step h fd env stays s (s\<lparr>main_at := wake_main (main_at s)\<rparr>)"
| delivers: "connection s = Open \<Longrightarrow> wf_frame f \<Longrightarrow>
     client_step h fd env stays s (s\<lparr>inbox := inbox s @ [encode_package (receive_package f)]\<rparr>)"
| others: "client_step h fd env stays s (s\<lparr>peer := ctl\<rparr>)"
| closes: "\<not> stays \<Longrightarrow> connection s = Open \<Longrightarrow> client_step h fd env stays s (s\<lparr>connection := Closed\<rparr>)"
| breaks: "\<not> stays \<Longrightarrow> connection s = Open \<Longrightarrow> client_step h fd env stays s (s\<lparr>connection := Broken\<rparr>)"

definition client_start :: "'w controller \<Rightarrow> 'w client_sys" where
  "client_start ctl =
     \<lparr>globals = new_debug_client, last_epoch = 0, main_at = Main_Start, main_out = [],
      reader_at = Rd_None, reader_out = [], stdout_log = [], inbox = [], connection = Open,
      peer = ctl, handled = 0\<rparr>"

definition client_init :: "'w client_sys \<Rightarrow> bool" where
  "client_init s \<longleftrightarrow> (\<exists>ctl. s = client_start ctl)"

inductive_cases client_actsE: "client_acts h fd env s t"
inductive_cases client_stepE: "client_step h fd env stays s t"

end
