(* ===== verification/Debug_Session.thy ===== *)
theory Debug_Session
  imports Debug_Threads
begin

text \<open>
  The session of the test client with the service. In every reachable state the client has written a
  prefix of its six packages, exactly the acknowledgement it waits for is under way, and the main
  thread has said what belongs to its place. So the threads never wait for each other in vain, and
  every run that the service does not break off ends with \<open>main\<close> returning.
\<close>

section \<open>The script of the session\<close>

definition script :: "SOCKET_PACKAGE_T list" where
  "script = [client_filter_package SOCKET_ORDER_AS_ADD_FILTER] @ replicate 4 send_package @
     [client_filter_package SOCKET_ORDER_AS_REMOVE_FILTER]"

text \<open>How many packages the main thread has written.\<close>

fun sent :: "main_place \<Rightarrow> nat" where
  "sent (Main_Order order) = (if order = SOCKET_ORDER_AS_ADD_FILTER then 0 else 5)"
| "sent (Main_Wait order) = (if order = SOCKET_ORDER_AS_ADD_FILTER then 1 else 6)"
| "sent (Main_Sleep order) = (if order = SOCKET_ORDER_AS_ADD_FILTER then 1 else 6)"
| "sent (Main_Take order) = (if order = SOCKET_ORDER_AS_ADD_FILTER then 1 else 6)"
| "sent (Main_Loop loop_flag loop_cnt) = Suc (unat loop_cnt)"
| "sent (Main_Send loop_flag loop_cnt) = Suc (unat loop_cnt)"
| "sent Main_Return = 6"
| "sent _ = 0"

fun place_ok :: "main_place \<Rightarrow> bool" where
  "place_ok (Main_Order order) \<longleftrightarrow> order \<in> {SOCKET_ORDER_AS_ADD_FILTER, SOCKET_ORDER_AS_REMOVE_FILTER}"
| "place_ok (Main_Wait order) \<longleftrightarrow> order \<in> {SOCKET_ORDER_AS_ADD_FILTER, SOCKET_ORDER_AS_REMOVE_FILTER}"
| "place_ok (Main_Sleep order) \<longleftrightarrow> order \<in> {SOCKET_ORDER_AS_ADD_FILTER, SOCKET_ORDER_AS_REMOVE_FILTER}"
| "place_ok (Main_Take order) \<longleftrightarrow> order \<in> {SOCKET_ORDER_AS_ADD_FILTER, SOCKET_ORDER_AS_REMOVE_FILTER}"
| "place_ok (Main_Loop loop_flag loop_cnt) \<longleftrightarrow> unat loop_cnt \<le> 4 \<and> (loop_flag \<longleftrightarrow> unat loop_cnt < 4)"
| "place_ok (Main_Send loop_flag loop_cnt) \<longleftrightarrow> unat loop_cnt < 4 \<and> (loop_flag \<longleftrightarrow> unat loop_cnt < 3)"
| "place_ok Main_Throws \<longleftrightarrow> False"
| "place_ok _ \<longleftrightarrow> True"

text \<open>
  What the main thread has said when it is at a place and has inserted everything, with the times
  blanked.
\<close>

definition blank :: "insertion \<Rightarrow> insertion" where
  "blank i = (case i of Ins_Int w _ \<Rightarrow> if w = 64 then Ins_Int 64 0 else i | _ \<Rightarrow> i)"

definition said_start :: "insertion list" where
  "said_start = say ''Start Test Local main'' @ say ''Connect to Server''"

definition said_connect :: "insertion list" where
  "said_connect = said_start @ say (''ipc_can_socket_server_path is '' @ ipc_can_socket_server_path) @
     say (''Connect to Server at: '' @ ipc_can_socket_server_path)"

definition said_order :: "SOCKET_ORDER_E \<Rightarrow> insertion list" where
  "said_order order = say (''Wait for '' @ order_name order @ '' Ack!'')"

definition said_got :: "SOCKET_ORDER_E \<Rightarrow> insertion list" where
  "said_got order = said_order order @ say (''Get '' @ order_name order @ '' Ack!'')"

definition said_ack :: "SOCKET_ORDER_E \<Rightarrow> insertion list" where
  "said_ack order = said_got order @ say_int (order_name order @ '' ack is: '') 32 0"

definition said_send :: "insertion list" where
  "said_send = say ''Send can data'' @ map blank (say_times 0 0)"

definition said_loop :: "nat \<Rightarrow> insertion list" where
  "said_loop n = said_connect @ said_ack SOCKET_ORDER_AS_ADD_FILTER @ concat (replicate n said_send)"

definition said_before :: "SOCKET_ORDER_E \<Rightarrow> insertion list" where
  "said_before order = (if order = SOCKET_ORDER_AS_ADD_FILTER then said_connect else said_loop 4)"

fun said :: "main_place \<Rightarrow> insertion list" where
  "said Main_Connect = said_start"
| "said Main_Spawn = said_connect"
| "said (Main_Order order) = said_before order"
| "said (Main_Wait order) = said_before order @ said_order order"
| "said (Main_Sleep order) = said_before order @ said_order order"
| "said (Main_Take order) = said_before order @ said_got order"
| "said (Main_Loop loop_flag loop_cnt) = said_loop (unat loop_cnt)"
| "said (Main_Send loop_flag loop_cnt) = said_loop (unat loop_cnt) @ say ''Send can data''"
| "said Main_Return = said_loop 4 @ said_ack SOCKET_ORDER_AS_REMOVE_FILTER"
| "said _ = []"

definition main_said :: "'w client_sys \<Rightarrow> insertion list" where
  "main_said s = map blank (map snd (filter fst (stdout_log s)) @ main_out s)"

section \<open>The acknowledgements under way\<close>

type_synonym ack = "SOCKET_ORDER_E \<times> SOCKET_RETURN_ACK"

definition ack_of_package :: "SOCKET_PACKAGE_T \<Rightarrow> ack list" where
  "ack_of_package p =
     (if socket_order p = SOCKET_ORDER_AS_ACK then [(socket_ack_for_order p, socket_ack p)] else [])"

definition owed_for :: "SOCKET_PACKAGE_T \<Rightarrow> ack list" where
  "owed_for p =
     (if socket_order p \<in> {SOCKET_ORDER_AS_ADD_FILTER, SOCKET_ORDER_AS_REMOVE_FILTER}
      then [(socket_order p, ACK_OKAY)] else [])"

text \<open>
  Those the handler still owes, those in messages, the one the reading thread is passing on, and the
  one that has been passed on and not taken.
\<close>

fun passing :: "reader_place \<Rightarrow> ack multiset" where
  "passing (Rd_Flag p) = {#(socket_ack_for_order p, socket_ack p)#}"
| "passing _ = {#}"

definition flagged :: "debug_client \<Rightarrow> ack multiset" where
  "flagged c = (if cv_ready c then {#(socket_ack_order c, ack_info c)#} else {#})"

definition acks_under_way :: "'w client_sys \<Rightarrow> ack multiset" where
  "acks_under_way s =
     mset (concat (map owed_for (drop (handled s) (take (sent (main_at s)) script)))) +
     mset (concat (map (\<lambda>m. ack_of_package (decode_package m)) (inbox s))) +
     passing (reader_at s) +
     flagged (globals s)"

lemma flagged_write [simp]: "flagged (client_write pkg c) = flagged c"
  by (simp add: flagged_def client_write_def)

fun awaited :: "main_place \<Rightarrow> ack list" where
  "awaited (Main_Wait order) = [(order, ACK_OKAY)]"
| "awaited (Main_Sleep order) = [(order, ACK_OKAY)]"
| "awaited (Main_Take order) = [(order, ACK_OKAY)]"
| "awaited _ = []"

section \<open>The invariant\<close>

definition message_ok :: "u8 list \<Rightarrow> bool" where
  "message_ok m \<longleftrightarrow> (\<exists>p. wf_package p \<and> socket_magic_code p = SOCKET_MAGIC_CODE \<and>
     socket_order p \<in> {SOCKET_ORDER_AS_RECEIVE, SOCKET_ORDER_AS_ACK} \<and> m = encode_package p)"

definition session_inv :: "'w client_sys \<Rightarrow> bool" where
  "session_inv s \<longleftrightarrow>
     place_ok (main_at s) \<and>
     connection s = Open \<and> reader_at s \<noteq> Rd_Throws \<and>
     (main_at s \<in> {Main_Start, Main_Connect, Main_Spawn} \<longleftrightarrow> reader_at s = Rd_None) \<and>
     (main_at s \<notin> {Main_Start, Main_Connect} \<longrightarrow> temp_server_socket (globals s) \<noteq> - 1) \<and>
     client_written (globals s) = map encode_package (take (sent (main_at s)) script) \<and>
     handled s \<le> sent (main_at s) \<and>
     (\<forall>m \<in> set (inbox s). message_ok m) \<and>
     acks_under_way s = mset (awaited (main_at s)) \<and>
     (\<forall>order. main_at s = Main_Take order \<longrightarrow> cv_ready (globals s)) \<and>
     (\<forall>order. main_at s = Main_Sleep order \<longrightarrow> cv_ready (globals s) \<longrightarrow> reader_at s = Rd_Notify) \<and>
     main_said s = said (main_at s)"

definition env_ok :: "client_env \<Rightarrow> bool" where
  "env_ok env \<longleftrightarrow> socket_returns env \<noteq> - 1 \<and> connect_succeeds env \<and> write_succeeds env"

lemma length_script [simp]: "length script = 6"
  by (simp add: script_def)

lemma script_nth:
  "script ! 0 = client_filter_package SOCKET_ORDER_AS_ADD_FILTER"
  "0 < n \<Longrightarrow> n \<le> 4 \<Longrightarrow> script ! n = send_package"
  "script ! 5 = client_filter_package SOCKET_ORDER_AS_REMOVE_FILTER"
  by (auto simp: script_def nth_Cons' nth_append)

lemma wf_script: "n < 6 \<Longrightarrow> wf_package (script ! n)"
  using wf_client_packages by (cases "n = 0"; cases "n = 5") (simp_all add: script_nth)

lemma script_Suc:
  assumes "n < 6" and "k \<le> n"
  shows "drop k (take (Suc n) script) = drop k (take n script) @ [script ! n]"
  using assms by (simp add: take_Suc_conv_app_nth)

lemma said_loop_Suc: "said_loop (Suc n) = said_loop n @ said_send"
  by (induction n) (simp_all add: said_loop_def)

text \<open>A step of the main thread that does not write a package, and one that does.\<close>

lemma main_goes_inv:
  assumes "place_ok p" and "env_ok env" and "\<nexists>order. p = Main_Sleep order" and "p \<noteq> Main_Return"
    and socket: "p \<notin> {Main_Start, Main_Connect} \<longrightarrow> temp_server_socket c \<noteq> - 1"
    and take: "\<forall>order. p = Main_Take order \<longrightarrow> cv_ready c \<and> socket_ack_order c = order \<and> ack_info c = ACK_OKAY"
    and goes: "main_goes env now p (e, c) = (p', (e', c'), is)"
  obtains (silent) "sent p' = sent p" "client_written c' = client_written c"
      "place_ok p'" "said p' = said p @ map blank is"
      "p' \<notin> {Main_Start, Main_Connect} \<longrightarrow> temp_server_socket c' \<noteq> - 1"
      "p' \<in> {Main_Start, Main_Connect, Main_Spawn} \<longleftrightarrow> p \<in> {Main_Start, Main_Connect}"
      "awaited p' = (if \<exists>order. p = Main_Take order then [] else awaited p)"
      "cv_ready c' \<longleftrightarrow> cv_ready c \<and> (\<nexists>order. p = Main_Take order)"
      "socket_ack_order c' = socket_ack_order c" "ack_info c' = ack_info c"
      "\<forall>order. p' = Main_Take order \<longrightarrow> cv_ready c'" "\<forall>order. p' = Main_Sleep order \<longrightarrow> \<not> cv_ready c'"
  | (writes) "sent p < 6" "sent p' = Suc (sent p)" "c' = client_write (script ! sent p) c"
      "place_ok p'" "said p' = said p @ map blank is" "awaited p = []" "p \<noteq> Main_Spawn"
      "p' \<notin> {Main_Start, Main_Connect, Main_Spawn}" "p \<notin> {Main_Start, Main_Connect, Main_Spawn}"
      "awaited p' = owed_for (script ! sent p)"
      "\<nexists>order. p' = Main_Take order \<or> p' = Main_Sleep order"
proof (cases p)
  case Main_Start
  with goes show ?thesis
    by (intro silent) (auto simp: said_start_def say_def blank_def)
next
  case Main_Connect
  with goes assms(2) show ?thesis
    by (intro silent) (auto simp: env_ok_def connect_to_server_def said_connect_def say_def blank_def Let_def)
next
  case Main_Spawn
  with goes socket show ?thesis
    by (intro silent) (auto simp: said_before_def)
next
  case (Main_Wait order)
  with goes socket assms(1) show ?thesis
    by (intro silent) (auto simp: said_got_def said_order_def say_def blank_def split: if_splits)
next
  case (Main_Take order)
  with take have "cv_ready c" "socket_ack_order c = order" "ack_info c = ACK_OKAY" by auto
  with Main_Take goes socket assms(1) show ?thesis
    by (intro silent) (auto simp: said_ack_def said_got_def said_order_def said_loop_def said_before_def
        say_def say_int_def blank_def ack_int_def split: if_splits)
next
  case (Main_Loop loop_flag loop_cnt)
  have "unat loop_cnt = 4" if "\<not> loop_flag" using that Main_Loop assms(1) by auto
  with Main_Loop goes socket assms(1) show ?thesis
    by (intro silent) (auto simp: say_def blank_def said_before_def word_le_nat_alt split: if_splits)
next
  case (Main_Order order)
  with goes socket assms(1,2) show ?thesis
    by (intro writes) (auto simp: env_ok_def write_or_say_def Let_def say_no_socket_def script_nth
        said_order_def say_def blank_def owed_for_def)
next
  case (Main_Send loop_flag loop_cnt)
  with assms(1) have cnt: "unat loop_cnt < 4" "unat (loop_cnt + 1) = Suc (unat loop_cnt)"
    by (simp_all add: unat_word_ariths)
  with Main_Send goes socket assms(1,2) show ?thesis
    by (intro writes) (auto simp: env_ok_def write_or_say_def Let_def say_no_socket_def script_nth
        said_loop_Suc said_send_def say_def say_int_def say_times_def blank_def owed_for_def)
qed (use assms(1,3,4) in auto)

lemma session_inv_main:
  assumes inv: "session_inv s" and "env_ok env"
    and main: "running s" "main_out s = []" "\<nexists>order. main_at s = Main_Sleep order"
      "main_goes env now (main_at s) (last_epoch s, globals s) = (p, (e, c), is)"
  shows "session_inv (s\<lparr>globals := c, last_epoch := e, main_at := p, main_out := is,
       reader_at := (if main_at s = Main_Spawn then Rd_Start else reader_at s)\<rparr>)" (is "session_inv ?t")
proof -
  from inv have ok: "place_ok (main_at s)" and acks: "acks_under_way s = mset (awaited (main_at s))"
    and socket: "main_at s \<notin> {Main_Start, Main_Connect} \<longrightarrow> temp_server_socket (globals s) \<noteq> - 1"
    and said: "main_said s = said (main_at s)" and "handled s \<le> sent (main_at s)"
    by (simp_all add: session_inv_def)
  have ret: "main_at s \<noteq> Main_Return" using main(1,2) by (simp add: running_def)
  have said': "main_said ?t = main_said s @ map blank is"
    using main(2) by (simp add: main_said_def)
  have take: "cv_ready (globals s) \<and> socket_ack_order (globals s) = order \<and> ack_info (globals s) = ACK_OKAY"
    if "main_at s = Main_Take order" for order
  proof -
    from that inv have "cv_ready (globals s)" by (simp add: session_inv_def)
    with acks that show ?thesis by (auto simp: acks_under_way_def flagged_def)
  qed
  then have "\<forall>order. main_at s = Main_Take order \<longrightarrow> cv_ready (globals s) \<and>
      socket_ack_order (globals s) = order \<and> ack_info (globals s) = ACK_OKAY" by blast
  from ok assms(2) main(3) ret socket this main(4) show ?thesis
  proof (cases rule: main_goes_inv)
    case silent
    have "acks_under_way ?t = mset (awaited p)"
    proof (cases "\<exists>order. main_at s = Main_Take order")
      case True
      with take acks silent(1,7,8) show ?thesis by (auto simp: acks_under_way_def flagged_def)
    next
      case False
      have "passing (reader_at ?t) = passing (reader_at s)"
        using inv by (auto simp: session_inv_def)
      moreover have "flagged c = flagged (globals s)"
        using False silent(8-10) by (simp add: flagged_def)
      ultimately show ?thesis using False acks silent(1,7) by (simp add: acks_under_way_def)
    qed
    with inv silent said said' show ?thesis by (auto simp: session_inv_def)
  next
    case writes
    from inv have "handled s \<le> sent (main_at s)" by (simp add: session_inv_def)
    with acks writes have "acks_under_way ?t = mset (awaited p)"
      by (simp add: acks_under_way_def script_Suc ac_simps)
    moreover have "client_written c = map encode_package (take (sent p) script)"
      using inv writes(1-3) by (simp add: session_inv_def take_Suc_conv_app_nth)
    ultimately show ?thesis
      using inv writes said said' by (auto simp: session_inv_def client_write_def)
  qed
qed

text \<open>The reading thread on a message of the service.\<close>

lemma reader_reads_inv:
  assumes "message_ok m" and "reader_reads m c = (p, c', is)"
  shows "ack_of_package (decode_package m) = [] \<and> p = Rd_Read \<and> (\<exists>fs. c' = c\<lparr>client_shown := fs\<rparr>) \<or>
    (\<exists>pkg. p = Rd_Flag pkg \<and> c' = c \<and> mset (ack_of_package (decode_package m)) = passing p)"
proof -
  from assms(1) obtain pkg where pkg: "wf_package pkg" "m = encode_package pkg"
    "socket_order pkg \<in> {SOCKET_ORDER_AS_RECEIVE, SOCKET_ORDER_AS_ACK}"
    by (auto simp: message_ok_def)
  with assms(2) show ?thesis
    by (auto simp: reader_reads_def receive_turn_def Let_def receive_turn_package decode_encode
        ack_of_package_def)
qed

text \<open>What the handler does with a package of the script.\<close>

lemma script_handled:
  assumes "n < 6" and "64 \<le> sizeof_data h"
    and "handle_package h fd (script ! n) ctl = Inr ctl'"
  defines "ms \<equiv> written_to fd (drop (length (io_log ctl)) (io_log ctl'))"
  shows "(\<forall>m \<in> set ms. message_ok m) \<and>
    mset (concat (map (\<lambda>m. ack_of_package (decode_package m)) ms)) = mset (owed_for (script ! n))"
proof -
  let ?pkg = "script ! n"
  from assms(1) consider (filter) "socket_order ?pkg \<in> {SOCKET_ORDER_AS_ADD_FILTER, SOCKET_ORDER_AS_REMOVE_FILTER}"
      "can_filter_cnt ?pkg = 1" "socket_magic_code ?pkg = SOCKET_MAGIC_CODE"
    | (send) "socket_order ?pkg = SOCKET_ORDER_AS_SEND"
    by (cases "n = 0"; cases "n = 5") (auto simp: script_nth)
  then show ?thesis
  proof cases
    case filter
    have wf: "wf_package (ack_package ?pkg 0)"
      using wf_script [OF assms(1)] by (simp add: wf_package_def ack_package_def)
    have "io_log ctl' = io_log ctl @ [Io_Write fd (encode_package (ack_package ?pkg 0))]"
      using filter assms(3) wf_script [OF assms(1)] by (auto simp: handle_orders filter_ret_def)
    then have "ms = [encode_package (ack_package ?pkg 0)]" by (simp add: ms_def written_to_def)
    with wf filter show ?thesis
      by (auto simp: message_ok_def decode_encode ack_of_package_def owed_for_def)
        (auto simp: ack_package_def)
  next
    case send
    with assms(2,3) wf_script [OF assms(1)] have "io_log ctl' = io_log ctl"
      by (auto simp: handle_package_def handle_send_eq)
    with send show ?thesis by (simp add: ms_def written_to_def owed_for_def)
  qed
qed

lemma wake_main_simps [simp]:
  "sent (wake_main p) = sent p" "awaited (wake_main p) = awaited p" "said (wake_main p) = said p"
  "place_ok (wake_main p) = place_ok p" "wake_main p \<noteq> Main_Sleep order"
  "wake_main p = Main_Take order \<longleftrightarrow> p = Main_Take order"
  "wake_main p = Main_Start \<longleftrightarrow> p = Main_Start" "wake_main p = Main_Connect \<longleftrightarrow> p = Main_Connect"
  "wake_main p = Main_Spawn \<longleftrightarrow> p = Main_Spawn"
  by (cases p; simp)+

lemma session_inv_acts:
  assumes inv: "session_inv s" and env: "env_ok env" "64 \<le> sizeof_data h"
    and "client_acts h fd env s t"
  shows "session_inv t"
  using assms(4)
proof cases
  case (main_prints i "is")
  then show ?thesis using inv by (simp add: session_inv_def main_said_def acks_under_way_def)
next
  case (main_goes_on now p e c "is")
  show ?thesis unfolding main_goes_on(1) using inv env(1) main_goes_on(2-5) by (rule session_inv_main)
next
  case (reader_prints i "is")
  then show ?thesis using inv by (simp add: session_inv_def main_said_def acks_under_way_def)
next
  case reader_starts
  then show ?thesis using inv by (auto simp: session_inv_def main_said_def acks_under_way_def)
next
  case (reader_reads_message m ms p c "is")
  from inv reader_reads_message have "message_ok m" by (simp add: session_inv_def)
  from reader_reads_inv [OF this reader_reads_message(6)] show ?thesis
    using inv reader_reads_message(1,4,5)
    by (auto simp: session_inv_def main_said_def acks_under_way_def flagged_def ac_simps)
next
  case (reader_reads_end p c "is")
  then show ?thesis using inv by (simp add: session_inv_def)
next
  case reader_fails
  then show ?thesis using inv by (simp add: session_inv_def)
next
  case (reader_sets pkg)
  have "flagged (globals s) = {#}"
  proof -
    have "size (acks_under_way s) \<le> 1"
      using inv by (cases "main_at s") (simp_all add: session_inv_def)
    with reader_sets show ?thesis by (auto simp: acks_under_way_def flagged_def)
  qed
  then have "acks_under_way t = acks_under_way s"
    using reader_sets by (simp add: acks_under_way_def flagged_def reader_flags_def)
  then show ?thesis
    using inv reader_sets by (simp add: session_inv_def main_said_def reader_flags_def)
next
  case reader_notifies
  then show ?thesis using inv by (auto simp: session_inv_def main_said_def acks_under_way_def)
next
  case (serves ctl)
  let ?n = "handled s"
  from inv have written: "client_written (globals s) = map encode_package (take (sent (main_at s)) script)"
    by (simp add: session_inv_def)
  have le: "sent (main_at s) \<le> 6"
    using inv by (cases "main_at s") (auto simp: session_inv_def)
  with serves(3) written have n: "?n < sent (main_at s)" "?n < 6" by simp_all
  with le have "decode_package (client_written (globals s) ! ?n) = script ! ?n"
    by (simp add: written decode_encode wf_script)
  with serves(4) script_handled [OF n(2) env(2), of fd "peer s" ctl]
  have ms: "\<forall>m \<in> set (written_to fd (drop (length (io_log (peer s))) (io_log ctl))). message_ok m"
    "mset (concat (map (\<lambda>m. ack_of_package (decode_package m))
      (written_to fd (drop (length (io_log (peer s))) (io_log ctl))))) = mset (owed_for (script ! ?n))"
    by simp_all
  have "drop ?n (take (sent (main_at s)) script) =
      script ! ?n # drop (Suc ?n) (take (sent (main_at s)) script)"
    using n le by (simp add: Cons_nth_drop_Suc [symmetric])
  with ms serves(1) have "acks_under_way t = acks_under_way s"
    by (simp add: acks_under_way_def ac_simps)
  with inv ms(1) serves(1) n(1) show ?thesis
    by (auto simp: session_inv_def main_said_def)
qed

lemma session_inv_step:
  assumes inv: "session_inv s" and env: "env_ok env" "64 \<le> sizeof_data h"
    and "client_step h fd env True s t"
  shows "session_inv t"
  using assms(4)
proof cases
  case acts
  with inv env show ?thesis by (rule session_inv_acts)
next
  case (delivers f)
  have wf: "wf_package (receive_package f)" using delivers(3) by (rule wf_receive_package)
  then have "message_ok (encode_package (receive_package f))"
    unfolding message_ok_def by (intro exI [of _ "receive_package f"]) (simp add: receive_package_def)
  moreover have "ack_of_package (decode_package (encode_package (receive_package f))) = []"
    using wf by (simp add: decode_encode ack_of_package_def receive_package_def)
  ultimately show ?thesis
    using inv delivers(1) by (auto simp: session_inv_def main_said_def acks_under_way_def)
qed (use inv in \<open>auto simp: session_inv_def main_said_def acks_under_way_def\<close>)

lemma session_inv_init: "client_init s \<Longrightarrow> session_inv s"
  by (auto simp: client_init_def client_start_def session_inv_def new_debug_client_def main_said_def
      acks_under_way_def flagged_def)

text \<open>
  The environment is fixed here to one whose calls succeed, and the HAL to one whose payload field
  holds 64 bytes; both are needed for the session to get anywhere.
\<close>

definition session_step :: "'w hal \<Rightarrow> int \<Rightarrow> client_env \<Rightarrow> 'w client_sys \<Rightarrow> 'w client_sys \<Rightarrow> bool" where
  "session_step h fd env s t \<longleftrightarrow> env_ok env \<and> 64 \<le> sizeof_data h \<and> client_step h fd env True s t"

interpretation session: invariant_system client_init "session_step h fd env" session_inv for h fd env
  by unfold_locales (auto simp: session_step_def intro: session_inv_init session_inv_step)

section \<open>Every run ends, and only where it should\<close>

fun main_stage :: "main_place \<Rightarrow> nat" where
  "main_stage Main_Start = 20"
| "main_stage Main_Connect = 19"
| "main_stage Main_Spawn = 18"
| "main_stage (Main_Order order) = (if order = SOCKET_ORDER_AS_ADD_FILTER then 17 else 5)"
| "main_stage (Main_Wait order) = (if order = SOCKET_ORDER_AS_ADD_FILTER then 16 else 4)"
| "main_stage (Main_Sleep order) = (if order = SOCKET_ORDER_AS_ADD_FILTER then 16 else 4)"
| "main_stage (Main_Take order) = (if order = SOCKET_ORDER_AS_ADD_FILTER then 15 else 3)"
| "main_stage (Main_Loop loop_flag loop_cnt) = 14 - 2 * unat loop_cnt"
| "main_stage (Main_Send loop_flag loop_cnt) = 13 - 2 * unat loop_cnt"
| "main_stage Main_Return = 2"
| "main_stage Main_Throws = 1"

fun reader_stage :: "reader_place \<Rightarrow> nat" where
  "reader_stage Rd_Start = 1"
| "reader_stage (Rd_Flag pkg) = 2"
| "reader_stage Rd_Notify = 1"
| "reader_stage _ = 0"

fun main_tests :: "main_place \<Rightarrow> nat" where
  "main_tests (Main_Wait order) = 1"
| "main_tests _ = 0"

definition session_order :: "('w client_sys \<times> 'w client_sys) set" where
  "session_order = inv_image (less_than <*lex*> less_than <*lex*> less_than <*lex*> less_than)
     (\<lambda>s. (main_stage (main_at s), length (client_written (globals s)) - handled s,
           3 * length (inbox s) + reader_stage (reader_at s),
           length (main_out s) + length (reader_out s) + main_tests (main_at s)))"

lemma wf_session_order: "wf session_order"
  by (simp add: session_order_def wf_lex_prod)

lemma main_goes_stage:
  assumes "place_ok p" and "env_ok env" and "\<nexists>order. p = Main_Sleep order" and "p \<noteq> Main_Return"
    and "main_goes env now p (e, c) = (p', (e', c'), is)"
  shows "main_stage p' < main_stage p \<or>
    (\<exists>order. p = Main_Wait order \<and> p' = Main_Sleep order \<and> c' = c \<and> is = [])"
proof (cases p)
  case (Main_Send loop_flag loop_cnt)
  with assms(1) have "unat (loop_cnt + 1) = Suc (unat loop_cnt)" "unat loop_cnt < 4"
    by (simp_all add: unat_word_ariths)
  with Main_Send assms(5) show ?thesis by (auto simp: write_or_say_def Let_def split: if_splits)
next
  case Main_Connect
  with assms(2,5) show ?thesis by (auto simp: env_ok_def connect_to_server_def Let_def)
next
  case (Main_Loop loop_flag loop_cnt)
  with assms(1,5) show ?thesis by (auto split: if_splits)
qed (use assms in \<open>auto simp: write_or_say_def Let_def split: if_splits\<close>)

lemma acts_decrease:
  assumes inv: "session_inv s" and env: "env_ok env" and "client_acts h fd env s t"
  shows "(t, s) \<in> session_order"
proof -
  have open': "connection s = Open" using inv by (simp add: session_inv_def)
  from assms(3) show ?thesis
  proof cases
    case (main_goes_on now p e c "is")
    then have "main_at s \<noteq> Main_Return" by (simp add: running_def)
    moreover have "place_ok (main_at s)" using inv by (simp add: session_inv_def)
    ultimately have "main_stage p < main_stage (main_at s) \<or>
        (\<exists>order. main_at s = Main_Wait order \<and> p = Main_Sleep order \<and> c = globals s \<and> is = [])"
      using main_goes_stage env main_goes_on(4,5) by blast
    then show ?thesis using main_goes_on(1,3) by (auto simp: session_order_def)
  next
    case (reader_reads_message m ms p c "is")
    from inv reader_reads_message have "message_ok m" by (simp add: session_inv_def)
    from reader_reads_inv [OF this reader_reads_message(6)] show ?thesis
      using reader_reads_message(1,4,5) by (auto simp: session_order_def)
  next
    case reader_notifies
    have "main_stage (wake_main p) = main_stage p" for p by (cases p) simp_all
    with reader_notifies show ?thesis by (auto simp: session_order_def)
  qed (use open' in \<open>auto simp: session_order_def reader_flags_def\<close>)
qed

lemma script_accepted:
  assumes "n < 6" and "64 \<le> sizeof_data h"
  shows "\<exists>ctl'. handle_package h fd (script ! n) ctl = Inr ctl'"
  using wf_script [OF assms(1)] assms
  by (cases "n = 0"; cases "n = 5") (simp_all add: script_nth handle_orders handle_send_eq)

text \<open>
  Where the threads have nothing left to do but for the service, the program has ended or waits for
  an acknowledgement with nothing to read.
\<close>

lemma acts_rest:
  assumes inv: "session_inv s" and stop: "\<And>t. handled t = handled s \<Longrightarrow> \<not> client_acts h fd env s t"
  shows "main_out s = [] \<and> (main_at s = Main_Return \<or>
    (\<exists>order. main_at s = Main_Sleep order) \<and> reader_out s = [] \<and> reader_at s = Rd_Read \<and> inbox s = [] \<and>
    \<not> cv_ready (globals s))"
proof (cases "running s")
  case False
  with inv show ?thesis by (auto simp: running_def session_inv_def)
next
  case True
  have stop: "handled t \<noteq> handled s" if "client_acts h fd env s t" for t
    using stop [of t] that by blast
  have "main_out s \<noteq> i # is" for i "is"
    using stop [OF client_acts.main_prints [OF True]] by auto
  then have out: "main_out s = []" by (metis neq_Nil_conv)
  have "reader_out s \<noteq> i # is" for i "is"
    using stop [OF client_acts.reader_prints [OF True]] by auto
  then have rout: "reader_out s = []" by (metis neq_Nil_conv)
  show ?thesis
  proof (cases "\<exists>order. main_at s = Main_Sleep order")
    case False
    obtain p e c "is" where "main_goes env 0 (main_at s) (last_epoch s, globals s) = (p, (e, c), is)"
      by (cases "main_goes env 0 (main_at s) (last_epoch s, globals s)") auto
    from stop [OF client_acts.main_goes_on [OF True out False this]] show ?thesis by simp
  next
    case sleep: True
    have "reader_at s \<noteq> Rd_Flag pkg" for pkg
      using stop [OF client_acts.reader_sets [OF True rout]] by auto
    moreover have "reader_at s \<noteq> Rd_Start" "reader_at s \<noteq> Rd_Notify"
      using stop [OF client_acts.reader_starts [OF True]] stop [OF client_acts.reader_notifies [OF True]]
      by auto
    ultimately have rd: "reader_at s = Rd_Read"
      using inv sleep by (cases "reader_at s") (auto simp: session_inv_def)
    have "inbox s = []"
    proof (rule ccontr)
      assume "inbox s \<noteq> []"
      then obtain m ms where ms: "inbox s = m # ms" by (cases "inbox s") auto
      obtain p c "is" where "reader_reads m (globals s) = (p, c, is)"
        by (cases "reader_reads m (globals s)") auto
      from stop [OF client_acts.reader_reads_message [OF True rout rd ms this]] show False by simp
    qed
    moreover have "\<not> cv_ready (globals s)" using inv sleep rd by (auto simp: session_inv_def)
    ultimately show ?thesis using sleep rd out rout by simp
  qed
qed

lemma acts_stop:
  assumes inv: "session_inv s" and env: "64 \<le> sizeof_data h" and stop: "\<And>t. \<not> client_acts h fd env s t"
  shows "main_at s = Main_Return \<and> main_out s = [] \<and> handled s = 6"
proof -
  have written: "client_written (globals s) = map encode_package (take (sent (main_at s)) script)"
    and open': "connection s = Open" using inv by (simp_all add: session_inv_def)
  have le: "sent (main_at s) \<le> 6"
    using inv by (cases "main_at s") (auto simp: session_inv_def)
  have handled: "handled s = sent (main_at s)"
  proof (rule ccontr)
    assume "handled s \<noteq> sent (main_at s)"
    with inv have lt: "handled s < sent (main_at s)" by (simp add: session_inv_def)
    with le have "handled s < 6" by simp
    with script_accepted env obtain ctl where
      "handle_package h fd (script ! handled s) (peer s) = Inr ctl" by blast
    moreover have "decode_package (client_written (globals s) ! handled s) = script ! handled s"
      using lt le by (simp add: written decode_encode wf_script)
    ultimately show False using client_acts.serves [of s h fd ctl env] lt le open' stop
      by (simp add: written)
  qed
  moreover have "\<not> (\<exists>order. main_at s = Main_Sleep order \<and> reader_at s = Rd_Read \<and> inbox s = [] \<and>
      \<not> cv_ready (globals s))"
    using inv handled by (auto simp: session_inv_def acks_under_way_def flagged_def)
  ultimately show ?thesis using acts_rest [OF inv stop] by auto
qed

lemma reach_session:
  assumes "reach client_init (client_step h fd env True) s" and "env_ok env" and "64 \<le> sizeof_data h"
  shows "session_inv s"
proof (rule session.reach_inv)
  show "reach client_init (session_step h fd env) s"
    using assms(1)
    by (induction rule: reach.induct) (auto intro: reach_init reach_step simp: session_step_def assms(2,3))
qed

lemma session_acts_inv:
  "(client_acts h fd env)\<^sup>*\<^sup>* s t \<Longrightarrow> session_inv s \<Longrightarrow> env_ok env \<Longrightarrow> 64 \<le> sizeof_data h \<Longrightarrow> session_inv t"
  by (induction rule: rtranclp_induct) (auto intro: session_inv_acts)

text \<open>No infinite run, of all steps or of some of them.\<close>

lemma session_terminates:
  assumes "session_inv (f 0)" and "env_ok env" and "64 \<le> sizeof_data h"
  shows "\<exists>i. \<not> client_acts h fd env (f i) (f (Suc i))"
proof (rule ccontr)
  assume *: "\<not> ?thesis"
  have "session_inv (f i)" for i
    by (induction i) (use assms * in \<open>auto intro: session_inv_acts\<close>)
  with * assms(2) have "(f (Suc i), f i) \<in> session_order" for i
    by (auto intro: acts_decrease)
  then show False
    using wf_session_order unfolding wf_iff_no_infinite_down_chain by blast
qed

text \<open>
  C12. The session of the test client ends, in any interleaving of its two threads with the service,
  whatever frames the service delivers and whatever other clients do to it: from every reachable
  state the two threads and the handler take finitely many steps, and where they stop \<open>main\<close> has
  returned, the handler has read exactly the six packages of the script, no acknowledgement is left,
  and the main thread has said, up to the times, what it should, with both acknowledgements positive.
\<close>

theorem client_session_ends:
  assumes "reach client_init (client_step h fd env True) s" and "env_ok env" and "64 \<le> sizeof_data h"
  shows "(\<forall>f. f 0 = s \<longrightarrow> (\<exists>i. \<not> client_acts h fd env (f i) (f (Suc i)))) \<and>
    (\<forall>t. (client_acts h fd env)\<^sup>*\<^sup>* s t \<and> (\<forall>u. \<not> client_acts h fd env t u) \<longrightarrow>
       main_at t = Main_Return \<and> client_written (globals t) = map encode_package script \<and> handled t = 6 \<and>
       acks_under_way t = {#} \<and> map blank (map snd (filter fst (stdout_log t))) = said Main_Return)"
proof (intro conjI allI impI)
  have inv: "session_inv s" using assms by (rule reach_session)
  fix f :: "nat \<Rightarrow> 'a client_sys"
  assume "f 0 = s"
  with inv show "\<exists>i. \<not> client_acts h fd env (f i) (f (Suc i))"
    using assms(2,3) by (intro session_terminates) simp_all
next
  fix t
  assume t: "(client_acts h fd env)\<^sup>*\<^sup>* s t \<and> (\<forall>u. \<not> client_acts h fd env t u)"
  then have inv: "session_inv t"
    using reach_session [OF assms] assms(2,3) by (blast intro: session_acts_inv)
  from acts_stop [OF inv assms(3)] t have ended: "main_at t = Main_Return" "main_out t = []" "handled t = 6"
    by blast+
  then show "main_at t = Main_Return" "handled t = 6" by simp_all
  show "client_written (globals t) = map encode_package script" "acks_under_way t = {#}"
      "map blank (map snd (filter fst (stdout_log t))) = said Main_Return"
    using inv ended by (simp_all add: session_inv_def main_said_def)
qed

definition sample_env :: client_env where
  "sample_env = \<lparr>socket_returns = 3, connect_succeeds = True, write_succeeds = True\<rparr>"

lemma sample_env_ok: "env_ok sample_env"
  by (simp add: env_ok_def sample_env_def)

lemma client_start_init: "client_init (client_start ctl)"
  by (auto simp: client_init_def)

theorem client_session_ends_witness:
  "\<exists>t. (client_acts recording_hal 7 sample_env)\<^sup>*\<^sup>*
       (client_start (empty_controller ([] :: (string \<times> canframe) list))) t \<and>
     main_at t = Main_Return \<and> client_written (globals t) = map encode_package script"
proof -
  let ?h = "recording_hal :: (string \<times> canframe) list hal"
  let ?s = "client_start (empty_controller ([] :: (string \<times> canframe) list))"
  have h: "64 \<le> sizeof_data ?h" by (simp add: recording_hal_def)
  have reach: "reach client_init (client_step ?h 7 sample_env True) ?s"
    by (rule reach_init) (rule client_start_init)
  note ends = client_session_ends [OF reach sample_env_ok h]
  from last_state [OF conjunct1 [OF ends]] conjunct2 [OF ends] show ?thesis by blast
qed

section \<open>A connection that ends\<close>

lemma reader_reads_nothing:
  "reader_reads [] c = (Rd_Read, c, say ''[receive_thread] Read a invalied data.'')"
proof -
  have zeros: "pad_to sizeof_package [] = (replicate sizeof_package 0 :: u8 list)" by (simp add: pad_to_def)
  have "field32 off (replicate sizeof_package 0) = 0" if "off \<le> 220" for off
  proof -
    have four: "replicate 4 (0 :: u8) = [0, 0, 0, 0]" by (simp add: numeral_eq_Suc)
    have "take 4 (drop off (replicate sizeof_package (0 :: u8))) = replicate 4 0"
      using that by (simp add: sizeof_package_def min_def)
    then show ?thesis by (simp add: field32_def four)
  qed
  then have "socket_magic_code (decode_package (replicate sizeof_package 0)) = 0"
    "socket_order (decode_package (replicate sizeof_package 0)) = SOCKET_ORDER_AS_SEND"
    by (simp_all add: decode_package_def order_of_raw_def)
  then show ?thesis by (simp add: reader_reads_def zeros SOCKET_MAGIC_CODE_def Let_def)
qed

definition deserted :: "SOCKET_ORDER_E \<Rightarrow> 'w client_sys \<Rightarrow> bool" where
  "deserted order s \<longleftrightarrow> connection s = Closed \<and> inbox s = [] \<and> reader_at s = Rd_Read \<and>
     (main_at s = Main_Wait order \<or> main_at s = Main_Sleep order) \<and> \<not> cv_ready (globals s)"

lemma deserted_acts: "client_acts h fd env s t \<Longrightarrow> deserted order s \<Longrightarrow> deserted order t"
  by (erule client_actsE) (auto simp: deserted_def reader_reads_nothing)

lemma deserted_step: "client_step h fd env stays s t \<Longrightarrow> deserted order s \<Longrightarrow> deserted order t"
  by (erule client_stepE) (auto simp: deserted_acts, auto simp: deserted_def)

lemma deserted_steps: "(client_step h fd env stays)\<^sup>*\<^sup>* s t \<Longrightarrow> deserted order s \<Longrightarrow> deserted order t"
  by (induction rule: rtranclp_induct) (auto intro: deserted_step)

lemma deserted_running: "deserted order s \<Longrightarrow> running s"
  by (auto simp: deserted_def running_def)

lemma deserted_reader:
  assumes "deserted order s"
  shows "\<exists>u. client_acts h fd env s u"
proof (cases "reader_out s")
  case Nil
  with assms show ?thesis
    using client_acts.reader_reads_end [OF deserted_running [OF assms] Nil _ _ _ reader_reads_nothing]
    by (auto simp: deserted_def)
next
  case (Cons i "is")
  then show ?thesis using client_acts.reader_prints [OF deserted_running [OF assms]] by blast
qed

lemma deserted_turn:
  assumes "deserted order s" and "reader_out s = []"
  obtains t where "(client_acts h fd env)\<^sup>*\<^sup>* s t" "deserted order t" "reader_out t = []"
    "stdout_log t = stdout_log s @ map (Pair False) (say ''[receive_thread] Read a invalied data.'')"
proof -
  let ?text = "Ins_Text ''[receive_thread] Read a invalied data.''"
  let ?s1 = "s\<lparr>globals := globals s, reader_at := Rd_Read, reader_out := [?text, Ins_Endl]\<rparr>"
  let ?s2 = "?s1\<lparr>reader_out := [Ins_Endl], stdout_log := stdout_log ?s1 @ [(False, ?text)]\<rparr>"
  let ?s3 = "?s2\<lparr>reader_out := [], stdout_log := stdout_log ?s2 @ [(False, Ins_Endl)]\<rparr>"
  have 1: "client_acts h fd env s ?s1"
    using assms reader_reads_nothing [of "globals s"]
    by (intro client_acts.reader_reads_end deserted_running [OF assms(1)]) (simp_all add: deserted_def say_def)
  note d1 = deserted_acts [OF 1 assms(1)]
  have 2: "client_acts h fd env ?s1 ?s2"
    by (rule client_acts.reader_prints [OF deserted_running [OF d1]]) simp
  note d2 = deserted_acts [OF 2 d1]
  have 3: "client_acts h fd env ?s2 ?s3"
    by (rule client_acts.reader_prints [OF deserted_running [OF d2]]) simp
  have "(client_acts h fd env)\<^sup>*\<^sup>* s ?s3"
    using 1 2 3 by (meson rtranclp.rtrancl_into_rtrancl rtranclp.rtrancl_refl)
  then show ?thesis by (rule that) (use deserted_acts [OF 3 d2] in \<open>simp_all add: say_def\<close>)
qed


text \<open>The client waits, nothing of what it has sent has been handled, and the connection is closed.\<close>

lemma reach_deserted:
  obtains s where "reach client_init (client_step (recording_hal :: (string \<times> canframe) list hal) 7 sample_env False) s"
    "connection s = Closed" "inbox s = []" "reader_at s = Rd_Read" "reader_out s = []"
    "main_at s = Main_Sleep SOCKET_ORDER_AS_ADD_FILTER" "\<not> cv_ready (globals s)"
proof -
  let ?h = "recording_hal :: (string \<times> canframe) list hal"
  let ?s = "client_start (empty_controller ([] :: (string \<times> canframe) list))"
  define R where "R s t \<longleftrightarrow> client_acts ?h 7 sample_env s t \<and> handled t = handled s" for s t
  have h: "64 \<le> sizeof_data ?h" by (simp add: recording_hal_def)
  have init: "session_inv ?s" by (rule session_inv_init) (rule client_start_init)
  have "\<exists>i. \<not> R (f i) (f (Suc i))" if "f 0 = ?s" for f
    using session_terminates [of f, OF _ sample_env_ok h] init that by (auto simp: R_def)
  then obtain t where t: "R\<^sup>*\<^sup>* ?s t" and stop: "\<And>u. \<not> R t u"
    using last_state [of ?s R] by blast
  from t have "handled t = 0 \<and> session_inv t \<and> reach client_init (client_step ?h 7 sample_env False) t"
  proof (induction rule: rtranclp_induct)
    case base
    show ?case using init reach_init [of client_init, OF client_start_init] by (simp add: client_start_def)
  next
    case (step s t)
    then show ?case using session_inv_acts [OF _ sample_env_ok h]
      by (auto simp: R_def intro: reach_step client_step.acts)
  qed
  then have inv: "handled t = 0" "session_inv t" and reach: "reach client_init (client_step ?h 7 sample_env False) t"
    by simp_all
  have "owed_for (script ! 0) \<noteq> []" by (simp add: script_nth owed_for_def)
  then have two: "main_at t \<noteq> Main_Return" "main_at t \<noteq> Main_Sleep SOCKET_ORDER_AS_REMOVE_FILTER"
    using inv by (auto simp: session_inv_def acks_under_way_def script_def owed_for_def)
  from stop have "\<not> client_acts ?h 7 sample_env t u" if "handled u = handled t" for u
    using that by (auto simp: R_def)
  from acts_rest [OF inv(2) this] two inv(2) have rest: "reader_at t = Rd_Read" "reader_out t = []"
    "inbox t = []" "main_at t = Main_Sleep SOCKET_ORDER_AS_ADD_FILTER" "\<not> cv_ready (globals t)"
    by (auto simp: session_inv_def)
  have "connection t = Open" using inv(2) by (simp add: session_inv_def)
  then have "client_step ?h 7 sample_env False t (t\<lparr>connection := Closed\<rparr>)"
    by (intro client_step.closes) simp_all
  with reach have "reach client_init (client_step ?h 7 sample_env False) (t\<lparr>connection := Closed\<rparr>)"
    by (rule reach_step)
  with rest show ?thesis by (intro that) (assumption, simp_all)
qed


section \<open>What is shown of a frame\<close>

lemma insert_all_append [simp]: "insert_all (xs @ ys) os = insert_all ys (insert_all xs os)"
  by (simp add: insert_all_def)

lemma insert_all_simps [simp]:
  "insert_all [] os = os" "insert_all (i # is) os = insert_all is (insert_into i os)"
  by (simp_all add: insert_all_def)

lemma insert_bytes:
  "insert_all (concat (map (\<lambda>b :: u8. [Ins_Hex, Ins_Int 32 (uint b), Ins_Text '' '']) bs) @ [Ins_Dec]) os =
     os\<lparr>stream_text := stream_text os @ concat (map (\<lambda>b. show_nat 16 (unat b) @ '' '') bs), base16 := False\<rparr>"
proof (induction bs arbitrary: os)
  case (Cons b bs)
  have "uint b mod 2 ^ 32 = uint b"
    using uint_lt2p [of b] by simp
  with Cons show ?case by (simp add: show_int_def)
qed simp

text \<open>
  What the client shows of a frame, when nothing else is inserted in between: the payload byte
  by byte in base 16, but the identifier in base 10 although \<^verbatim>\<open>0x\<close> stands in front of it; the
  stream is left in base 10.
\<close>

theorem shown_frame_text:
  assumes "\<not> base16 os"
  shows "insert_all (say_frame f) os = os\<lparr>stream_text := stream_text os @
    ''socket_package.can_frame.id is 0x'' @ show_nat 10 (unat (frame_id f)) @ [newline] @
    ''socket_package.can_frame.dlc is '' @ show_nat 10 (unat (frame_dlc f)) @ [newline] @
    ''socket_package.can_frame.flags is '' @ show_nat 10 (unat (frame_flags f)) @ [newline] @
    ''socket_package.can_frame.data is: ['' @
    concat (map (\<lambda>b. show_nat 16 (unat b) @ '' '')
      (take (unat (can_dlc_to_bytes (frame_dlc f))) (frame_data f))) @ '']'' @ [newline]\<rparr>"
proof -
  let ?bytes = "concat (map (\<lambda>b. [Ins_Hex, Ins_Int 32 (uint b), Ins_Text '' ''])
      (take (unat (can_dlc_to_bytes (frame_dlc f))) (frame_data f))) @ [Ins_Dec]"
  have "insert_all (say_frame f) os = insert_all [Ins_Text '']'', Ins_Endl]
      (insert_all ?bytes (insert_all (
        say_int ''socket_package.can_frame.id is 0x'' 32 (uint (frame_id f)) @
        say_int ''socket_package.can_frame.dlc is '' 32 (uint (frame_dlc f)) @
        say_int ''socket_package.can_frame.flags is '' 32 (uint (frame_flags f)) @
        [Ins_Text ''socket_package.can_frame.data is: ['']) os))"
    by (simp add: say_frame_def)
  with assms show ?thesis
    unfolding insert_bytes by (simp add: say_int_def show_int_def)
qed

theorem shown_frame_text_witness:
  "stream_text (insert_all (say_frame (zero_frame\<lparr>frame_id := 0x100, frame_dlc := 1\<rparr>)) empty_stream) =
     ''socket_package.can_frame.id is 0x256'' @ [newline] @
     ''socket_package.can_frame.dlc is 1'' @ [newline] @
     ''socket_package.can_frame.flags is 0'' @ [newline] @
     ''socket_package.can_frame.data is: [0 ]'' @ [newline]"
proof -
  have digits: "digit 0 = CHR ''0''" "digit (Suc 0) = CHR ''1''" "digit 2 = CHR ''2''" "digit 5 = CHR ''5''"
    "digit 6 = CHR ''6''"
    by (simp_all add: digit_def char_of_def bit_iff_odd drop_bit_eq_div)
  have shown: "show_nat 10 256 = ''256''" "show_nat 10 1 = ''1''" "show_nat 10 0 = ''0''" "show_nat 16 0 = ''0''"
    by (simp_all add: show_nat.simps digits)
  let ?f = "zero_frame\<lparr>frame_id := 0x100, frame_dlc := 1\<rparr>"
  have f: "unat (frame_id ?f) = 256" "unat (frame_dlc ?f) = 1" "unat (frame_flags ?f) = 0"
    "unat (can_dlc_to_bytes (frame_dlc ?f)) = 1" "take 1 (frame_data ?f) = [0]"
    by (simp_all add: zero_frame_def can_dlc_to_bytes_def dlc_table_def CANFD_MAX_DLEN_def)
  have "\<not> base16 empty_stream" by (simp add: empty_stream_def)
  from shown_frame_text [OF this, of ?f] show ?thesis
    unfolding f shown by (simp add: empty_stream_def shown)
qed

end
