(* ===== verification/Spec2Isabelle.thy ===== *)
theory Spec2Isabelle
  imports Work_Queue_Threads Service_Threads_Clients Service_Sockets Singletons Debug_Session
begin

text \<open>
  A verification library for the CAN-IPC layer, a Linux service that shares the CAN ports of an
  automotive board among several processes. Paths are those of the repository.

  \<^bold>\<open>The program.\<close> Clients connect to a sequenced-packet socket and exchange packages of a fixed
  layout with the service: orders to send a CAN frame, to add or remove a filter, acknowledgements,
  and received frames. One detached thread per client runs \<open>IPC_SOCKET_CONTROLLER::handle_client\<close>
  (\<^verbatim>\<open>src/core/ipc_socket_controller.cpp\<close>), which keeps the client manager and calls the library
  layer (\<^verbatim>\<open>src/core/can_ipc_layer_impl.cpp\<close>). The layer translates ports and calls the sender
  (\<^verbatim>\<open>src/core/can_ipc_sender.cpp\<close>) or the receiver (\<^verbatim>\<open>src/core/can_ipc_receiver.cpp\<close>). The
  receiver has two threads: one polls the ports through the vendor's hardware abstraction layer
  (HAL) and matches each frame against the filters, the other takes the resulting callbacks from a
  bounded queue (\<^verbatim>\<open>src/utils/work_queue.cpp\<close>) and runs them; a callback writes the frame to the
  subscribed clients. A handler pauses both threads while it changes the filters.

  \<^bold>\<open>The theories\<close>, in the order of their imports:

  \<^item> \<open>Ipc_Prelude\<close>: machine types; the result type whose \<open>Inl\<close> is a fault, a point of undefined
    behaviour of C++ (reading past an array, overflowing a buffer, calling a null pointer); arrays
    read through a pointer and \<open>memcpy\<close>; \<open>std::set\<close> as an ascending list and \<open>std::unordered_map\<close>
    as an association list in an arbitrary order; reachable states and the locale of invariants.
  \<^item> \<open>Can_Types\<close>: \<^verbatim>\<open>include/can_ipc_layer/*.h\<close> and
    \<^verbatim>\<open>src/core/can_struct_internal_define.hpp\<close>: enumerations, structures, length codes.
  \<^item> \<open>Wire\<close>: the bytes of a package and \<open>read_full\<close>. Decoding inverts encoding; a package is
    reassembled from messages of any sizes, with interruptions by signals.
  \<^item> \<open>Work_Queue\<close> and \<open>Work_Queue_Threads\<close>: the queue, first one operation at a time (first in,
    first out, bounded), then its critical sections interleaved (bound with n producers, no lost
    wakeup, what a stop does).
  \<^item> \<open>Sender\<close>: the interface of the HAL as a record of functions over a state of its own, byte
    order, and both send functions.
  \<^item> \<open>Filter_Table\<close>: the two hash tables of a port. They refine a multiset of identifiers.
  \<^item> \<open>Receiver\<close> and \<open>Receiver_Correct\<close>: the receiver's state and every operation; the refinement
    of the filter operations on all branches, the delivery of a batch, and the bounds of reception.
  \<^item> \<open>Layer_Impl\<close> and \<open>Layer_Invariant\<close>: the library layer; its operations and both threads'
    rounds as steps, with their invariant.
  \<^item> \<open>Layer_Instances\<close>: constructors and destructors of several instances of the layer, interleaved
    at the count they share; when the HAL is started and ended.
  \<^item> \<open>Message_Log\<close>: output streams and the log macros of \<^verbatim>\<open>src/utils/message_log.hpp\<close>.
  \<^item> \<open>Client_Manager\<close>: the two indices of the clients. They refine the subscription relation.
  \<^item> \<open>Pause_Protocol\<close>: one pause flag with its condition, n handlers that pause and resume, and the
    thread that waits, interleaved at their accesses.
  \<^item> \<open>Controller\<close> and \<open>Controller_Correct\<close>: the singleton's state, the callback and the handler;
    each order's effect, the faults, and the refinement of the handler on bytes by one on packages.
  \<^item> \<open>Service\<close> and \<open>Service_Correct\<close>: starting, accepting, stopping, and the program of
    \<^verbatim>\<open>src/api/can_ipc_layer.cpp\<close>.
  \<^item> \<open>Service_System\<close>: all handlers and both threads interleaved, package by package; the invariant
    for arbitrary clients and the delivery guarantee for disciplined ones.
  \<^item> \<open>Service_Threads\<close>: the same system with a program counter for every handler, the receive thread
    and the worker, interleaved at each access to what they share. Run alone, the steps of a thread
    are the operations of \<open>Controller\<close> and \<open>Receiver\<close>.
  \<^item> \<open>Service_Threads_Inv\<close> and \<open>Service_Threads_Orderly\<close>: the invariants under every interleaving, for
    arbitrary and for disciplined clients; no thread faults. Also here: a port enabled after the
    receive thread has copied the configurations.
  \<^item> \<open>Service_Threads_Delivery\<close>: under every interleaving of both threads a batch of frames is
    written to its subscribers, in finitely many steps.
  \<^item> \<open>Service_Threads_Pause\<close>: the receive thread and the worker both simulate \<open>Pause_Protocol\<close>; no
    wakeup is lost.
  \<^item> \<open>Service_Threads_Race\<close>: what a pause keeps out and what it does not.
  \<^item> \<open>Service_Threads_Clients\<close>: what a client may rely on, its own orders and its subscriptions.
  \<^item> \<open>Service_Threads_Types\<close>: all that the service writes under any interleaving is typed.
  \<^item> \<open>Service_Progress\<close>: every order ends, in a fixed number of its handler's steps.
  \<^item> \<open>Service_Bytes\<close>: the interleaved service down to the calls of \<open>read\<close>, with arbitrary bytes on the
    sockets. It refines \<open>Service_Threads\<close>, and a handler alone is \<open>handle_client\<close>.
  \<^item> \<open>Service_Sockets\<close>: the interleaved service when \<open>write\<close> blocks on a full socket or meets a closed one:
    the same states, but one client can hold up or end the service.
  \<^item> \<open>Service_End\<close>: \<open>main\<close> and the destructors of the singletons interleaved with the detached threads.
  \<^item> \<open>Singletons\<close>: \<open>getInstance\<close> of every class, from any thread; construction on first use, the retry
    after an exception, and destruction in the reverse order.
  \<^item> \<open>Debug_Client\<close>: the client of \<^verbatim>\<open>debug/main.cpp\<close>, its functions one by one.
  \<^item> \<open>Debug_Threads\<close>: the same client with a program counter for \<open>main\<close> and for its reading thread,
    interleaved at each insertion into the standard output, against the handler of the service.
  \<^item> \<open>Debug_Session\<close>: its session ends, in any interleaving, with all that it prints; what it does when
    the service goes away; the text of a frame.
  \<^item> this theory: the client against the service, and a frame from the bus to the client's screen.

  \<^bold>\<open>Interfaces.\<close> The locales \<open>ordered_set\<close>, \<open>finite_map\<close>, \<open>task_queue\<close>, \<open>filter_registry\<close> and
  \<open>subscription_manager\<close> state what a component promises to those that call it, and are interpreted on
  the model of the code (\<open>os\<close>, \<open>um\<close>, \<open>wq\<close>, \<open>ft\<close>, \<open>cm\<close>); \<open>invariant_system\<close> is interpreted for each step
  relation (\<open>threads\<close>, \<open>typed\<close>, \<open>session\<close>, \<open>serial\<close>, \<open>statics\<close> and others), and its extension \<open>simulation\<close>
  for the two threads that wait for a pause and for the service on bytes and among its sockets (\<open>bytes\<close>, \<open>sockets\<close>). The properties use
  the laws through these interpretations.

  \<^bold>\<open>State and effects.\<close> A class is a record and a method a function on it. The state of the HAL is a
  parameter type threaded through the calls. System calls are arguments where they answer
  (\<open>read_event\<close>, \<open>accept_event\<close>, \<open>syscalls\<close>, \<open>file_system\<close>) and entries of \<open>io_log\<close> where they act. The
  exception of the constructor is \<open>Throws\<close>. Words have the width of the source's types.

  \<^bold>\<open>Bounds and termination.\<close> All loops are total functions. \<open>rx_loop\<close> recurs on the number of frames;
  \<open>handle_client\<close> on the events, of which each package consumes one at least; \<open>receive_ipc_can_task\<close>
  takes the number of rounds as an argument because the thread does not end, and what is proved of it
  holds for every number; \<open>worker_rounds\<close> likewise, where the delivery theorem shows that enough
  rounds exist. The test client's loop ends by its counter, a byte; the termination of its session is
  by a lexicographic measure. The capacity of the queue, 10000, and the size of the filter array, 32, are the
  source's; the number of packages that a socket holds is an argument.

  \<^bold>\<open>Assumptions.\<close> A write to a socket whose peer has closed ends the process, as SIGPIPE does by default
  (the vendor's library is assumed not to change that). The HAL reports no more frames than the buffer holds and none longer than 64 bytes
  (\<open>hal_frames_ok\<close>), and its payload field holds 64 bytes; each is a hypothesis of the properties that
  need it and is met by the instances \<open>recording_hal\<close>, \<open>replay_hal\<close> and \<open>counting_hal\<close>. The layout of the
  package is that of a little endian target with four-byte enumerations.

  \<^bold>\<open>Not modelled.\<close> Which messages the service logs (only the macros are modelled, in the version for
  the standard output: the one for the journal does not compile); signals other than through the
  handler's body and the one that \<open>write\<close> raises; partial writes (the result of \<open>write\<close> decides about a
  log message only); \<open>write\<close> to descriptors that no handler reads from;
  two threads racing on a hash table or on the client manager (an operation on one of them is one
  step; the states in which two threads are about to use the same one are shown to be reachable, not
  what they lead to); what an access to a destroyed object does; the vendor's library;
  the build and its configuration files.

  \<^bold>\<open>Further work\<close>: the messages that the service logs, operation by operation.
\<close>

section \<open>The test client and the service\<close>

lemma handle_sends:
  assumes "wf_package pkg" and "socket_order pkg = SOCKET_ORDER_AS_SEND" and "64 \<le> sizeof_data h"
  shows "handle_packages h c (replicate n pkg @ ps) ctl =
    handle_packages h c ps (ctl\<lparr>hal_world := (sent_world h pkg ^^ n) (hal_world ctl)\<rparr>)"
proof (induction n arbitrary: ctl)
  case (Suc n)
  have "(sent_world h pkg ^^ n) (sent_world h pkg w) = sent_world h pkg ((sent_world h pkg ^^ n) w)" for w
    by (simp add: funpow_swap1)
  with Suc assms show ?case
    by (simp add: handle_package_def handle_send_eq)
qed simp

lemma client_package_ids [simp]: "package_ids (client_filter_package order) = [0x100]"
  by (simp add: package_ids_def)

lemma wf_ack:
  "wf_package p \<Longrightarrow> wf_package (ack_package p ret)"
  by (simp add: wf_package_def ack_package_def)

text \<open>What the client makes of an acknowledgement of the service.\<close>

lemma receive_ack:
  assumes "wf_package p"
  shows "receive_turn (encode_package (ack_package p ret)) c =
    c\<lparr>cv_ready := True, socket_ack_order := socket_order p,
      ack_info := (if ret = 0 then ACK_OKAY else ACK_ERROR)\<rparr>"
proof -
  have "wf_package (ack_package p ret)"
    using assms by (rule wf_ack)
  then show ?thesis
    by (simp add: receive_turn_def receive_turn_package Let_def) (simp add: ack_package_def)
qed

text \<open>
  C3. The test client and the service understand each other, byte for byte. The client's first
  package makes the service write one acknowledgement; with it the client goes on to send four
  frames and its last package; these make the service send the same frame four times on port 5 and
  write one more acknowledgement, with which the client ends, both acknowledgements being positive
  and for the right order. Afterwards the filters of port 5 are what they were and the client has no
  subscription to the identifier.
\<close>

theorem test_client_session:
  fixes h :: "'w hal"
  assumes "wf_index (socket_client_index (socket_client_manager ctl))"
    and "wf_receiver (can_ipc_receiver ctl)" and "64 \<le> sizeof_data h"
  shows "\<exists>ctl1 ack1 c ctl2 ack2.
    handle_packages h fd [client_filter_package SOCKET_ORDER_AS_ADD_FILTER] ctl = Inr ctl1 \<and>
    io_log ctl1 = io_log ctl @ [Io_Write fd ack1] \<and>
    main_between (receive_turn ack1 (main_before new_debug_client)) = Some c \<and>
    client_written c = map encode_package
      ([client_filter_package SOCKET_ORDER_AS_ADD_FILTER] @ replicate 4 send_package @
       [client_filter_package SOCKET_ORDER_AS_REMOVE_FILTER]) \<and>
    handle_packages h fd
      (replicate 4 send_package @ [client_filter_package SOCKET_ORDER_AS_REMOVE_FILTER]) ctl1 = Inr ctl2 \<and>
    io_log ctl2 = io_log ctl1 @ [Io_Write fd ack2] \<and>
    main_after (receive_turn ack2 c) = Some (True, ACK_OKAY) \<and>
    hal_world ctl2 = (sent_world h send_package ^^ 4) (hal_world ctl) \<and>
    port_registered (can_ipc_receiver ctl2) Slot_5 = port_registered (can_ipc_receiver ctl) Slot_5 \<and>
    (fd, 0x100) \<notin> subscribed (socket_client_manager ctl2)"
proof -
  let ?add = "client_filter_package SOCKET_ORDER_AS_ADD_FILTER"
  let ?rm = "client_filter_package SOCKET_ORDER_AS_REMOVE_FILTER"
  let ?ack1 = "encode_package (ack_package ?add 0)" and ?ack2 = "encode_package (ack_package ?rm 0)"
  let ?ctl1 = "acked fd ?add (ctl\<lparr>
    socket_client_manager := manager_add fd [0x100] (socket_client_manager ctl),
    can_ipc_receiver := registered_receiver ?add (lib_pause_can_ipc_receiver (can_ipc_receiver ctl))
      (Some Socket_Receive_Callback)\<rparr>)"
  let ?ctl2 = "acked fd ?rm (?ctl1\<lparr>
    hal_world := (sent_world h send_package ^^ 4) (hal_world ctl),
    socket_client_manager := removed_manager fd [0x100] (socket_client_manager ?ctl1),
    can_ipc_receiver := deregistered_receiver ?rm (lib_pause_can_ipc_receiver (can_ipc_receiver ?ctl1))\<rparr>)"
  have ret: "filter_ret ?add = 0" "filter_ret ?rm = 0" by (simp_all add: filter_ret_def)
  have step1: "handle_packages h fd [?add] ctl = Inr ?ctl1"
    using wf_client_packages(2) by (simp add: handle_orders)
  have step2: "handle_packages h fd (replicate 4 send_package @ [?rm]) ?ctl1 = Inr ?ctl2"
    using wf_client_packages(1,3) assms(3) by (simp only: handle_sends client_package_sel) (simp add: handle_orders)
  have "wf_index (socket_client_index (socket_client_manager ?ctl1))"
    using cm.wf_add [OF assms(1)] by simp
  then have sub: "(fd, 0x100) \<notin> subscribed (socket_client_manager ?ctl2)"
    using subscribed_removed by simp
  have wf: "wf_receiver (can_ipc_receiver ?ctl1)"
    using assms(2) by (simp add: wf_receiver_package)
  have reg: "port_registered (can_ipc_receiver ?ctl2) Slot_5 = port_registered (can_ipc_receiver ctl) Slot_5"
    using assms(2) wf by (simp add: port_registered_package wf_receiver_package)
  let ?c = "receive_turn ?ack1 (main_before new_debug_client)"
  have ack1: "?c = (main_before new_debug_client)\<lparr>cv_ready := True,
      socket_ack_order := SOCKET_ORDER_AS_ADD_FILTER, ack_info := ACK_OKAY\<rparr>"
    using wf_client_packages(2) by (simp add: receive_ack)
  obtain c where c: "main_between ?c = Some c" and "client_written c = map encode_package
      ([?add] @ replicate 4 send_package @ [?rm])"
    unfolding ack1
    by (simp add: main_between_def take_ack_def send_loop_four socket_send_can_data_def
        socket_remove_can_filter_def main_before_def socket_add_can_filter_def new_debug_client_def
        numeral_eq_Suc)
  moreover have "main_after (receive_turn ?ack2 c) = Some (True, ACK_OKAY)"
    using wf_client_packages(3) by (simp add: receive_ack main_after_def take_ack_def)
  ultimately show ?thesis
    using step1 step2 sub reg ret
    by (intro exI [of _ ?ctl1] exI [of _ ?ack1] exI [of _ c] exI [of _ ?ctl2] exI [of _ ?ack2]) simp
qed

theorem test_client_session_witness:
  "\<exists>ctl1 ack1. handle_packages counting_hal 7 [client_filter_package SOCKET_ORDER_AS_ADD_FILTER]
       (empty_controller 0) = Inr ctl1 \<and> io_log ctl1 = [Io_Write 7 ack1]"
  using test_client_session [of "empty_controller 0" counting_hal 7]
  by (fastforce simp: counting_hal_def)

section \<open>From the bus to the screen of a client\<close>

text \<open>
  C10. A CAN frame of at most 64 bytes reaches the screen of a subscribed client unchanged: through
  the conversion in the receiver, the package of the callback, the bytes on the socket and the
  reading thread of the client, it is shown with its identifier and its type, and its payload is
  followed only by the zeros that fill it up to the next payload size of CAN FD.
\<close>

theorem frame_shown_by_client:
  assumes "frame_in_bounds f"
  shows "\<exists>frame shown. frame_of_canframe f = Inr frame \<and>
    client_shown (receive_turn (encode_package (receive_package frame)) c) = client_shown c @ [shown] \<and>
    shown_id shown = canid f \<and> shown_flags shown = can_type f \<and>
    shown_data shown = take (cf_len f) (cf_data f) @
      replicate (unat (can_dlc_to_bytes (can_bytes_to_dlc (of_nat (cf_len f)))) - cf_len f) 0"
proof -
  let ?n = "cf_len f" and ?d = "can_bytes_to_dlc (of_nat (cf_len f))"
  let ?m = "unat (can_dlc_to_bytes ?d)"
  from assms have len: "?n \<le> 64" "?n \<le> length (cf_data f)"
    by (simp_all add: frame_in_bounds_def CANFD_MAX_DLEN_def)
  have u: "unat (of_nat ?n :: u8) = ?n" using len(1) by (simp add: unat_of_nat)
  with len(1) have "(of_nat ?n :: u8) \<le> 64" by (simp add: word_le_nat_alt)
  then have "of_nat ?n \<le> can_dlc_to_bytes ?d" using can_dlc_galois [of "of_nat ?n" ?d] by simp
  then have fits: "?n \<le> ?m" by (simp add: word_le_nat_alt u)
  have "?m \<le> 64" by (rule can_dlc_to_bytes_le_64)
  with fits len have data: "take ?m (pad_to 64 (take ?n (cf_data f))) =
      take ?n (cf_data f) @ replicate (?m - ?n) 0"
    by (simp add: pad_to_def min_def)
  have "wf_package (receive_package (rx_frame f))"
    by (rule wf_receive_package) simp
  then have "client_shown (receive_turn (encode_package (receive_package (rx_frame f))) c) =
      client_shown c @ [\<lparr>shown_id = canid f, shown_dlc = ?d, shown_flags = can_type f,
        shown_data = take ?m (pad_to 64 (take ?n (cf_data f)))\<rparr>]"
    by (simp add: receive_turn_def receive_turn_package Let_def receive_package_def rx_frame_def
        CANFD_MAX_DLEN_def)
  then show ?thesis
    unfolding frame_of_canframe_ok [OF assms] data by (intro exI [of _ "rx_frame f"]) force
qed

theorem frame_shown_by_client_witness:
  "\<exists>frame shown. frame_of_canframe (sample_canframe 9) = Inr frame \<and>
    client_shown (receive_turn (encode_package (receive_package frame)) new_debug_client) = [shown] \<and>
    shown_id shown = 0x100 \<and> shown_data shown = replicate 9 7 @ replicate 3 0"
proof -
  have bounds: "frame_in_bounds (sample_canframe 9)"
    by (simp add: sample_canframe_def frame_in_bounds_def CANFD_MAX_DLEN_def)
  have len: "unat (can_dlc_to_bytes (can_bytes_to_dlc 9)) = 12"
    by (simp add: can_bytes_to_dlc_def can_dlc_to_bytes_def dlc_table_def)
  have f: "cf_len (sample_canframe 9) = 9" "canid (sample_canframe 9) = 0x100"
    "take 9 (cf_data (sample_canframe 9)) = replicate 9 7" "client_shown new_debug_client = []"
    by (simp_all add: sample_canframe_def new_debug_client_def)
  from frame_shown_by_client [OF bounds, of new_debug_client] show ?thesis
    unfolding f by (auto simp: len)
qed

end
